(* ===== verification/Prelude.thy ===== *)
theory Prelude
  imports Main "HOL-Library.Word"
begin

unbundle bit_operations_syntax

text \<open>
  What every component of the development shares.

  \<^item> \<open>fault\<close>: the ways a C++ operation of the library can leave the defined behaviour of the
    language (a failed \<open>assert\<close>, a read outside an array, an invalid iterator range, a null
    \<open>unique_ptr\<close> that is dereferenced, a variable that is read before it is set,
    an empty \<open>std::function\<close> that is called). A fallible operation returns \<open>fault + 'a\<close>.
  \<^item> the part of \<open><algorithm>\<close> and \<open><string>\<close> that the parsers use: \<open>std::find\<close>,
    \<open>std::search\<close> and the range constructor \<open>string(first, last)\<close>, over positions of a
    byte list (a pointer into a \<open>vector<char>\<close> is a position).
  \<^item> the list and number facts the component proofs have in common, and the collections
    \<open>range_simps\<close> (positions against sublists) and \<open>inv_rules\<close> (preservation of
    invariants).
\<close>

named_theorems range_simps \<open>positions in a byte list as operations on sublists\<close>
named_theorems inv_rules \<open>operations keep the invariant of their component\<close>

type_synonym bytes = "char list"

datatype fault = AssertFailed | OutOfBounds | InvalidRange | NullDeref | LengthError | Indeterminate | BadFunctionCall

text \<open>The value of an optional as a list of at most one element.\<close>

definition option_list :: "'a option \<Rightarrow> 'a list" where
  "option_list x = (case x of None \<Rightarrow> [] | Some a \<Rightarrow> [a])"

text \<open>One thing after another, stopping at the first fault.\<close>

definition and_then :: "fault + 'a \<Rightarrow> ('a \<Rightarrow> fault + 'b) \<Rightarrow> fault + 'b" where
  "and_then x f = (case x of Inl e \<Rightarrow> Inl e | Inr a \<Rightarrow> f a)"

lemma and_then_simps [simp]: "and_then (Inl e) f = Inl e" "and_then (Inr a) f = f a"
  by (simp_all add: and_then_def)

subsection \<open>Conversions between integer types\<close>

text \<open>The value of \<open>static_cast<int>\<close> on a wider integer (two's complement, 32 bits).\<close>

definition c_int :: "int \<Rightarrow> int" where
  "c_int x = signed_take_bit 31 x"

lemma c_int_id: "- (2 ^ 31) \<le> x \<Longrightarrow> x < 2 ^ 31 \<Longrightarrow> c_int x = x"
  by (simp add: c_int_def signed_take_bit_int_eq_self)

lemma c_int_nat: "n < 2 ^ 31 \<Longrightarrow> c_int (int n) = int n"
  using c_int_id [of "int n"] by simp

text \<open>The value of an integer after its conversion to \<open>size_t\<close> (64 bits).\<close>

definition to_size :: "int \<Rightarrow> nat" where
  "to_size x = nat (x mod 2 ^ 64)"

lemma to_size_id: "0 \<le> x \<Longrightarrow> x < 2 ^ 64 \<Longrightarrow> to_size x = nat x"
  by (simp add: to_size_def)

lemma to_size_minus_one: "to_size (- 1) = 2 ^ 64 - 1"
  by (simp add: to_size_def)

text \<open>C++ integer division and remainder truncate towards zero.\<close>

definition c_div :: "int \<Rightarrow> int \<Rightarrow> int" where
  "c_div a b = sgn a * sgn b * (\<bar>a\<bar> div \<bar>b\<bar>)"

definition c_mod :: "int \<Rightarrow> int \<Rightarrow> int" where
  "c_mod a b = a - b * c_div a b"

lemma c_div_nonneg: "0 \<le> a \<Longrightarrow> 0 < b \<Longrightarrow> c_div a b = a div b"
  by (cases "a = 0") (simp_all add: c_div_def)

lemma c_mod_nonneg: "0 \<le> a \<Longrightarrow> 0 < b \<Longrightarrow> c_mod a b = a mod b"
  by (simp add: c_mod_def c_div_nonneg minus_mult_div_eq_mod)

subsection \<open>Ranges of a byte list\<close>

text \<open>\<open>string(first, last)\<close> for positions \<open>first \<le> last\<close> of the same array.\<close>

definition seg :: "'a list \<Rightarrow> nat \<Rightarrow> nat \<Rightarrow> 'a list" where
  "seg xs s e = take (e - s) (drop s xs)"

lemma length_seg [range_simps]: "e \<le> length xs \<Longrightarrow> length (seg xs s e) = e - s"
  by (simp add: seg_def)

lemma seg_empty [simp]: "e \<le> s \<Longrightarrow> seg xs s e = []"
  by (simp add: seg_def)

lemma seg_Cons: "s < e \<Longrightarrow> e \<le> length xs \<Longrightarrow> seg xs s e = xs ! s # seg xs (Suc s) e"
  by (simp add: seg_def Cons_nth_drop_Suc [symmetric] take_Cons')

lemma seg_append:
  assumes "s \<le> m" and "m \<le> e"
  shows "seg xs s e = seg xs s m @ seg xs m e"
proof -
  have "e - s = (m - s) + (e - m)" using assms by simp
  then show ?thesis using assms by (simp only: seg_def take_add drop_drop) simp
qed

lemma drop_seg [range_simps]: "drop n (seg xs s e) = seg xs (s + n) e"
  by (simp add: seg_def drop_take add.commute)

lemma take_seg: "n \<le> e - s \<Longrightarrow> take n (seg xs s e) = seg xs s (s + n)"
  by (simp add: seg_def min_def)

lemma nth_seg: "s + i < e \<Longrightarrow> e \<le> length xs \<Longrightarrow> seg xs s e ! i = xs ! (s + i)"
  by (simp add: seg_def)

lemma seg_of_append:
  "length ys = s \<Longrightarrow> e = s + length xs \<Longrightarrow> seg (ys @ xs @ zs) s e = xs"
  by (simp add: seg_def)

subsection \<open>std::find and std::search\<close>

text \<open>
  \<open>std::find(first, last, c)\<close>: the first position of the range that holds \<open>c\<close>, or \<open>last\<close>.
\<close>

function std_find :: "'a list \<Rightarrow> nat \<Rightarrow> nat \<Rightarrow> 'a \<Rightarrow> nat" where
  "std_find xs s e c =
     (if s < e then (if xs ! s = c then s else std_find xs (Suc s) e c) else e)"
  by pat_completeness auto
termination
  by (relation "measure (\<lambda>(xs, s, e, c). e - s)") auto

declare std_find.simps [simp del]

lemma std_find_eq [range_simps]:
  "s \<le> e \<Longrightarrow> e \<le> length xs \<Longrightarrow>
     std_find xs s e c = s + length (takeWhile (\<lambda>x. x \<noteq> c) (seg xs s e))"
proof (induction xs s e c rule: std_find.induct)
  case (1 xs s e c)
  show ?case
  proof (cases "s < e")
    case True
    with 1 show ?thesis by (auto simp: std_find.simps [of xs s e c] seg_Cons)
  next
    case False
    with 1 show ?thesis by (subst std_find.simps) simp
  qed
qed

lemma std_find_le: "s \<le> e \<Longrightarrow> e \<le> length xs \<Longrightarrow> s \<le> std_find xs s e c \<and> std_find xs s e c \<le> e"
  using length_takeWhile_le [of "\<lambda>x. x \<noteq> c" "seg xs s e"] by (simp add: range_simps)

lemma std_find_end_iff:
  "s \<le> e \<Longrightarrow> e \<le> length xs \<Longrightarrow> std_find xs s e c = e \<longleftrightarrow> c \<notin> set (seg xs s e)"
proof (induction xs s e c rule: std_find.induct)
  case (1 xs s e c)
  show ?case
  proof (cases "s < e")
    case True
    with 1 show ?thesis by (auto simp: std_find.simps [of xs s e c] seg_Cons)
  next
    case False
    with 1 show ?thesis by (subst std_find.simps) simp
  qed
qed

text \<open>
  \<open>std::search(first, last, pat)\<close>: the first position at which the whole pattern lies in the
  range, or \<open>last\<close>.
\<close>

function std_search :: "'a list \<Rightarrow> nat \<Rightarrow> nat \<Rightarrow> 'a list \<Rightarrow> nat" where
  "std_search xs s e pat =
     (if s + length pat \<le> e \<and> s < e
      then (if seg xs s (s + length pat) = pat then s else std_search xs (Suc s) e pat)
      else e)"
  by pat_completeness auto
termination
  by (relation "measure (\<lambda>(xs, s, e, pat). e - s)") auto

declare std_search.simps [simp del]

subsection \<open>Lines ended by CR LF\<close>

definition CR :: char where
  "CR = CHR 0x0D"

definition LF :: char where
  "LF = CHR 0x0A"

definition CRLF :: bytes where
  "CRLF = [CR, LF]"

text \<open>The first line of a byte sequence and what follows its CR LF.\<close>

fun split_crlf :: "bytes \<Rightarrow> (bytes \<times> bytes) option" where
  "split_crlf (c # d # cs) =
     (if c = CR \<and> d = LF then Some ([], cs) else map_option (apfst ((#) c)) (split_crlf (d # cs)))"
| "split_crlf _ = None"

lemma split_crlf_Some: "split_crlf bs = Some (l, r) \<Longrightarrow> bs = l @ CRLF @ r"
  by (induction bs arbitrary: l rule: split_crlf.induct)
     (auto simp: CRLF_def split: if_splits)

lemma split_crlf_length: "split_crlf bs = Some (l, r) \<Longrightarrow> length r < length bs"
  by (drule split_crlf_Some) (simp add: CRLF_def)

lemma split_crlf_append: "split_crlf bs = Some (l, r) \<Longrightarrow> split_crlf (bs @ cs) = Some (l, r @ cs)"
  by (induction bs arbitrary: l rule: split_crlf.induct) (auto split: if_splits)

lemma split_crlf_line: "CR \<notin> set l \<Longrightarrow> split_crlf (l @ CRLF @ r) = Some (l, r)"
proof (induction l)
  case Nil
  then show ?case by (simp add: CRLF_def)
next
  case (Cons c l)
  then show ?case by (cases "l @ CRLF @ r") (auto simp: CRLF_def)
qed

lemma split_crlf_no_CR: "CR \<notin> set bs \<Longrightarrow> split_crlf bs = None"
  by (induction bs rule: split_crlf.induct) auto

lemma split_crlf_None: "split_crlf bs = None \<Longrightarrow> bs \<noteq> l @ CRLF @ r"
proof (induction bs arbitrary: l rule: split_crlf.induct)
  case (1 c d cs)
  have "d # cs \<noteq> tl l @ CRLF @ r" if "l \<noteq> []"
    using 1 that by (auto split: if_splits)
  with 1 show ?case by (cases l) (auto simp: CRLF_def split: if_splits)
qed (auto simp: CRLF_def Cons_eq_append_conv append_eq_Cons_conv)

lemma split_crlf_first:
  "split_crlf bs = Some (l, r) \<Longrightarrow> bs = l' @ CRLF @ r' \<Longrightarrow> length l \<le> length l'"
proof (induction bs arbitrary: l l' rule: split_crlf.induct)
  case (1 c d cs)
  show ?case
  proof (cases "c = CR \<and> d = LF")
    case True
    then show ?thesis using 1 by simp
  next
    case False
    then obtain m where m: "split_crlf (d # cs) = Some (m, r)" "l = c # m"
      using 1(2) by auto
    obtain x xs where l': "l' = x # xs"
      using False 1(3) by (cases l') (auto simp: CRLF_def)
    have "length m \<le> length xs" using 1(1) [OF False m(1), of xs] 1(3) l' by simp
    then show ?thesis using m l' by simp
  qed
qed (metis split_crlf.simps option.distinct(1))+

lemma std_search_CRLF [range_simps]:
  "s \<le> e \<Longrightarrow> e \<le> length xs \<Longrightarrow>
     std_search xs s e CRLF =
       (case split_crlf (seg xs s e) of None \<Rightarrow> e | Some (l, r) \<Rightarrow> s + length l)"
proof (induction "e - s" arbitrary: s)
  case 0
  then show ?case by (subst std_search.simps) simp
next
  case (Suc n)
  then have s: "s < e" and e: "e \<le> length xs" by auto
  show ?case
  proof (cases "Suc s < e")
    case False
    with s have "Suc s = e" by simp
    then have "seg xs s e = [xs ! s]" using s e by (simp add: seg_Cons)
    then show ?thesis using \<open>Suc s = e\<close> by (subst std_search.simps) (simp add: CRLF_def)
  next
    case True
    have two: "seg xs s e = xs ! s # xs ! Suc s # seg xs (Suc (Suc s)) e"
      using True e by (simp add: seg_Cons)
    have "seg xs s (s + 2) = [xs ! s, xs ! Suc s]"
      using True e by (simp add: seg_Cons)
    moreover have "std_search xs (Suc s) e CRLF =
        (case split_crlf (seg xs (Suc s) e) of None \<Rightarrow> e | Some (l, r) \<Rightarrow> Suc s + length l)"
      by (rule Suc.hyps) (use Suc.hyps(2) True e in auto)
    moreover have "seg xs (Suc s) e = xs ! Suc s # seg xs (Suc (Suc s)) e"
      using True e by (simp add: seg_Cons)
    ultimately show ?thesis using True
      by (subst std_search.simps) (auto simp: two CRLF_def numeral_2_eq_2 split: option.splits)
  qed
qed

lemma split_crlf_seg:
  assumes "split_crlf (seg xs s e) = Some (l, r)" and "s \<le> e" and "e \<le> length xs"
  shows "l = seg xs s (s + length l)" and "r = seg xs (s + length l + 2) e"
    and "s + length l + 2 \<le> e"
proof -
  have eq: "seg xs s e = l @ CRLF @ r" using assms(1) by (rule split_crlf_Some)
  have "length (seg xs s e) = e - s" using assms(3) by (rule length_seg)
  with eq assms(2) show le: "s + length l + 2 \<le> e" by (simp add: CRLF_def)
  have "take (length l) (seg xs s e) = l" using eq by simp
  then show "l = seg xs s (s + length l)" using le by (simp add: take_seg)
  have "drop (length l + 2) (seg xs s e) = r" using eq by (simp add: CRLF_def)
  then show "r = seg xs (s + length l + 2) e" by (simp add: drop_seg add.assoc)
qed

subsection \<open>Splitting at a character\<close>

text \<open>What is before and behind the first \<open>c\<close>, if there is one.\<close>

fun split_at :: "'a \<Rightarrow> 'a list \<Rightarrow> ('a list \<times> 'a list) option" where
  "split_at c [] = None"
| "split_at c (x # xs) =
     (if x = c then Some ([], xs) else map_option (apfst ((#) x)) (split_at c xs))"

lemma split_at_None_iff: "split_at c xs = None \<longleftrightarrow> c \<notin> set xs"
  by (induction xs) auto

lemma split_at_None [simp]: "c \<notin> set xs \<Longrightarrow> split_at c xs = None"
  by (simp add: split_at_None_iff)

lemma split_at_Some: "split_at c xs = Some (l, r) \<Longrightarrow> xs = l @ c # r \<and> c \<notin> set l"
  by (induction xs arbitrary: l) (auto split: if_splits)

lemma split_at_append [simp]: "c \<notin> set l \<Longrightarrow> split_at c (l @ c # r) = Some (l, r)"
  by (induction l) auto

lemma std_find_split:
  assumes "s \<le> e" and "e \<le> length xs" and "split_at c (seg xs s e) = Some (l, r)"
  shows "std_find xs s e c < e" and "s \<le> std_find xs s e c"
    and "seg xs s (std_find xs s e c) = l" and "seg xs (Suc (std_find xs s e c)) e = r"
proof -
  from split_at_Some [OF assms(3)] have eq: "seg xs s e = l @ c # r" "c \<notin> set l" by simp_all
  have "takeWhile (\<lambda>x. x \<noteq> c) (l @ c # r) = l" using eq(2) by (induction l) auto
  then have i: "std_find xs s e c = s + length l" using assms(1,2) eq(1) by (simp add: std_find_eq)
  have "length (seg xs s e) = e - s" using assms(2) by (rule length_seg)
  then have "s + length l < e" using eq(1) assms(1) by simp
  then show "std_find xs s e c < e" and "s \<le> std_find xs s e c" using i by simp_all
  have "take (length l) (seg xs s e) = l" using eq(1) by simp
  then show "seg xs s (std_find xs s e c) = l" using \<open>s + length l < e\<close> by (simp add: i take_seg)
  have "drop (Suc (length l)) (seg xs s e) = r" using eq(1) by simp
  then show "seg xs (Suc (std_find xs s e c)) e = r" by (simp add: i drop_seg)
qed

lemma std_find_none:
  "s \<le> e \<Longrightarrow> e \<le> length xs \<Longrightarrow> split_at c (seg xs s e) = None \<Longrightarrow> std_find xs s e c = e"
  by (simp add: std_find_end_iff split_at_None_iff)

subsection \<open>Overwriting a part of an array\<close>

text \<open>\<open>std::copy\<close> of \<open>ys\<close> to position \<open>p\<close> of the array \<open>xs\<close>, for \<open>p + length ys \<le> length xs\<close>.\<close>

definition put_at :: "'a list \<Rightarrow> nat \<Rightarrow> 'a list \<Rightarrow> 'a list" where
  "put_at xs p ys = take p xs @ ys @ drop (p + length ys) xs"

lemma length_put_at [simp]: "p + length ys \<le> length xs \<Longrightarrow> length (put_at xs p ys) = length xs"
  by (simp add: put_at_def)

lemma seg_put_at_here: "p + length ys \<le> length xs \<Longrightarrow> seg (put_at xs p ys) p (p + length ys) = ys"
  by (simp add: put_at_def seg_def)

lemma seg_put_at_before:
  "e \<le> p \<Longrightarrow> p \<le> length xs \<Longrightarrow> seg (put_at xs p ys) s e = seg xs s e"
  by (cases "s \<le> e") (simp_all add: put_at_def seg_def drop_take min_def)

text \<open>\<open>vector<char>::resize\<close>: truncated, or filled up with zero bytes.\<close>

definition resize :: "bytes \<Rightarrow> nat \<Rightarrow> bytes" where
  "resize xs n = take n xs @ replicate (n - length xs) (CHR 0x00)"

lemma length_resize [simp]: "length (resize xs n) = n"
  by (simp add: resize_def)

lemma seg_resize: "e \<le> length xs \<Longrightarrow> e \<le> n \<Longrightarrow> seg (resize xs n) s e = seg xs s e"
  by (cases "s \<le> e") (simp_all add: resize_def seg_def drop_take min_def)

subsection \<open>Decimal numbers\<close>

text \<open>The decimal digits that \<open>%d\<close> and \<open>std::to_string\<close> print, and their value.\<close>

definition digit :: "nat \<Rightarrow> char" where
  "digit d = char_of (48 + d)"

fun dec :: "nat \<Rightarrow> string" where
  "dec n = (if n < 10 then [digit n] else dec (n div 10) @ [digit (n mod 10)])"

declare dec.simps [simp del]

definition fmt_int :: "int \<Rightarrow> string" where
  "fmt_int i = (if i < 0 then CHR ''-'' # dec (nat (- i)) else dec (nat i))"

definition pad_left :: "char \<Rightarrow> nat \<Rightarrow> string \<Rightarrow> string" where
  "pad_left c w s = replicate (w - length s) c @ s"

definition digit_value :: "char \<Rightarrow> nat" where
  "digit_value c = of_char c - 48"

definition dec_value :: "string \<Rightarrow> nat" where
  "dec_value s = foldl (\<lambda>a c. a * 10 + digit_value c) 0 s"

lemma digit_value_digit [simp]: "d < 10 \<Longrightarrow> digit_value (digit d) = d"
  by (simp add: digit_value_def digit_def)

lemma dec_value_dec [simp]: "dec_value (dec n) = n"
proof (induction n rule: dec.induct)
  case (1 n)
  show ?case
  proof (cases "n < 10")
    case True
    then show ?thesis by (simp add: dec.simps [of n] dec_value_def)
  next
    case False
    with 1 have "dec_value (dec (n div 10)) = n div 10" by simp
    with False show ?thesis by (simp add: dec.simps [of n] dec_value_def)
  qed
qed

lemma dec_inj: "dec m = dec n \<longleftrightarrow> m = n"
  by (metis dec_value_dec)

lemma dec_nonempty [simp]: "dec n \<noteq> []"
  by (subst dec.simps) simp

lemma length_dec: "n < 10 ^ k \<Longrightarrow> 0 < k \<Longrightarrow> length (dec n) \<le> k"
proof (induction k arbitrary: n)
  case 0
  then show ?case by simp
next
  case (Suc k)
  show ?case
  proof (cases "n < 10")
    case True
    then show ?thesis by (subst dec.simps) simp
  next
    case False
    then have "0 < k" using Suc.prems(1) by (cases k) auto
    moreover have "n div 10 < 10 ^ k" using Suc.prems(1) by (simp add: less_mult_imp_div_less)
    ultimately have "length (dec (n div 10)) \<le> k" by (intro Suc.IH)
    with False show ?thesis by (subst dec.simps) simp
  qed
qed

lemma length_dec_ge: "10 ^ k \<le> n \<Longrightarrow> k < length (dec n)"
proof (induction k arbitrary: n)
  case 0
  then show ?case by (simp add: length_greater_0_conv)
next
  case (Suc k)
  then have "\<not> n < 10" by (metis leD le_trans one_le_numeral one_le_power power_Suc mult_le_mono2 mult.right_neutral)
  moreover have "10 ^ k \<le> n div 10" using Suc.prems by (simp add: less_eq_div_iff_mult_less_eq mult.commute)
  ultimately show ?case using Suc.IH [of "n div 10"] by (subst dec.simps) simp
qed

text \<open>The leading digits of a number of known length.\<close>

lemma take_dec: "10 ^ (j + k - 1) \<le> n \<Longrightarrow> n < 10 ^ (j + k) \<Longrightarrow> 0 < j \<Longrightarrow> take j (dec n) = dec (n div 10 ^ k)"
proof (induction k arbitrary: n)
  case 0
  then have "length (dec n) \<le> j" by (intro length_dec) simp_all
  then show ?case by simp
next
  case (Suc k)
  have big: "\<not> n < 10"
  proof -
    have "(10 :: nat) ^ 1 \<le> 10 ^ (j + Suc k - 1)" using Suc.prems(3) by (intro power_increasing) simp_all
    then show ?thesis using Suc.prems(1) by simp
  qed
  have lo: "10 ^ (j + k - 1) \<le> n div 10"
    using Suc.prems(1,3) by (cases j) (simp_all add: less_eq_div_iff_mult_less_eq mult.commute)
  have "n div 10 < 10 ^ (j + k)" using Suc.prems(2) by (simp add: less_mult_imp_div_less mult.commute)
  with lo have "take j (dec (n div 10)) = dec (n div 10 div 10 ^ k)" using Suc.prems(3) by (rule Suc.IH)
  moreover have "j \<le> length (dec (n div 10))"
  proof (cases j)
    case (Suc i)
    have "(10 :: nat) ^ i \<le> 10 ^ (j + k - 1)" using Suc by (intro power_increasing) simp_all
    from le_trans [OF this lo] have "i < length (dec (n div 10))" by (rule length_dec_ge)
    then show ?thesis using Suc by simp
  qed simp
  ultimately show ?case using big by (subst dec.simps) (simp add: div_mult2_eq)
qed

lemma digit_not_CR: "d < 10 \<Longrightarrow> digit d \<noteq> CR"
proof
  assume "d < 10" and "digit d = CR"
  then have "(of_char (digit d) :: nat) = of_char CR" by simp
  then show False using \<open>d < 10\<close> by (simp add: digit_def CR_def)
qed

lemma CR_not_in_dec: "CR \<notin> set (dec n)"
proof (induction n rule: dec.induct)
  case (1 n)
  then show ?case using digit_not_CR [of "n mod 10"] digit_not_CR [of n]
    by (subst dec.simps) (auto simp: eq_commute [of CR])
qed

end
