(* ===== verification/Net_Buffer.thy ===== *)
theory Net_Buffer
  imports Prelude
begin

text \<open>
  \<^verbatim>\<open>Net/Buffer.h\<close>, \<^verbatim>\<open>Net/Buffer.cc\<close>: the growable byte buffer of a connection.

  The \<open>vector<char>\<close> is a byte list, the two indices are positions in it, a \<open>char*\<close> into the
  buffer is a position as well. Sizes are naturals: below the vector's \<open>max_size\<close> (\<open>2^63 - 1\<close>)
  the \<open>size_t\<close> arithmetic of the code is exact. The two places where the code narrows or
  reinterprets a number are kept: the \<open>static_cast<int>\<close> of \<open>retrieveUntilIdx\<close> and the
  \<open>size_t\<close> that receives the result of \<open>readv\<close> in \<open>readFd\<close>.

  Abstractly a buffer is the FIFO byte string between its two indices (\<open>content\<close>); the locale
  \<open>byte_queue\<close> states that contract and \<open>netbuf\<close> interprets it. Names drop the trailing
  underscore of the code's members.
\<close>

subsection \<open>State and operations\<close>

record Buffer =
  buffer :: bytes
  readIdx :: nat
  writeIdx :: nat

definition kcheapPrepend :: nat where
  "kcheapPrepend = 8"

definition kInitialSize :: nat where
  "kInitialSize = 1024"

definition new_Buffer :: "nat \<Rightarrow> Buffer" where
  "new_Buffer initialSize =
     \<lparr>buffer = replicate (kcheapPrepend + initialSize) (CHR 0x00),
      readIdx = kcheapPrepend, writeIdx = kcheapPrepend\<rparr>"

definition readableBytes :: "Buffer \<Rightarrow> nat" where
  "readableBytes b = writeIdx b - readIdx b"

definition writeableBytes :: "Buffer \<Rightarrow> nat" where
  "writeableBytes b = length (buffer b) - writeIdx b"

definition prependanleBytes :: "Buffer \<Rightarrow> nat" where
  "prependanleBytes b = readIdx b"

definition peek :: "Buffer \<Rightarrow> nat" where
  "peek b = readIdx b"

definition beginwrite :: "Buffer \<Rightarrow> nat" where
  "beginwrite b = writeIdx b"

definition retrieveAll :: "Buffer \<Rightarrow> Buffer" where
  "retrieveAll b = b\<lparr>readIdx := kcheapPrepend, writeIdx := kcheapPrepend\<rparr>"

definition retrieve :: "nat \<Rightarrow> Buffer \<Rightarrow> Buffer" where
  "retrieve len b =
     (if len < readableBytes b then b\<lparr>readIdx := readIdx b + len\<rparr> else retrieveAll b)"

definition retieveAsString :: "nat \<Rightarrow> Buffer \<Rightarrow> fault + (bytes \<times> Buffer)" where
  "retieveAsString len b =
     (if peek b + len \<le> length (buffer b)
      then Inr (seg (buffer b) (peek b) (peek b + len), retrieve len b)
      else Inl OutOfBounds)"

definition retrieveAllAsString :: "Buffer \<Rightarrow> fault + (bytes \<times> Buffer)" where
  "retrieveAllAsString b = retieveAsString (readableBytes b) b"

text \<open>\<open>findCRLF\<close>: the null pointer is \<open>None\<close>.\<close>

definition findCRLF :: "Buffer \<Rightarrow> nat option" where
  "findCRLF b =
     (let crlf = std_search (buffer b) (peek b) (beginwrite b) CRLF
      in if crlf = beginwrite b then None else Some crlf)"

definition retrieveUntilIdx :: "nat \<Rightarrow> Buffer \<Rightarrow> fault + Buffer" where
  "retrieveUntilIdx index b =
     (if beginwrite b \<ge> index
      then Inr (b\<lparr>readIdx := to_size (int (readIdx b) + c_int (int index - int (peek b)))\<rparr>)
      else Inl AssertFailed)"

definition makeSpace :: "nat \<Rightarrow> Buffer \<Rightarrow> Buffer" where
  "makeSpace len b =
     (if writeableBytes b + prependanleBytes b < len + kcheapPrepend
      then b\<lparr>buffer := resize (buffer b) (writeIdx b + len)\<rparr>
      else (let readable = readableBytes b
            in b\<lparr>buffer := put_at (buffer b) kcheapPrepend
                              (seg (buffer b) (readIdx b) (writeIdx b)),
                 readIdx := kcheapPrepend,
                 writeIdx := kcheapPrepend + readable\<rparr>))"

definition ensureWriteableBytes :: "nat \<Rightarrow> Buffer \<Rightarrow> Buffer" where
  "ensureWriteableBytes len b = (if writeableBytes b < len then makeSpace len b else b)"

text \<open>\<open>append(data, len)\<close> for the \<open>len\<close> bytes \<open>data\<close>, and \<open>append(const string&)\<close>.\<close>

definition append_data :: "bytes \<Rightarrow> Buffer \<Rightarrow> Buffer" where
  "append_data data b =
     (let b1 = ensureWriteableBytes (length data) b
      in b1\<lparr>buffer := put_at (buffer b1) (writeIdx b1) data,
            writeIdx := writeIdx b1 + length data\<rparr>)"

text \<open>
  \<open>readFd\<close>. The argument \<open>readv\<close> is the system call on the two-part \<open>iovec\<close>: from the capacity
  it offers to the result and the bytes delivered. The result is stored in a \<open>const size_t\<close>, so
  the test \<open>n < 0\<close> of the code is never true and an error return of \<open>-1\<close> reaches the last
  branch, which reads \<open>n - writeable\<close> bytes of the 65535-byte array \<open>extrabuf\<close>. The function
  has no \<open>return\<close> statement; what a caller sees as its value is therefore not part of the
  result here.
\<close>

definition extrabuf_size :: nat where
  "extrabuf_size = 65535"

definition readFd_capacity :: "Buffer \<Rightarrow> nat" where
  "readFd_capacity b =
     (if writeableBytes b < extrabuf_size then writeableBytes b + extrabuf_size
      else writeableBytes b)"

definition readFd :: "(nat \<Rightarrow> int \<times> bytes) \<Rightarrow> Buffer \<Rightarrow> fault + Buffer" where
  "readFd readv b =
     (let writeable = writeableBytes b;
          (ret, data) = readv (readFd_capacity b);
          n = to_size ret;
          b1 = b\<lparr>buffer := put_at (buffer b) (writeIdx b) (take writeable data)\<rparr>
      in if n \<le> writeable then Inr (b1\<lparr>writeIdx := writeIdx b1 + n\<rparr>)
         else if n - writeable \<le> extrabuf_size
         then Inr (append_data (take (n - writeable)
                (put_at (replicate extrabuf_size (CHR 0x00)) 0 (drop writeable data)))
                (b1\<lparr>writeIdx := length (buffer b1)\<rparr>))
         else Inl OutOfBounds)"

text \<open>\<open>writeFd\<close>: the bytes offered to \<open>write\<close>; the buffer itself does not change.\<close>

definition writeFd :: "(bytes \<Rightarrow> int) \<Rightarrow> Buffer \<Rightarrow> int" where
  "writeFd write b = write (seg (buffer b) (peek b) (peek b + readableBytes b))"

subsection \<open>Invariant and abstraction\<close>

definition buf_inv :: "Buffer \<Rightarrow> bool" where
  "buf_inv b \<longleftrightarrow>
     kcheapPrepend \<le> readIdx b \<and> readIdx b \<le> writeIdx b \<and> writeIdx b \<le> length (buffer b)"

definition content :: "Buffer \<Rightarrow> bytes" where
  "content b = seg (buffer b) (readIdx b) (writeIdx b)"

lemmas buf_defs = readableBytes_def writeableBytes_def prependanleBytes_def peek_def
  beginwrite_def kcheapPrepend_def

lemma buf_inv_bounds:
  "buf_inv b \<Longrightarrow> readIdx b \<le> writeIdx b" "buf_inv b \<Longrightarrow> writeIdx b \<le> length (buffer b)"
  by (simp_all add: buf_inv_def)

lemma length_content: "buf_inv b \<Longrightarrow> length (content b) = readableBytes b"
  by (simp add: buf_inv_def content_def readableBytes_def length_seg)

lemma buf_inv_new [inv_rules, simp]: "buf_inv (new_Buffer n)"
  by (simp add: buf_inv_def new_Buffer_def)

lemma content_new [simp]: "content (new_Buffer n) = []"
  by (simp add: content_def new_Buffer_def)

lemma buf_inv_retrieveAll [inv_rules]: "buf_inv b \<Longrightarrow> buf_inv (retrieveAll b)"
  by (auto simp: buf_inv_def retrieveAll_def)

lemma content_retrieveAll [simp]: "content (retrieveAll b) = []"
  by (simp add: content_def retrieveAll_def)

lemma buf_inv_retrieve [inv_rules]: "buf_inv b \<Longrightarrow> buf_inv (retrieve n b)"
  by (auto simp: buf_inv_def retrieve_def retrieveAll_def readableBytes_def)

lemma content_retrieve: "buf_inv b \<Longrightarrow> content (retrieve n b) = drop n (content b)"
  using length_content [of b]
  by (auto simp: retrieve_def) (simp add: content_def drop_seg)

lemma makeSpace_grow:
  assumes "buf_inv b" and "writeableBytes b < len"
  shows "buf_inv (makeSpace len b)" and "content (makeSpace len b) = content b"
    and "len \<le> writeableBytes (makeSpace len b)"
proof -
  let ?ys = "seg (buffer b) (readIdx b) (writeIdx b)"
  have len_ys: "length ?ys = writeIdx b - readIdx b"
    using assms(1) by (simp add: buf_inv_def length_seg)
  have "buf_inv (makeSpace len b) \<and> content (makeSpace len b) = content b \<and>
        len \<le> writeableBytes (makeSpace len b)"
  proof (cases "writeableBytes b + prependanleBytes b < len + kcheapPrepend")
    case True
    with assms show ?thesis
      by (simp add: makeSpace_def buf_inv_def content_def seg_resize writeableBytes_def)
  next
    case False
    have fits: "kcheapPrepend + length ?ys \<le> length (buffer b)"
      using assms(1) len_ys by (auto simp: buf_inv_def kcheapPrepend_def)
    have "seg (put_at (buffer b) kcheapPrepend ?ys) kcheapPrepend
            (kcheapPrepend + readableBytes b) = ?ys"
      using seg_put_at_here [OF fits] len_ys by (simp add: readableBytes_def)
    moreover have "len \<le> length (buffer b) - (kcheapPrepend + readableBytes b)"
      using False assms(1) by (simp add: buf_defs buf_inv_def)
    ultimately show ?thesis using False fits len_ys
      by (simp add: makeSpace_def buf_inv_def content_def writeableBytes_def readableBytes_def)
  qed
  then show "buf_inv (makeSpace len b)" and "content (makeSpace len b) = content b"
    and "len \<le> writeableBytes (makeSpace len b)" by auto
qed

lemma ensureWriteableBytes_ok:
  assumes "buf_inv b"
  shows "buf_inv (ensureWriteableBytes len b)"
    and "content (ensureWriteableBytes len b) = content b"
    and "len \<le> writeableBytes (ensureWriteableBytes len b)"
  using assms makeSpace_grow [OF assms] by (auto simp: ensureWriteableBytes_def not_less)

lemma write_at_end:
  assumes "buf_inv b" and "length data \<le> writeableBytes b"
  shows "buf_inv (b\<lparr>buffer := put_at (buffer b) (writeIdx b) data,
                    writeIdx := writeIdx b + length data\<rparr>)" (is "buf_inv ?b")
    and "content (b\<lparr>buffer := put_at (buffer b) (writeIdx b) data,
                    writeIdx := writeIdx b + length data\<rparr>) = content b @ data"
proof -
  have fits: "writeIdx b + length data \<le> length (buffer b)"
    using assms by (auto simp: buf_inv_def writeableBytes_def)
  then show "buf_inv ?b" using assms(1) by (simp add: buf_inv_def)
  have "seg (put_at (buffer b) (writeIdx b) data) (readIdx b) (writeIdx b + length data) =
        seg (put_at (buffer b) (writeIdx b) data) (readIdx b) (writeIdx b) @
        seg (put_at (buffer b) (writeIdx b) data) (writeIdx b) (writeIdx b + length data)"
    using assms(1) by (intro seg_append) (simp_all add: buf_inv_def)
  then show "content ?b = content b @ data"
    using fits assms(1)
    by (simp add: content_def seg_put_at_here seg_put_at_before buf_inv_def)
qed

lemma buf_inv_append [inv_rules]: "buf_inv b \<Longrightarrow> buf_inv (append_data data b)"
  using write_at_end(1) [of "ensureWriteableBytes (length data) b" data]
  by (simp add: append_data_def Let_def ensureWriteableBytes_ok)

lemma content_append: "buf_inv b \<Longrightarrow> content (append_data data b) = content b @ data"
  using write_at_end(2) [of "ensureWriteableBytes (length data) b" data]
  by (simp add: append_data_def Let_def ensureWriteableBytes_ok)


subsection \<open>Reading operations\<close>

lemma retieveAsString_ok:
  assumes "buf_inv b" and "len \<le> readableBytes b"
  shows "retieveAsString len b = Inr (take len (content b), retrieve len b)"
proof -
  have "readIdx b + len \<le> writeIdx b" and "writeIdx b \<le> length (buffer b)"
    using assms by (auto simp: buf_inv_def readableBytes_def)
  then show ?thesis
    by (simp add: retieveAsString_def peek_def content_def take_seg)
qed

lemma retrieveAllAsString_ok:
  assumes "buf_inv b"
  shows "retrieveAllAsString b = Inr (content b, retrieveAll b)"
  using retieveAsString_ok [OF assms, of "readableBytes b"] length_content [OF assms]
  by (simp add: retrieveAllAsString_def retrieve_def)

lemma findCRLF_eq:
  assumes "buf_inv b"
  shows "findCRLF b = map_option (\<lambda>(l, r). readIdx b + length l) (split_crlf (content b))"
proof (cases "split_crlf (content b)")
  case None
  with assms show ?thesis
    by (simp add: findCRLF_def peek_def beginwrite_def content_def std_search_CRLF buf_inv_def)
next
  case (Some lr)
  obtain l r where lr: "lr = (l, r)" by (cases lr)
  have "readIdx b + length l + 2 \<le> writeIdx b"
    using Some assms by (intro split_crlf_seg(3)) (auto simp: lr content_def buf_inv_def)
  with Some lr assms show ?thesis
    by (simp add: findCRLF_def peek_def beginwrite_def content_def std_search_CRLF buf_inv_def)
qed

text \<open>The narrowing to \<open>int\<close> is harmless as long as the vector is below 2 GiB.\<close>

lemma retrieveUntilIdx_ok:
  assumes "buf_inv b" and "readIdx b \<le> i" and "i \<le> writeIdx b" and "length (buffer b) < 2 ^ 31"
  shows "retrieveUntilIdx i b = Inr (b\<lparr>readIdx := i\<rparr>)"
proof -
  have "i < 2 ^ 31" using assms by (simp add: buf_inv_def)
  then have "c_int (int i - int (readIdx b)) = int i - int (readIdx b)"
    using assms(2) by (intro c_int_id) simp_all
  moreover have "to_size (int i) = i" using \<open>i < 2 ^ 31\<close> by (simp add: to_size_def)
  ultimately show ?thesis using assms(3) by (simp add: retrieveUntilIdx_def peek_def beginwrite_def)
qed

lemma advance_readIdx:
  assumes "buf_inv b" and "readIdx b \<le> i" and "i \<le> writeIdx b"
  shows "buf_inv (b\<lparr>readIdx := i\<rparr>)"
    and "content (b\<lparr>readIdx := i\<rparr>) = drop (i - readIdx b) (content b)"
  using assms by (simp_all add: buf_inv_def content_def drop_seg)

lemma writeFd_content: "buf_inv b \<Longrightarrow> writeFd write b = write (content b)"
  by (simp add: writeFd_def content_def peek_def readableBytes_def buf_inv_def)

subsection \<open>Reading from a file descriptor\<close>

lemma readFd_success:
  assumes inv: "buf_inv b" and rv: "readv (readFd_capacity b) = (int (length data), data)"
    and cap: "length data \<le> readFd_capacity b" and small: "length data < 2 ^ 64"
  shows "\<exists>b'. readFd readv b = Inr b' \<and> buf_inv b' \<and> content b' = content b @ data"
proof -
  let ?w = "writeableBytes b"
  let ?b1 = "b\<lparr>buffer := put_at (buffer b) (writeIdx b) (take ?w data)\<rparr>"
  have n: "to_size (int (length data)) = length data" using small by (simp add: to_size_def)
  note direct = write_at_end [OF inv, of "take ?w data"]
  show ?thesis
  proof (cases "length data \<le> ?w")
    case True
    then show ?thesis using direct n rv by (simp add: readFd_def)
  next
    case False
    let ?rest = "drop ?w data"
    let ?full = "?b1\<lparr>writeIdx := length (buffer ?b1)\<rparr>"
    have w: "writeIdx b + length (take ?w data) = length (buffer b)"
      using False inv by (simp add: writeableBytes_def buf_inv_def)
    have len: "length (buffer ?b1) = length (buffer b)" using w by simp
    have full: "buf_inv ?full" "content ?full = content b @ take ?w data"
      using direct w len False by (simp_all add: min_def)
    have "length ?rest \<le> extrabuf_size"
      using False cap by (simp add: readFd_capacity_def split: if_splits)
    moreover have "take (length data - ?w) (put_at (replicate extrabuf_size (CHR 0x00)) 0 ?rest) = ?rest"
      by (simp add: put_at_def)
    ultimately have "readFd readv b = Inr (append_data ?rest ?full)"
      using False n rv by (simp add: readFd_def Let_def)
    then show ?thesis
      using buf_inv_append [OF full(1)] content_append [OF full(1)] full(2) by simp
  qed
qed

lemma readFd_error:
  assumes "length (buffer b) < 2 ^ 63" and "readv (readFd_capacity b) = (- 1, data)"
  shows "readFd readv b = Inl OutOfBounds"
proof -
  have "writeableBytes b < 2 ^ 63" using assms(1) by (simp add: writeableBytes_def)
  then show ?thesis using assms(2)
    by (simp add: readFd_def Let_def to_size_minus_one extrabuf_size_def)
qed

subsection \<open>How the vector grows\<close>

lemma append_capacity:
  assumes "buf_inv b"
  shows "length (buffer (append_data data b)) =
     (if kcheapPrepend + readableBytes b + length data \<le> length (buffer b)
      then length (buffer b) else writeIdx b + length data)"
proof -
  let ?n = "length data"
  let ?e = "ensureWriteableBytes ?n b"
  have "writeIdx ?e + ?n \<le> length (buffer ?e)"
    using ensureWriteableBytes_ok [OF assms, of ?n] by (auto simp: writeableBytes_def buf_inv_def)
  then have "length (buffer (append_data data b)) = length (buffer ?e)"
    by (simp add: append_data_def Let_def)
  moreover have "kcheapPrepend + length (seg (buffer b) (readIdx b) (writeIdx b)) \<le> length (buffer b)"
    using assms by (auto simp: buf_inv_def length_seg)
  ultimately show ?thesis using assms
    by (auto simp: ensureWriteableBytes_def makeSpace_def Let_def buf_defs buf_inv_def)
qed

subsection \<open>The contract: a first-in first-out byte queue\<close>

text \<open>
  A client of a byte queue appends strings and reads prefixes. \<open>queue_run\<close> performs a sequence of
  such steps and collects what was read; \<open>Take n\<close> asks for at most the bytes there are.
\<close>

datatype queue_op = Put bytes | Take nat

fun puts :: "queue_op list \<Rightarrow> bytes" where
  "puts [] = []"
| "puts (Put d # ops) = d @ puts ops"
| "puts (Take n # ops) = puts ops"

fun queue_run ::
  "(bytes \<Rightarrow> 'q \<Rightarrow> 'q) \<Rightarrow> (nat \<Rightarrow> 'q \<Rightarrow> fault + (bytes \<times> 'q)) \<Rightarrow> ('q \<Rightarrow> nat) \<Rightarrow>
   queue_op list \<Rightarrow> 'q \<Rightarrow> fault + (bytes \<times> 'q)" where
  "queue_run enq get sz [] q = Inr ([], q)"
| "queue_run enq get sz (Put d # ops) q = queue_run enq get sz ops (enq d q)"
| "queue_run enq get sz (Take n # ops) q =
     (case get (min n (sz q)) q of
        Inl f \<Rightarrow> Inl f
      | Inr (out, q1) \<Rightarrow>
          (case queue_run enq get sz ops q1 of
             Inl f \<Rightarrow> Inl f
           | Inr (out', q') \<Rightarrow> Inr (out @ out', q')))"

locale byte_queue =
  fixes invar :: "'q \<Rightarrow> bool"
    and bytes_of :: "'q \<Rightarrow> bytes"
    and size_of :: "'q \<Rightarrow> nat"
    and enq :: "bytes \<Rightarrow> 'q \<Rightarrow> 'q"
    and deq :: "nat \<Rightarrow> 'q \<Rightarrow> 'q"
    and get :: "nat \<Rightarrow> 'q \<Rightarrow> fault + (bytes \<times> 'q)"
  assumes invar_enq: "invar q \<Longrightarrow> invar (enq d q)"
    and invar_deq: "invar q \<Longrightarrow> invar (deq n q)"
    and size_of: "invar q \<Longrightarrow> size_of q = length (bytes_of q)"
    and bytes_enq: "invar q \<Longrightarrow> bytes_of (enq d q) = bytes_of q @ d"
    and bytes_deq: "invar q \<Longrightarrow> bytes_of (deq n q) = drop n (bytes_of q)"
    and get_ok: "invar q \<Longrightarrow> n \<le> size_of q \<Longrightarrow> get n q = Inr (take n (bytes_of q), deq n q)"
begin

lemmas queue_laws = invar_enq invar_deq size_of bytes_enq bytes_deq

lemma run_fifo:
  "invar q \<Longrightarrow>
     \<exists>out q'. queue_run enq get size_of ops q = Inr (out, q') \<and> invar q' \<and>
       out @ bytes_of q' = bytes_of q @ puts ops"
proof (induction ops arbitrary: q)
  case Nil
  then show ?case by simp
next
  case (Cons op ops)
  show ?case
  proof (cases op)
    case (Put d)
    with Cons.IH [of "enq d q"] Cons.prems show ?thesis by (auto simp: queue_laws)
  next
    case (Take n)
    let ?m = "min n (size_of q)"
    obtain out q' where "queue_run enq get size_of ops (deq ?m q) = Inr (out, q')" and "invar q'"
      and "out @ bytes_of q' = drop ?m (bytes_of q) @ puts ops"
      using Cons.IH [of "deq ?m q"] Cons.prems by (auto simp: queue_laws)
    moreover have "get ?m q = Inr (take ?m (bytes_of q), deq ?m q)"
      using Cons.prems by (intro get_ok) simp_all
    ultimately show ?thesis using Take by auto
  qed
qed

lemma deq_all: "invar q \<Longrightarrow> bytes_of (deq (size_of q) q) = []"
  by (simp add: queue_laws)

end

interpretation netbuf: byte_queue buf_inv content readableBytes append_data retrieve retieveAsString
  by unfold_locales
    (simp_all add: inv_rules length_content content_append content_retrieve retieveAsString_ok)


subsection \<open>Properties\<close>


text \<open>
  \<open>append\<close> keeps the unread bytes and puts the new ones behind them, and the vector is enlarged
  only when the free space in front of and behind the content together is too small; then it
  ends exactly behind the new bytes.
\<close>

theorem append_content_and_capacity:
  assumes "buf_inv b"
  shows "content (append_data data b) = content b @ data \<and>
     length (buffer (append_data data b)) =
       (if kcheapPrepend + readableBytes b + length data \<le> length (buffer b)
        then length (buffer b) else writeIdx b + length data)"
  using assms by (simp add: content_append append_capacity)

lemma append_content_and_capacity_witness:
  "content (append_data ''hello'' (append_data ''ab'' (new_Buffer 4))) = ''ab'' @ ''hello'' \<and>
   length (buffer (append_data ''hello'' (append_data ''ab'' (new_Buffer 4)))) = 15"
proof -
  have inv: "buf_inv (append_data ''ab'' (new_Buffer 4))" by (simp add: inv_rules)
  have b: "readableBytes (append_data ''ab'' (new_Buffer 4)) = 2"
    "length (buffer (append_data ''ab'' (new_Buffer 4))) = 12"
    "writeIdx (append_data ''ab'' (new_Buffer 4)) = 10"
    "content (append_data ''ab'' (new_Buffer 4)) = ''ab''"
    by code_simp+
  from append_content_and_capacity [OF inv, of "''hello''"] b show ?thesis
    by (simp add: kcheapPrepend_def)
qed

text \<open>
  \<open>findCRLF\<close> finds the first CR LF of the unread bytes if there is one, and a following
  \<open>retrieveUntilIdx\<close> two bytes further leaves exactly the bytes behind that line. The bound is the
  one that the \<open>static_cast<int>\<close> of the code needs.
\<close>

theorem take_line:
  assumes "buf_inv b" and "length (buffer b) < 2 ^ 31"
  shows "case findCRLF b of
      None \<Rightarrow> \<forall>l r. content b \<noteq> l @ CRLF @ r
    | Some i \<Rightarrow> \<exists>l r b'. content b = l @ CRLF @ r \<and> seg (buffer b) (peek b) i = l \<and>
        (\<forall>l' r'. content b = l' @ CRLF @ r' \<longrightarrow> length l \<le> length l') \<and>
        retrieveUntilIdx (i + 2) b = Inr b' \<and> buf_inv b' \<and> content b' = r"
proof (cases "split_crlf (content b)")
  case None
  then show ?thesis using split_crlf_None by (simp add: findCRLF_eq assms(1))
next
  case (Some lr)
  obtain l r where lr: "lr = (l, r)" by (cases lr)
  let ?i = "readIdx b + length l"
  have split: "split_crlf (seg (buffer b) (readIdx b) (writeIdx b)) = Some (l, r)"
    using Some lr by (simp add: content_def)
  note s = split_crlf_seg [OF split buf_inv_bounds [OF assms(1)]]
  have "retrieveUntilIdx (?i + 2) b = Inr (b\<lparr>readIdx := ?i + 2\<rparr>)"
    using s(3) assms by (intro retrieveUntilIdx_ok) simp_all
  moreover have "buf_inv (b\<lparr>readIdx := ?i + 2\<rparr>)" and "content (b\<lparr>readIdx := ?i + 2\<rparr>) = r"
    using advance_readIdx [OF assms(1), of "?i + 2"] s by (simp_all add: content_def drop_seg add.assoc)
  moreover have "content b = l @ CRLF @ r" using Some lr by (simp add: split_crlf_Some)
  moreover have "seg (buffer b) (peek b) ?i = l" using s(1) by (simp add: peek_def)
  moreover have "length l \<le> length l'" if "content b = l' @ CRLF @ r'" for l' r'
    using Some lr that by (simp add: split_crlf_first)
  ultimately show ?thesis using Some lr by (simp add: findCRLF_eq assms(1)) blast
qed

lemma take_line_witness:
  "\<exists>b'. retrieveUntilIdx 11 (append_data (''a'' @ CRLF @ ''b'') (new_Buffer 4)) = Inr b' \<and>
     content b' = ''b''"
proof -
  let ?b = "append_data (''a'' @ CRLF @ ''b'') (new_Buffer 4)"
  have "buf_inv ?b" by (simp add: inv_rules)
  moreover have "length (buffer ?b) = 12" by code_simp
  then have "length (buffer ?b) < 2 ^ 31" by simp
  ultimately have "case findCRLF ?b of
      None \<Rightarrow> \<forall>l r. content ?b \<noteq> l @ CRLF @ r
    | Some i \<Rightarrow> \<exists>l r b'. content ?b = l @ CRLF @ r \<and> seg (buffer ?b) (peek ?b) i = l \<and>
        (\<forall>l' r'. content ?b = l' @ CRLF @ r' \<longrightarrow> length l \<le> length l') \<and>
        retrieveUntilIdx (i + 2) ?b = Inr b' \<and> buf_inv b' \<and> content b' = r"
    by (rule take_line)
  moreover have "findCRLF ?b = Some 9" by code_simp
  moreover have "seg (buffer ?b) (peek ?b) 9 = ''a''" by code_simp
  moreover have "content ?b = ''a'' @ CRLF @ ''b''" by code_simp
  ultimately show ?thesis by auto
qed

text \<open>
  A successful \<open>readFd\<close> appends exactly the bytes that \<open>readv\<close> delivered, in order, whether they
  fitted into the vector or spilled into the 65535-byte array on the stack.
\<close>

theorem readFd_appends:
  assumes "buf_inv b" and "readv (readFd_capacity b) = (int (length data), data)"
    and "length data \<le> readFd_capacity b" and "length data < 2 ^ 64"
  shows "\<exists>b'. readFd readv b = Inr b' \<and> buf_inv b' \<and> content b' = content b @ data"
  using assms by (rule readFd_success)

lemma readFd_appends_witness:
  "\<exists>b'. readFd (\<lambda>_. (6, ''abcdef'')) (new_Buffer 4) = Inr b' \<and> content b' = ''abcdef''"
proof -
  have "readFd_capacity (new_Buffer 4) = 65539"
    by (simp add: readFd_capacity_def writeableBytes_def new_Buffer_def extrabuf_size_def)
  then show ?thesis
    using readFd_appends [of "new_Buffer 4" "\<lambda>_. (6, ''abcdef'')" "''abcdef''"] by auto
qed

text \<open>
  When \<open>readv\<close> fails, the code does not take its error branch: \<open>n\<close> is a \<open>size_t\<close>, so the test
  \<open>n < 0\<close> never holds, and the append of \<open>2 ^ 64 - 1\<close> bytes reads far outside the stack array.
\<close>

theorem readFd_error_overruns:
  assumes "length (buffer b) < 2 ^ 63" and "readv (readFd_capacity b) = (- 1, data)"
  shows "readFd readv b = Inl OutOfBounds"
  using assms by (rule readFd_error)

lemma readFd_error_overruns_witness: "readFd (\<lambda>_. (- 1, [])) (new_Buffer 4) = Inl OutOfBounds"
  by (rule readFd_error_overruns [of _ _ "[]"]) (simp_all add: new_Buffer_def kcheapPrepend_def)

end
