(* ===== verification/Base_Time.thy ===== *)
theory Base_Time
  imports Complex_Main Prelude
begin

text \<open>
  \<^verbatim>\<open>Base/TimeStamp.h\<close>, \<^verbatim>\<open>Base/TimeStamp.cc\<close> and the deadline computation of
  \<^verbatim>\<open>Base/Condition.h\<close>.

  A time stamp is a count of microseconds; the count is an integer, exact as long as it stays
  inside \<open>int64_t\<close> (292000 years around 1970). A \<open>double\<close> is a real number and
  \<open>static_cast<int64_t>\<close> truncates it towards zero. \<open>gettimeofday\<close> and \<open>localtime_r\<close> are arguments: the seconds and
  microseconds they report, the broken-down time they compute.
\<close>

datatype TimeStamp = TimeStamp (microSecond: int)

definition operator_less :: "TimeStamp \<Rightarrow> TimeStamp \<Rightarrow> bool" where
  "operator_less a b \<longleftrightarrow> microSecond a < microSecond b"

definition operator_equal :: "TimeStamp \<Rightarrow> TimeStamp \<Rightarrow> bool" where
  "operator_equal a b \<longleftrightarrow> microSecond a = microSecond b"

text \<open>Time stamps are linearly ordered by \<open>operator<\<close>, and \<open>operator==\<close> is equality.\<close>

instantiation TimeStamp :: linorder
begin

definition less_TimeStamp :: "TimeStamp \<Rightarrow> TimeStamp \<Rightarrow> bool" where
  "less_TimeStamp a b \<longleftrightarrow> operator_less a b"

definition less_eq_TimeStamp :: "TimeStamp \<Rightarrow> TimeStamp \<Rightarrow> bool" where
  "less_eq_TimeStamp a b \<longleftrightarrow> \<not> operator_less b a"

instance
  by standard (auto simp: less_TimeStamp_def less_eq_TimeStamp_def operator_less_def TimeStamp.expand)

end

lemma TimeStamp_order:
  "a < b \<longleftrightarrow> microSecond a < microSecond b" "a \<le> b \<longleftrightarrow> microSecond a \<le> microSecond b"
  by (auto simp: less_TimeStamp_def less_eq_TimeStamp_def operator_less_def)

lemma operator_equal [simp]: "operator_equal a b \<longleftrightarrow> a = b"
  by (auto simp: operator_equal_def intro: TimeStamp.expand)

definition kMicroSecond2Second :: int where
  "kMicroSecond2Second = 1000 * 1000"

text \<open>\<open>TimeStamp::now\<close>, from what \<open>gettimeofday\<close> reports.\<close>

definition TimeStamp_now :: "int \<Rightarrow> int \<Rightarrow> TimeStamp" where
  "TimeStamp_now tv_sec tv_usec = TimeStamp (tv_sec * kMicroSecond2Second + tv_usec)"

definition trunc :: "real \<Rightarrow> int" where
  "trunc x = (if 0 \<le> x then \<lfloor>x\<rfloor> else \<lceil>x\<rceil>)"

definition AddTime :: "TimeStamp \<Rightarrow> real \<Rightarrow> TimeStamp" where
  "AddTime timestamp add_seconds =
     (let addSeconds = trunc add_seconds * kMicroSecond2Second
      in TimeStamp (microSecond timestamp + addSeconds))"

record tm =
  tm_year :: int
  tm_mon :: int
  tm_mday :: int
  tm_hour :: int
  tm_min :: int
  tm_sec :: int

text \<open>\<open>%0wd\<close> and \<open>%wd\<close>; an \<open>int\<close> argument. The sign goes before the zeros.\<close>

definition fmt_zero :: "nat \<Rightarrow> int \<Rightarrow> string" where
  "fmt_zero w i =
     (if i < 0 then CHR ''-'' # pad_left (CHR ''0'') (w - 1) (dec (nat (- i)))
      else pad_left (CHR ''0'') w (dec (nat i)))"

definition fmt_space :: "nat \<Rightarrow> int \<Rightarrow> string" where
  "fmt_space w i = pad_left (CHR '' '') w (fmt_int i)"

definition toString :: "(int \<Rightarrow> tm) \<Rightarrow> TimeStamp \<Rightarrow> string" where
  "toString localtime t =
     (let nowSeconds = c_div (microSecond t) kMicroSecond2Second;
          time = localtime nowSeconds;
          nowMicroSecond = c_mod (microSecond t) kMicroSecond2Second
      in take 127 (fmt_space 4 (1900 + tm_year time) @ fmt_zero 2 (tm_mon time + 1) @
           fmt_zero 2 (tm_mday time) @ '' '' @ fmt_zero 2 (tm_hour time) @ '':'' @
           fmt_zero 2 (tm_min time) @ '':'' @ fmt_zero 2 (tm_sec time) @ ''.'' @
           fmt_zero 6 nowMicroSecond))"

subsection \<open>Adding time\<close>

lemma trunc_of_nat [simp]: "trunc (real n) = int n"
  by (simp add: trunc_def)

lemma trunc_of_int [simp]: "trunc (real_of_int i) = i"
  by (simp add: trunc_def)

lemma trunc_numeral [simp]: "trunc (numeral n) = numeral n"
  by (simp add: trunc_def)

lemma trunc_nonneg: "0 \<le> x \<Longrightarrow> 0 \<le> trunc x \<and> real_of_int (trunc x) \<le> x \<and> x < real_of_int (trunc x) + 1"
  by (simp add: trunc_def)

lemma trunc_fraction: "0 \<le> x \<Longrightarrow> x < 1 \<Longrightarrow> trunc x = 0"
  by (simp add: trunc_def floor_eq_iff)

lemma trunc_mono: "x \<le> y \<Longrightarrow> trunc x \<le> trunc y"
  by (auto simp: trunc_def floor_mono ceiling_mono)
     (metis ceiling_le_zero floor_mono floor_zero linorder_le_cases order_trans)

lemma AddTime_micro: "microSecond (AddTime t s) = microSecond t + trunc s * 1000000"
  by (simp add: AddTime_def kMicroSecond2Second_def)

lemma AddTime_seconds: "AddTime (AddTime t (real a)) (real b) = AddTime t (real (a + b))"
proof -
  have "trunc (real (a + b)) = int a + int b" using trunc_of_nat [of "a + b"] by simp
  then show ?thesis by (intro TimeStamp.expand) (simp add: AddTime_micro algebra_simps)
qed

lemma AddTime_ge: "0 \<le> s \<Longrightarrow> t \<le> AddTime t s"
  using trunc_nonneg [of s] by (simp add: TimeStamp_order AddTime_micro)

text \<open>
  The result is short of the requested time by less than one second, and by exactly the fraction of
  a second that was asked for.
\<close>

lemma AddTime_error:
  assumes "0 \<le> s"
  shows "real_of_int (microSecond (AddTime t s)) \<le> real_of_int (microSecond t) + s * 1000000"
    and "real_of_int (microSecond t) + s * 1000000 < real_of_int (microSecond (AddTime t s)) + 1000000"
  using trunc_nonneg [OF assms] by (simp_all add: AddTime_micro)

subsection \<open>The deadline of a timed wait\<close>

text \<open>\<open>Condition::waitForSeconds\<close>: the \<open>timespec\<close> given to \<open>pthread_cond_timedwait\<close>.\<close>

record timespec =
  tv_sec :: int
  tv_nsec :: int

definition kNanoSeconds :: int where
  "kNanoSeconds = 1000000000"

definition wait_deadline :: "real \<Rightarrow> timespec \<Rightarrow> timespec" where
  "wait_deadline seconds abstime =
     (let nanoseconds = trunc (seconds * real_of_int kNanoSeconds);
          sec = tv_sec abstime + c_div (tv_nsec abstime + nanoseconds) kNanoSeconds;
          nsec = c_mod (tv_nsec abstime + nanoseconds) kNanoSeconds
      in abstime\<lparr>tv_sec := sec, tv_nsec := nsec\<rparr>)"

definition nanos :: "timespec \<Rightarrow> int" where
  "nanos ts = tv_sec ts * kNanoSeconds + tv_nsec ts"

lemma wait_deadline_ok:
  assumes "0 \<le> seconds" and "0 \<le> tv_nsec ts"
  shows "nanos (wait_deadline seconds ts) = nanos ts + trunc (seconds * 1000000000)"
    and "0 \<le> tv_nsec (wait_deadline seconds ts) \<and> tv_nsec (wait_deadline seconds ts) < kNanoSeconds"
proof -
  have "0 \<le> tv_nsec ts + trunc (seconds * 1000000000)"
    using assms trunc_nonneg [of "seconds * 1000000000"] by simp
  then show "nanos (wait_deadline seconds ts) = nanos ts + trunc (seconds * 1000000000)"
    and "0 \<le> tv_nsec (wait_deadline seconds ts) \<and> tv_nsec (wait_deadline seconds ts) < kNanoSeconds"
    by (simp_all add: wait_deadline_def Let_def nanos_def kNanoSeconds_def c_div_nonneg c_mod_nonneg)
qed

subsection \<open>The printed form\<close>

lemma length_pad_left [simp]: "length s \<le> w \<Longrightarrow> length (pad_left c w s) = w"
  by (simp add: pad_left_def)

lemma dec_value_zeros: "dec_value (replicate n (CHR ''0'') @ s) = dec_value s"
proof -
  have "foldl (\<lambda>a c. a * 10 + digit_value c) 0 (replicate n (CHR ''0'')) = 0"
    by (induction n) (simp_all add: digit_value_def)
  then show ?thesis by (simp add: dec_value_def)
qed

lemma fmt_zero_ok:
  assumes "0 \<le> i" and "i < 10 ^ w" and "0 < w"
  shows "length (fmt_zero w i) = w" and "dec_value (fmt_zero w i) = nat i"
proof -
  have "nat i < 10 ^ w" using assms by (simp add: nat_less_iff)
  then have "length (dec (nat i)) \<le> w" using length_dec assms(3) by simp
  then show "length (fmt_zero w i) = w" using assms(1) by (simp add: fmt_zero_def)
  show "dec_value (fmt_zero w i) = nat i"
    using assms(1) by (simp add: fmt_zero_def pad_left_def dec_value_zeros)
qed

lemma length_fmt_space: "0 \<le> i \<Longrightarrow> i < 10 ^ w \<Longrightarrow> 0 < w \<Longrightarrow> length (fmt_space w i) = w"
  using length_dec [of "nat i" w] by (simp add: fmt_space_def fmt_int_def nat_less_iff)

text \<open>What \<open>localtime_r\<close> documents about the fields it computes, for the years 0 to 9999.\<close>

definition tm_ok :: "tm \<Rightarrow> bool" where
  "tm_ok t \<longleftrightarrow> - 1900 \<le> tm_year t \<and> tm_year t < 8100 \<and> 0 \<le> tm_mon t \<and> tm_mon t < 12 \<and>
     1 \<le> tm_mday t \<and> tm_mday t \<le> 31 \<and> 0 \<le> tm_hour t \<and> tm_hour t < 24 \<and>
     0 \<le> tm_min t \<and> tm_min t < 60 \<and> 0 \<le> tm_sec t \<and> tm_sec t \<le> 60"

subsection \<open>Properties\<close>

text \<open>
  \<open>AddTime\<close> adds the whole seconds of its argument only. The result is never later than asked
  for, it is early by less than one second, and by nothing at all exactly when the argument is a
  whole number of seconds.
\<close>

theorem AddTime_drops_fraction:
  assumes "0 \<le> s"
  shows "microSecond (AddTime t s) = microSecond t + \<lfloor>s\<rfloor> * 1000000 \<and>
    real_of_int (microSecond (AddTime t s)) \<le> real_of_int (microSecond t) + s * 1000000 \<and>
    real_of_int (microSecond t) + s * 1000000 < real_of_int (microSecond (AddTime t s)) + 1000000 \<and>
    (real_of_int (microSecond (AddTime t s)) = real_of_int (microSecond t) + s * 1000000 \<longleftrightarrow>
       s = real_of_int \<lfloor>s\<rfloor>)"
  using AddTime_error [OF assms, of t] assms by (auto simp: AddTime_micro trunc_def)

lemma AddTime_drops_fraction_witness: "microSecond (AddTime (TimeStamp 7) (1/2)) = 7"
  using AddTime_drops_fraction [of "1/2" "TimeStamp 7"] by simp

text \<open>
  \<open>waitForSeconds\<close> waits until exactly the requested number of nanoseconds (rounded down) after
  the time it read, and the deadline it passes on has a nanosecond field below one second, as
  \<open>pthread_cond_timedwait\<close> requires.
\<close>

theorem wait_deadline_exact:
  assumes "0 \<le> seconds" and "0 \<le> tv_nsec ts"
  shows "nanos (wait_deadline seconds ts) = nanos ts + \<lfloor>seconds * 1000000000\<rfloor> \<and>
    0 \<le> tv_nsec (wait_deadline seconds ts) \<and> tv_nsec (wait_deadline seconds ts) < kNanoSeconds"
  using wait_deadline_ok [OF assms] assms(1) by (simp add: trunc_def)

lemma wait_deadline_exact_witness:
  "nanos (wait_deadline (3/2) \<lparr>tv_sec = 1, tv_nsec = 700000000\<rparr>) = 3200000000"
  using wait_deadline_exact [of "3/2" "\<lparr>tv_sec = 1, tv_nsec = 700000000\<rparr>"]
  by (simp add: nanos_def kNanoSeconds_def)

text \<open>
  For the years 0 to 9999 \<open>toString\<close> prints exactly 24 characters, so \<open>snprintf\<close> never truncates,
  and the last six are the microseconds of the time stamp.
\<close>

theorem toString_layout:
  assumes "tm_ok (localtime (microSecond t div 1000000))" and "0 \<le> microSecond t"
  shows "length (toString localtime t) = 24 \<and>
    dec_value (drop 18 (toString localtime t)) = nat (microSecond t mod 1000000)"
proof -
  let ?tm = "localtime (microSecond t div 1000000)"
  let ?us = "microSecond t mod 1000000"
  have us: "0 \<le> ?us" "?us < 10 ^ 6" by simp_all
  have second: "kMicroSecond2Second = 1000000" by (simp add: kMicroSecond2Second_def)
  have y: "length (fmt_space 4 (1900 + tm_year ?tm)) = 4"
    using assms(1) by (intro length_fmt_space) (simp_all add: tm_ok_def)
  have two: "length (fmt_zero 2 i) = 2" if "0 \<le> i" "i < 100" for i
    using that by (intro fmt_zero_ok(1)) simp_all
  define front where "front = fmt_space 4 (1900 + tm_year ?tm) @ fmt_zero 2 (tm_mon ?tm + 1) @
    fmt_zero 2 (tm_mday ?tm) @ '' '' @ fmt_zero 2 (tm_hour ?tm) @ '':'' @
    fmt_zero 2 (tm_min ?tm) @ '':'' @ fmt_zero 2 (tm_sec ?tm) @ ''.''"
  define micros where "micros = fmt_zero 6 ?us"
  have len: "length front = 18" using assms(1) y by (simp add: front_def two tm_ok_def)
  have micros: "length micros = 6" "dec_value micros = nat ?us"
    unfolding micros_def using us by (intro fmt_zero_ok; simp)+
  have "toString localtime t = take 127 (front @ micros)"
    unfolding toString_def Let_def second front_def micros_def
    using assms(2) by (simp only: c_div_nonneg c_mod_nonneg zero_less_numeral append_assoc)
  then have "toString localtime t = front @ micros" using len micros(1) by simp
  then show ?thesis using len micros by simp
qed

lemma toString_layout_witness:
  "dec_value (drop 18 (toString (\<lambda>_. \<lparr>tm_year = 123, tm_mon = 0, tm_mday = 2, tm_hour = 3,
     tm_min = 4, tm_sec = 5\<rparr>) (TimeStamp 1672628645000042))) = 42"
  using toString_layout [of "\<lambda>_. \<lparr>tm_year = 123, tm_mon = 0, tm_mday = 2, tm_hour = 3,
     tm_min = 4, tm_sec = 5\<rparr>" "TimeStamp 1672628645000042"]
  by (simp add: tm_ok_def)

end
