(* ===== verification/Net_Channel.thy ===== *)
theory Net_Channel
  imports Prelude
begin

text \<open>
  \<^verbatim>\<open>Net/Channel.h\<close>, \<^verbatim>\<open>Net/Channel.cc\<close>: the interest of one file descriptor and the dispatch
  of its events to the callbacks.

  \<open>this\<close> is the address of the object (the \<open>Channel*\<close> that the poller stores), an empty
  \<open>std::function\<close> is \<open>None\<close>, and the event masks are 32-bit words. \<open>handleEvent\<close> returns the
  callbacks it invokes, in order. The operations that end in \<open>Channel::update\<close> live with the
  poller in theory Net_Epoller.
\<close>

definition EPOLLIN :: "32 word" where
  "EPOLLIN = 1"

definition EPOLLPRI :: "32 word" where
  "EPOLLPRI = 2"

definition EPOLLOUT :: "32 word" where
  "EPOLLOUT = 4"

definition EPOLLERR :: "32 word" where
  "EPOLLERR = 8"

definition EPOLLHUP :: "32 word" where
  "EPOLLHUP = 16"

definition kNoneEvent :: "32 word" where
  "kNoneEvent = 0"

definition kReadEvent :: "32 word" where
  "kReadEvent = EPOLLIN OR EPOLLPRI"

definition kWriteEvent :: "32 word" where
  "kWriteEvent = EPOLLOUT"

text \<open>The \<open>index_\<close> of a channel: its state in the poller.\<close>

definition kNew :: int where
  "kNew = - 1"

definition kAdded :: int where
  "kAdded = 1"

definition kDeleted :: int where
  "kDeleted = 2"

record 'cb Channel =
  this :: nat
  fd :: int
  events :: "32 word"
  revents :: "32 word"
  index :: int
  tied :: bool
  readEventCallBack :: "'cb option"
  writeEventCallBack :: "'cb option"
  errorEventCallBack :: "'cb option"
  closeEventCallBack :: "'cb option"

text \<open>The constructor \<open>Channel(loop, fd)\<close> of an object at address \<open>p\<close>.\<close>

definition new_Channel :: "nat \<Rightarrow> int \<Rightarrow> 'cb Channel" where
  "new_Channel p fd0 =
     \<lparr>this = p, fd = fd0, events = 0, revents = 0, index = - 1, tied = False,
      readEventCallBack = None, writeEventCallBack = None,
      errorEventCallBack = None, closeEventCallBack = None\<rparr>"

definition Init :: "int \<Rightarrow> 'cb Channel \<Rightarrow> 'cb Channel" where
  "Init fd0 c = c\<lparr>fd := fd0, events := 0, revents := 0, index := - 1\<rparr>"

definition setReadCallBack :: "'cb \<Rightarrow> 'cb Channel \<Rightarrow> 'cb Channel" where
  "setReadCallBack cb c = c\<lparr>readEventCallBack := Some cb\<rparr>"

definition setWriteCallBack :: "'cb \<Rightarrow> 'cb Channel \<Rightarrow> 'cb Channel" where
  "setWriteCallBack cb c = c\<lparr>writeEventCallBack := Some cb\<rparr>"

definition setErrorCallBack :: "'cb \<Rightarrow> 'cb Channel \<Rightarrow> 'cb Channel" where
  "setErrorCallBack cb c = c\<lparr>errorEventCallBack := Some cb\<rparr>"

definition setCloseCallBack :: "'cb \<Rightarrow> 'cb Channel \<Rightarrow> 'cb Channel" where
  "setCloseCallBack cb c = c\<lparr>closeEventCallBack := Some cb\<rparr>"

definition isNonEvent :: "'cb Channel \<Rightarrow> bool" where
  "isNonEvent c \<longleftrightarrow> events c = kNoneEvent"

definition isWriting :: "'cb Channel \<Rightarrow> bool" where
  "isWriting c \<longleftrightarrow> events c AND kWriteEvent \<noteq> 0"

definition isReading :: "'cb Channel \<Rightarrow> bool" where
  "isReading c \<longleftrightarrow> events c AND kReadEvent \<noteq> 0"

text \<open>One invoked callback; a read callback also gets the receive time.\<close>

datatype ('cb, 't) invocation = Invoke 'cb | InvokeRead 'cb 't

definition handleEvent :: "'t \<Rightarrow> 'cb Channel \<Rightarrow> ('cb, 't) invocation list" where
  "handleEvent receiveTime c =
     (if (revents c AND EPOLLHUP) \<noteq> 0 \<and> \<not> (revents c AND EPOLLIN) \<noteq> 0
      then (case closeEventCallBack c of None \<Rightarrow> [] | Some cb \<Rightarrow> [Invoke cb]) else []) @
     (if (revents c AND (EPOLLIN OR EPOLLPRI)) \<noteq> 0
      then (case readEventCallBack c of None \<Rightarrow> [] | Some cb \<Rightarrow> [InvokeRead cb receiveTime]) else []) @
     (if (revents c AND EPOLLOUT) \<noteq> 0
      then (case writeEventCallBack c of None \<Rightarrow> [] | Some cb \<Rightarrow> [Invoke cb]) else [])"

lemmas epoll_masks = EPOLLIN_def EPOLLPRI_def EPOLLOUT_def EPOLLERR_def EPOLLHUP_def
  kNoneEvent_def kReadEvent_def kWriteEvent_def

subsection \<open>Masks as sets of bits\<close>

lemma isWriting_bit: "isWriting c \<longleftrightarrow> bit (events c) 2"
  using and_exp_eq_0_iff_not_bit [of "events c" 2] by (simp add: isWriting_def epoll_masks)

lemma mask_in_bit: "w AND (EPOLLIN :: 32 word) \<noteq> 0 \<longleftrightarrow> bit w 0"
  using and_exp_eq_0_iff_not_bit [of w 0] by (simp add: epoll_masks)

lemma mask_pri_bit: "w AND (EPOLLPRI :: 32 word) \<noteq> 0 \<longleftrightarrow> bit w 1"
  using and_exp_eq_0_iff_not_bit [of w 1] by (simp add: epoll_masks)

lemma mask_read_bits: "w AND (EPOLLIN OR EPOLLPRI :: 32 word) \<noteq> 0 \<longleftrightarrow> bit w 0 \<or> bit w 1"
  using mask_in_bit [of w] mask_pri_bit [of w]
  by (auto simp: bit.conj_disj_distrib or_eq_0_iff)

lemma isReading_bit: "isReading c \<longleftrightarrow> bit (events c) 0 \<or> bit (events c) 1"
  using mask_read_bits [of "events c"] by (simp add: isReading_def kReadEvent_def)

lemma bit_read_mask: "bit kReadEvent n \<longleftrightarrow> n = 0 \<or> n = 1"
proof -
  have two: "EPOLLPRI = 2 ^ 1" by (simp add: EPOLLPRI_def)
  have "bit EPOLLPRI n \<longleftrightarrow> n = 1" unfolding two bit_exp_iff by auto
  then show ?thesis by (auto simp: kReadEvent_def EPOLLIN_def bit_or_iff bit_1_iff)
qed

lemma bit_write_mask: "bit kWriteEvent n \<longleftrightarrow> n = 2"
proof -
  have four: "kWriteEvent = 2 ^ 2" by (simp add: epoll_masks)
  show ?thesis unfolding four bit_exp_iff by auto
qed

text \<open>What the four interest operations do to the two questions the code asks of the mask.\<close>

lemma interest_bits [simp]:
  "isWriting (c\<lparr>events := events c OR kReadEvent\<rparr>) = isWriting c"
  "isWriting (c\<lparr>events := events c AND NOT kReadEvent\<rparr>) = isWriting c"
  "isWriting (c\<lparr>events := events c OR kWriteEvent\<rparr>)"
  "\<not> isWriting (c\<lparr>events := events c AND NOT kWriteEvent\<rparr>)"
  "\<not> isWriting (c\<lparr>events := kNoneEvent\<rparr>)"
  "isReading (c\<lparr>events := events c OR kReadEvent\<rparr>)"
  "isReading (c\<lparr>events := events c OR kWriteEvent\<rparr>) = isReading c"
  "isReading (c\<lparr>events := events c AND NOT kWriteEvent\<rparr>) = isReading c"
  by (simp_all add: isWriting_bit isReading_bit bit_or_iff bit_and_iff bit_not_iff
      bit_read_mask bit_write_mask kNoneEvent_def)

lemma events_frame [simp]:
  "isWriting (c\<lparr>index := i\<rparr>) = isWriting c" "isReading (c\<lparr>index := i\<rparr>) = isReading c"
  "isNonEvent (c\<lparr>index := i\<rparr>) = isNonEvent c"
  by (simp_all add: isWriting_def isReading_def isNonEvent_def)

lemma read_interest_not_none: "events c OR kReadEvent \<noteq> kNoneEvent"
proof -
  have "bit (events c OR kReadEvent) 0" by (simp add: bit_or_iff bit_read_mask)
  then show ?thesis by (auto simp: kNoneEvent_def)
qed

subsection \<open>Properties\<close>

lemma mask_out_bit: "w AND (EPOLLOUT :: 32 word) \<noteq> 0 \<longleftrightarrow> bit w 2"
  using and_exp_eq_0_iff_not_bit [of w 2] by (simp add: epoll_masks)

lemma mask_hup_bit: "w AND (EPOLLHUP :: 32 word) \<noteq> 0 \<longleftrightarrow> bit w 4"
  using and_exp_eq_0_iff_not_bit [of w 4] by (simp add: epoll_masks)

lemma bit_EPOLLERR: "bit EPOLLERR n \<longleftrightarrow> n = 3"
proof -
  have eight: "EPOLLERR = 2 ^ 3" by (simp add: EPOLLERR_def)
  show ?thesis unfolding eight bit_exp_iff by auto
qed

lemmas mask_bits = mask_in_bit mask_read_bits mask_out_bit mask_hup_bit

lemma handleEvent_bits:
  "handleEvent t c =
     (if bit (revents c) 4 \<and> \<not> bit (revents c) 0 then map Invoke (option_list (closeEventCallBack c)) else []) @
     (if bit (revents c) 0 \<or> bit (revents c) 1
      then map (\<lambda>cb. InvokeRead cb t) (option_list (readEventCallBack c)) else []) @
     (if bit (revents c) 2 then map Invoke (option_list (writeEventCallBack c)) else [])"
  unfolding handleEvent_def mask_bits
  by (auto simp: option_list_def split: option.splits)

text \<open>
  A channel with all four callbacks set runs its close callback when the peer hung up and nothing
  is left to read, then its read callback, then its write callback; but it never runs its error
  callback: the result does not depend on it, and a report of \<open>EPOLLERR\<close> alone is dropped without
  any callback although the channel stays registered.
\<close>

theorem error_callback_is_dead:
  "handleEvent t (setErrorCallBack e c) = handleEvent t c \<and>
   handleEvent t (c\<lparr>revents := EPOLLERR\<rparr>) = [] \<and>
   handleEvent t (setReadCallBack r (setWriteCallBack w (setCloseCallBack x c))) =
     (if bit (revents c) 4 \<and> \<not> bit (revents c) 0 then [Invoke x] else []) @
     (if bit (revents c) 0 \<or> bit (revents c) 1 then [InvokeRead r t] else []) @
     (if bit (revents c) 2 then [Invoke w] else [])"
  by (auto simp: handleEvent_bits setErrorCallBack_def setReadCallBack_def setWriteCallBack_def
      setCloseCallBack_def bit_EPOLLERR option_list_def)

end
