(* ===== verification/Net_Epoller.thy ===== *)
theory Net_Epoller
  imports Net_Channel
begin

text \<open>
  \<^verbatim>\<open>Net/Poller.h\<close>, \<^verbatim>\<open>Net/Poller.cc\<close>, \<^verbatim>\<open>Net/Epoller.h\<close>, \<^verbatim>\<open>Net/Epoller.cc\<close>, and the operations of
  \<^verbatim>\<open>Net/Channel.h\<close> that reach the poller through \<open>Channel::update\<close> and \<open>Channel::remove\<close>.

  The kernel is not modelled by the operations: \<open>Epoller::update\<close> appends the \<open>epoll_ctl\<close> call it
  makes to \<open>ctl_log\<close> (operation, descriptor, interest mask, \<open>data.ptr\<close>). The documented meaning of
  such calls is the specification \<open>ctl\<close>/\<open>replay\<close> below: adding a registered descriptor and
  modifying or deleting an unregistered one fail. The locale \<open>poller\<close> is the contract of the
  abstract class \<open>Poller\<close>, and \<open>netpoll\<close> its implementation by \<open>Epoller\<close>. \<open>reactor_step\<close> puts
  many channels on one poller.
\<close>

subsection \<open>State and operations\<close>

datatype ctl_op = EPOLL_CTL_ADD | EPOLL_CTL_MOD | EPOLL_CTL_DEL

type_synonym ctl_call = "ctl_op \<times> int \<times> 32 word \<times> nat"

record Epoller =
  channels :: "int \<rightharpoonup> nat"
  events_size :: nat
  ctl_log :: "ctl_call list"

definition kEventListSize :: nat where
  "kEventListSize = 16"

definition new_Epoller :: Epoller where
  "new_Epoller = \<lparr>channels = Map.empty, events_size = kEventListSize, ctl_log = []\<rparr>"

definition update :: "ctl_op \<Rightarrow> 'cb Channel \<Rightarrow> Epoller \<Rightarrow> Epoller" where
  "update operation c ep = ep\<lparr>ctl_log := ctl_log ep @ [(operation, fd c, events c, this c)]\<rparr>"

definition updateChannel :: "'cb Channel \<Rightarrow> Epoller \<Rightarrow> 'cb Channel \<times> Epoller" where
  "updateChannel c ep =
     (if index c = kNew \<or> index c = kDeleted
      then (let ep1 = ep\<lparr>channels := (channels ep)(fd c \<mapsto> this c)\<rparr>;
                c1 = c\<lparr>index := kAdded\<rparr>
            in (c1, update EPOLL_CTL_ADD c1 ep1))
      else if isNonEvent c
      then (c\<lparr>index := kDeleted\<rparr>, update EPOLL_CTL_DEL c ep)
      else (c, update EPOLL_CTL_MOD c ep))"

definition removeChannel :: "'cb Channel \<Rightarrow> Epoller \<Rightarrow> 'cb Channel \<times> Epoller" where
  "removeChannel c ep =
     (let ep1 = ep\<lparr>channels := (channels ep)(fd c := None)\<rparr>;
          ep2 = (if index c = kAdded then update EPOLL_CTL_DEL c ep1 else ep1)
      in (c\<lparr>index := kNew\<rparr>, ep2))"

definition hasChannel :: "'cb Channel \<Rightarrow> Epoller \<Rightarrow> bool" where
  "hasChannel c ep \<longleftrightarrow> channels ep (fd c) = Some (this c)"

definition enableReading :: "'cb Channel \<Rightarrow> Epoller \<Rightarrow> 'cb Channel \<times> Epoller" where
  "enableReading c ep = updateChannel (c\<lparr>events := events c OR kReadEvent\<rparr>) ep"

definition disableReading :: "'cb Channel \<Rightarrow> Epoller \<Rightarrow> 'cb Channel \<times> Epoller" where
  "disableReading c ep = updateChannel (c\<lparr>events := events c AND NOT kReadEvent\<rparr>) ep"

definition disableAll :: "'cb Channel \<Rightarrow> Epoller \<Rightarrow> 'cb Channel \<times> Epoller" where
  "disableAll c ep = updateChannel (c\<lparr>events := kNoneEvent\<rparr>) ep"

definition disableWriting :: "'cb Channel \<Rightarrow> Epoller \<Rightarrow> 'cb Channel \<times> Epoller" where
  "disableWriting c ep = updateChannel (c\<lparr>events := events c AND NOT kWriteEvent\<rparr>) ep"

definition enableWriting :: "'cb Channel \<Rightarrow> Epoller \<Rightarrow> 'cb Channel \<times> Epoller" where
  "enableWriting c ep = updateChannel (c\<lparr>events := events c OR kWriteEvent\<rparr>) ep"

definition remove :: "'cb Channel \<Rightarrow> Epoller \<Rightarrow> 'cb Channel \<times> Epoller" where
  "remove c ep = removeChannel c ep"

text \<open>
  \<open>fillActiveChannels\<close> over the store of channel objects, for the first \<open>numEvents\<close> entries of the
  event array: each is the pointer the kernel hands back and its event mask. \<open>poll\<close> takes the
  result of \<open>epoll_wait\<close> and that array.
\<close>

fun fillActiveChannels ::
  "(nat \<times> 32 word) list \<Rightarrow> (nat \<rightharpoonup> 'cb Channel) \<Rightarrow> nat list \<Rightarrow>
   fault + ((nat \<rightharpoonup> 'cb Channel) \<times> nat list)" where
  "fillActiveChannels [] heap active = Inr (heap, active)"
| "fillActiveChannels ((p, ev) # evs) heap active =
     (case heap p of
        None \<Rightarrow> Inl OutOfBounds
      | Some c \<Rightarrow> fillActiveChannels evs (heap(p \<mapsto> c\<lparr>revents := ev\<rparr>)) (active @ [p]))"

definition poll ::
  "int \<Rightarrow> (nat \<times> 32 word) list \<Rightarrow> (nat \<rightharpoonup> 'cb Channel) \<Rightarrow> nat list \<Rightarrow> Epoller \<Rightarrow>
   fault + ((nat \<rightharpoonup> 'cb Channel) \<times> nat list \<times> Epoller)" where
  "poll numEvents evs heap active ep =
     (if numEvents > 0
      then (case fillActiveChannels (take (nat numEvents) evs) heap active of
              Inl f \<Rightarrow> Inl f
            | Inr (heap', active') \<Rightarrow>
                Inr (heap', active',
                     if int (events_size ep) = numEvents
                     then ep\<lparr>events_size := events_size ep * 2\<rparr> else ep))
      else Inr (heap, active, ep))"

subsection \<open>What epoll_ctl does with the calls\<close>

type_synonym interest_list = "int \<rightharpoonup> 32 word \<times> nat"

fun ctl :: "interest_list \<Rightarrow> ctl_call \<Rightarrow> interest_list option" where
  "ctl K (EPOLL_CTL_ADD, f, ev, p) = (if K f = None then Some (K(f \<mapsto> (ev, p))) else None)"
| "ctl K (EPOLL_CTL_MOD, f, ev, p) = (if K f = None then None else Some (K(f \<mapsto> (ev, p))))"
| "ctl K (EPOLL_CTL_DEL, f, ev, p) = (if K f = None then None else Some (K(f := None)))"

fun replay :: "interest_list \<Rightarrow> ctl_call list \<Rightarrow> interest_list option" where
  "replay K [] = Some K"
| "replay K (x # xs) = (case ctl K x of None \<Rightarrow> None | Some K' \<Rightarrow> replay K' xs)"

definition interest :: "Epoller \<Rightarrow> interest_list option" where
  "interest ep = replay Map.empty (ctl_log ep)"

lemma replay_append:
  "replay K (xs @ ys) = (case replay K xs of None \<Rightarrow> None | Some K' \<Rightarrow> replay K' ys)"
  by (induction xs arbitrary: K) (auto split: option.splits)

lemma interest_update:
  "interest ep = Some K \<Longrightarrow> interest (update operation c ep) = ctl K (operation, fd c, events c, this c)"
  by (simp add: interest_def update_def replay_append split: option.splits)

lemma interest_channels [simp]: "interest (ep\<lparr>channels := m\<rparr>) = interest ep"
  by (simp add: interest_def)

subsection \<open>The contract of Poller\<close>

text \<open>The entry that the kernel should hold for a channel, and that its index can be trusted.\<close>

definition entry :: "'cb Channel \<Rightarrow> (32 word \<times> nat) option" where
  "entry c = (if index c = kAdded then Some (events c, this c) else None)"

definition valid_index :: "'cb Channel \<Rightarrow> bool" where
  "valid_index c \<longleftrightarrow> index c = kNew \<or> index c = kAdded \<or> index c = kDeleted"

definition registered_as :: "interest_list \<Rightarrow> 'cb Channel \<Rightarrow> bool" where
  "registered_as K c \<longleftrightarrow> valid_index c \<and> (K (fd c) = None \<longleftrightarrow> index c \<noteq> kAdded)"

datatype channel_op = EnableReading | DisableReading | EnableWriting | DisableWriting | DisableAll | Remove

fun set_events :: "channel_op \<Rightarrow> 'cb Channel \<Rightarrow> 'cb Channel" where
  "set_events EnableReading c = c\<lparr>events := events c OR kReadEvent\<rparr>"
| "set_events DisableReading c = c\<lparr>events := events c AND NOT kReadEvent\<rparr>"
| "set_events EnableWriting c = c\<lparr>events := events c OR kWriteEvent\<rparr>"
| "set_events DisableWriting c = c\<lparr>events := events c AND NOT kWriteEvent\<rparr>"
| "set_events DisableAll c = c\<lparr>events := kNoneEvent\<rparr>"
| "set_events Remove c = c"

definition run_op ::
  "('cb Channel \<Rightarrow> 'p \<Rightarrow> 'cb Channel \<times> 'p) \<Rightarrow> ('cb Channel \<Rightarrow> 'p \<Rightarrow> 'cb Channel \<times> 'p) \<Rightarrow>
   channel_op \<Rightarrow> 'cb Channel \<Rightarrow> 'p \<Rightarrow> 'cb Channel \<times> 'p" where
  "run_op upd rem op c p = (if op = Remove then rem c p else upd (set_events op c) p)"

fun run_ops ::
  "('cb Channel \<Rightarrow> 'p \<Rightarrow> 'cb Channel \<times> 'p) \<Rightarrow> ('cb Channel \<Rightarrow> 'p \<Rightarrow> 'cb Channel \<times> 'p) \<Rightarrow>
   channel_op list \<Rightarrow> 'cb Channel \<Rightarrow> 'p \<Rightarrow> 'cb Channel \<times> 'p" where
  "run_ops upd rem [] c p = (c, p)"
| "run_ops upd rem (op # ops) c p =
     (let (c1, p1) = run_op upd rem op c p in run_ops upd rem ops c1 p1)"

lemma set_events_frame [simp]:
  "fd (set_events op c) = fd c" "this (set_events op c) = this c"
  "index (set_events op c) = index c"
  by (cases op; simp)+

lemma registered_as_set_events [simp]: "registered_as K (set_events op c) = registered_as K c"
  by (simp add: registered_as_def valid_index_def)

text \<open>
  A poller keeps the kernel's interest list in step with the channels it is told about:
  an update leaves the channel's own entry equal to its mask (or gone, when it wants no events),
  a removal leaves no entry, no call ever fails, and no other descriptor is touched.
\<close>

locale poller =
  fixes upd rem :: "'cb Channel \<Rightarrow> 'p \<Rightarrow> 'cb Channel \<times> 'p"
    and kernel :: "'p \<Rightarrow> interest_list option"
  assumes upd_law: "kernel p = Some K \<Longrightarrow> registered_as K c \<Longrightarrow> upd c p = (c', p') \<Longrightarrow>
      kernel p' = Some (K(fd c := entry c')) \<and> registered_as (K(fd c := entry c')) c' \<and>
      fd c' = fd c \<and> this c' = this c \<and> events c' = events c"
    and rem_law: "kernel p = Some K \<Longrightarrow> registered_as K c \<Longrightarrow> rem c p = (c', p') \<Longrightarrow>
      kernel p' = Some (K(fd c := None)) \<and> c' = c\<lparr>index := kNew\<rparr>"
begin

lemma op_law:
  assumes "kernel p = Some K" and "registered_as K c" and "run_op upd rem op c p = (c', p')"
  shows "kernel p' = Some (K(fd c := entry c')) \<and> registered_as (K(fd c := entry c')) c' \<and>
      fd c' = fd c \<and> this c' = this c \<and> events c' = events (set_events op c)"
proof (cases "op = Remove")
  case True
  then have "rem c p = (c', p')" using assms(3) by (simp add: run_op_def)
  then have "kernel p' = Some (K(fd c := None))" and "c' = c\<lparr>index := kNew\<rparr>"
    using rem_law assms by blast+
  then show ?thesis using True
    by (simp add: entry_def registered_as_def valid_index_def kNew_def kAdded_def)
next
  case False
  then have "upd (set_events op c) p = (c', p')" using assms(3) by (simp add: run_op_def)
  then show ?thesis using upd_law [of p K "set_events op c" c' p'] assms by simp
qed

lemma ops_law:
  assumes "kernel p = Some K" and "registered_as K c" and "run_ops upd rem ops c p = (c', p')"
    and "ops \<noteq> []"
  shows "kernel p' = Some (K(fd c := entry c')) \<and> fd c' = fd c \<and> this c' = this c"
  using assms
proof (induction ops arbitrary: K c p)
  case Nil
  then show ?case by simp
next
  case (Cons op ops)
  obtain c1 p1 where one: "run_op upd rem op c p = (c1, p1)" by fastforce
  note law = op_law [OF Cons.prems(1,2) one]
  show ?case
  proof (cases "ops = []")
    case True
    then have "c' = c1" and "p' = p1" using Cons.prems(3) one by simp_all
    then show ?thesis using law by blast
  next
    case False
    have "run_ops upd rem ops c1 p1 = (c', p')" using Cons.prems(3) one by simp
    from Cons.IH [OF _ _ this False] law
    have "kernel p' = Some ((K(fd c := entry c1))(fd c1 := entry c')) \<and> fd c' = fd c1 \<and> this c' = this c1"
      by blast
    then show ?thesis using law by (simp add: fun_eq_iff)
  qed
qed

end

lemma updateChannel_law:
  assumes "interest ep = Some K" and "registered_as K c" and "updateChannel c ep = (c', ep')"
  shows "interest ep' = Some (K(fd c := entry c')) \<and> registered_as (K(fd c := entry c')) c' \<and>
      fd c' = fd c \<and> this c' = this c \<and> events c' = events c"
  using assms
  by (auto simp: updateChannel_def Let_def registered_as_def valid_index_def interest_update entry_def
      kNew_def kAdded_def kDeleted_def split: if_splits)

lemma removeChannel_law:
  assumes "interest ep = Some K" and "registered_as K c" and "removeChannel c ep = (c', ep')"
  shows "interest ep' = Some (K(fd c := None)) \<and> c' = c\<lparr>index := kNew\<rparr>"
  using assms
  by (auto simp: removeChannel_def Let_def registered_as_def interest_update fun_upd_idem split: if_splits)

interpretation netpoll: poller updateChannel removeChannel interest
  by unfold_locales (rule updateChannel_law removeChannel_law; assumption)+


subsection \<open>Many channels on one poller\<close>

text \<open>
  The channel objects of one event loop (a store from addresses to objects) and its poller. A
  channel is created for a descriptor that no live channel has, its operations run in any order,
  and it is destroyed after a removal, as the destructors of the owners do.
\<close>

record 'cb Reactor =
  epoller :: Epoller
  heap :: "nat \<rightharpoonup> 'cb Channel"

definition init_Reactor :: "'cb Reactor" where
  "init_Reactor = \<lparr>epoller = new_Epoller, heap = Map.empty\<rparr>"

definition channel_step :: "channel_op \<Rightarrow> 'cb Channel \<Rightarrow> Epoller \<Rightarrow> 'cb Channel \<times> Epoller" where
  "channel_step op c ep =
     (case op of
        EnableReading \<Rightarrow> enableReading c ep
      | DisableReading \<Rightarrow> disableReading c ep
      | EnableWriting \<Rightarrow> enableWriting c ep
      | DisableWriting \<Rightarrow> disableWriting c ep
      | DisableAll \<Rightarrow> disableAll c ep
      | Remove \<Rightarrow> remove c ep)"

inductive reactor_step :: "'cb Reactor \<Rightarrow> 'cb Reactor \<Rightarrow> bool" where
  create: "heap R p = None \<Longrightarrow> (\<forall>q c. heap R q = Some c \<longrightarrow> fd c \<noteq> f) \<Longrightarrow>
     reactor_step R (R\<lparr>heap := (heap R)(p \<mapsto> new_Channel p f)\<rparr>)"
| operate: "heap R p = Some c \<Longrightarrow> channel_step op c (epoller R) = (c', ep') \<Longrightarrow>
     reactor_step R (R\<lparr>heap := (heap R)(p \<mapsto> c'), epoller := ep'\<rparr>)"
| destroy: "heap R p = Some c \<Longrightarrow> index c = kNew \<Longrightarrow>
     reactor_step R (R\<lparr>heap := (heap R)(p := None)\<rparr>)"

inductive reactor_reachable :: "'cb Reactor \<Rightarrow> bool" where
  start: "reactor_reachable init_Reactor"
| step: "reactor_reachable R \<Longrightarrow> reactor_step R S \<Longrightarrow> reactor_reachable S"

lemma channel_step_run_op: "channel_step op c ep = run_op updateChannel removeChannel op c ep"
  by (cases op)
     (simp_all add: channel_step_def run_op_def enableReading_def disableReading_def disableAll_def
       enableWriting_def disableWriting_def remove_def)

text \<open>
  A descriptor table \<open>m\<close> shows the store \<open>h\<close> through \<open>g\<close>: it holds \<open>g c\<close> for the descriptor of
  every live channel \<open>c\<close> and nothing else. Both the kernel's interest list and the poller's own map
  are such tables.
\<close>

definition view :: "('cb Channel \<Rightarrow> 'v option) \<Rightarrow> (nat \<rightharpoonup> 'cb Channel) \<Rightarrow> (int \<rightharpoonup> 'v) \<Rightarrow> bool" where
  "view g h m \<longleftrightarrow>
     (\<forall>p c. h p = Some c \<longrightarrow> m (fd c) = g c) \<and>
     (\<forall>f. (\<forall>p c. h p = Some c \<longrightarrow> fd c \<noteq> f) \<longrightarrow> m f = None)"

definition distinct_fds :: "(nat \<rightharpoonup> 'cb Channel) \<Rightarrow> bool" where
  "distinct_fds h \<longleftrightarrow> (\<forall>p q c d. h p = Some c \<longrightarrow> h q = Some d \<longrightarrow> fd c = fd d \<longrightarrow> p = q)"

definition well_placed :: "(nat \<rightharpoonup> 'cb Channel) \<Rightarrow> bool" where
  "well_placed h \<longleftrightarrow> (\<forall>p c. h p = Some c \<longrightarrow> this c = p \<and> valid_index c)"

definition slot :: "'cb Channel \<Rightarrow> nat option" where
  "slot c = (if index c = kNew then None else Some (this c))"

definition reactor_inv :: "'cb Reactor \<Rightarrow> bool" where
  "reactor_inv R \<longleftrightarrow>
     well_placed (heap R) \<and> distinct_fds (heap R) \<and> view slot (heap R) (channels (epoller R)) \<and>
     (\<exists>K. interest (epoller R) = Some K \<and> view entry (heap R) K)"

lemma viewD: "view g h m \<Longrightarrow> h p = Some c \<Longrightarrow> m (fd c) = g c"
  by (simp add: view_def)

lemma view_elim:
  assumes "view g h m" and "m f = Some v"
  obtains p c where "h p = Some c" and "fd c = f" and "g c = Some v"
proof -
  from assms obtain p c where "h p = Some c" and "fd c = f"
    unfolding view_def by (metis option.distinct(1))
  moreover from this assms have "g c = Some v" using viewD by fastforce
  ultimately show ?thesis by (rule that)
qed

lemma distinct_fdsD: "distinct_fds h \<Longrightarrow> h p = Some c \<Longrightarrow> h q = Some d \<Longrightarrow> fd c = fd d \<Longrightarrow> p = q"
  unfolding distinct_fds_def by blast

lemma view_update:
  assumes "view g h m" and "distinct_fds h" and "h p = Some c" and "fd c' = fd c"
  shows "view g (h(p \<mapsto> c')) (m(fd c := g c'))"
proof (unfold view_def, intro conjI allI impI)
  fix q d assume d: "(h(p \<mapsto> c')) q = Some d"
  show "(m(fd c := g c')) (fd d) = g d"
  proof (cases "q = p")
    case True
    then show ?thesis using d assms(4) by simp
  next
    case False
    then have "h q = Some d" using d by simp
    moreover from this have "fd d \<noteq> fd c" using False assms(2,3) distinct_fdsD by metis
    ultimately show ?thesis using assms(1) by (simp add: viewD)
  qed
next
  fix f assume none: "\<forall>q d. (h(p \<mapsto> c')) q = Some d \<longrightarrow> fd d \<noteq> f"
  have f: "fd c \<noteq> f" using none [rule_format, of p c'] assms(4) by simp
  have "fd d \<noteq> f" if "h q = Some d" for q d
    using none [rule_format, of q d] that f assms(3) by (cases "q = p") auto
  then show "(m(fd c := g c')) f = None" using assms(1) f by (simp add: view_def)
qed

lemma view_create:
  assumes "view g h m" and "\<forall>q d. h q = Some d \<longrightarrow> fd d \<noteq> fd c" and "h p = None" and "g c = None"
  shows "view g (h(p \<mapsto> c)) m"
proof -
  have "m (fd c) = None" using assms(1,2) by (simp add: view_def)
  moreover have "m f = None" if none: "\<forall>q d. (h(p \<mapsto> c)) q = Some d \<longrightarrow> fd d \<noteq> f" for f
  proof -
    have "fd d \<noteq> f" if "h q = Some d" for q d
      using none [rule_format, of q d] that assms(3) by (cases "q = p") auto
    then show ?thesis using assms(1) by (simp add: view_def)
  qed
  ultimately show ?thesis using assms(1,4) by (simp add: view_def)
qed

lemma distinct_fds_create:
  assumes "distinct_fds h" and "\<forall>q d. h q = Some d \<longrightarrow> fd d \<noteq> fd c"
  shows "distinct_fds (h(p \<mapsto> c))"
  unfolding distinct_fds_def
proof (intro allI impI)
  fix q r d e
  assume "(h(p \<mapsto> c)) q = Some d" and "(h(p \<mapsto> c)) r = Some e" and "fd d = fd e"
  then show "q = r"
    using assms(2) distinct_fdsD [OF assms(1), of q d r e]
    by (cases "q = p"; cases "r = p") auto
qed

lemma view_destroy:
  assumes "view g h m" and "h p = Some c" and "g c = None"
  shows "view g (h(p := None)) m"
proof (unfold view_def, intro conjI allI impI)
  fix q d assume "(h(p := None)) q = Some d"
  then show "m (fd d) = g d" using assms(1) by (simp add: viewD split: if_splits)
next
  fix f assume none: "\<forall>q d. (h(p := None)) q = Some d \<longrightarrow> fd d \<noteq> f"
  show "m f = None"
  proof (cases "fd c = f")
    case True
    then show ?thesis using assms viewD by fastforce
  next
    case False
    have "fd d \<noteq> f" if "h q = Some d" for q d
      using none [rule_format, of q d] that False assms(2) by (cases "q = p") auto
    then show ?thesis using assms(1) by (simp add: view_def)
  qed
qed

lemma channel_step_channels:
  assumes "channel_step op c ep = (c', ep')" and "valid_index c"
    and "channels ep (fd c) = slot c"
  shows "channels ep' = (channels ep)(fd c := slot c')"
  using assms
  by (cases "op = Remove")
     (auto simp: channel_step_run_op run_op_def updateChannel_def removeChannel_def Let_def update_def
       slot_def kNew_def kAdded_def kDeleted_def valid_index_def fun_upd_idem split: if_splits)

lemma reactor_inv_init [inv_rules]: "reactor_inv init_Reactor"
  by (simp add: reactor_inv_def init_Reactor_def new_Epoller_def interest_def well_placed_def
      distinct_fds_def view_def)

lemma new_Channel_fields [simp]:
  "slot (new_Channel p f) = None" "entry (new_Channel p f) = None" "fd (new_Channel p f) = f"
  "this (new_Channel p f) = p" "valid_index (new_Channel p f)"
  by (simp_all add: slot_def entry_def new_Channel_def valid_index_def kNew_def kAdded_def)

lemma reactor_inv_operate:
  assumes inv: "reactor_inv R" and c: "heap R p = Some c"
    and op: "channel_step op c (epoller R) = (c', ep')"
  shows "reactor_inv (R\<lparr>heap := (heap R)(p \<mapsto> c'), epoller := ep'\<rparr>)"
proof -
  from inv obtain K where K: "interest (epoller R) = Some K" "view entry (heap R) K"
    and wp: "well_placed (heap R)" and df: "distinct_fds (heap R)"
    and vs: "view slot (heap R) (channels (epoller R))"
    unfolding reactor_inv_def by blast
  have reg: "registered_as K c"
    using wp c viewD [OF K(2) c] by (simp add: registered_as_def entry_def well_placed_def)
  from netpoll.op_law [OF K(1) reg op [unfolded channel_step_run_op]]
  have K': "interest ep' = Some (K(fd c := entry c'))" and fd': "fd c' = fd c"
    and "this c' = this c" and "registered_as (K(fd c := entry c')) c'" by blast+
  then have "well_placed ((heap R)(p \<mapsto> c'))"
    using wp c by (auto simp: well_placed_def registered_as_def)
  moreover have "distinct_fds ((heap R)(p \<mapsto> c'))"
    using df c fd' unfolding distinct_fds_def by (metis fun_upd_apply option.inject)
  moreover have "channels ep' = (channels (epoller R))(fd c := slot c')"
    using channel_step_channels [OF op] wp c viewD [OF vs c] by (simp add: well_placed_def)
  ultimately show ?thesis
    using K' view_update [OF K(2) df c fd'] view_update [OF vs df c fd']
    by (simp add: reactor_inv_def)
qed

lemma reactor_step_inv [inv_rules]:
  assumes "reactor_step R S" and "reactor_inv R"
  shows "reactor_inv S"
  using assms
proof (cases rule: reactor_step.cases)
  case (create p f)
  then show ?thesis using assms(2)
    by (auto simp: reactor_inv_def well_placed_def intro!: view_create distinct_fds_create)
next
  case (operate p c op c' ep')
  then show ?thesis using assms(2) reactor_inv_operate by blast
next
  case (destroy p c)
  have "slot c = None" and "entry c = None"
    using destroy by (simp_all add: slot_def entry_def kNew_def kAdded_def)
  then show ?thesis using assms(2) destroy
    by (auto simp: reactor_inv_def well_placed_def distinct_fds_def intro: view_destroy)
qed

lemma reachable_reactor_inv: "reactor_reachable R \<Longrightarrow> reactor_inv R"
  by (induction rule: reactor_reachable.induct) (auto intro: inv_rules)

subsection \<open>Properties\<close>

text \<open>
  C11: However the channels of a loop are created, change their interest, are removed and destroyed,
  no \<open>epoll_ctl\<close> call ever fails, and the kernel's interest list holds exactly the live channels
  that are in state \<open>kAdded\<close>, each with its current mask and its own address: an event can
  neither be missed nor delivered to a destroyed channel.
\<close>

theorem epoll_in_step_with_channels:
  assumes "reactor_reachable R"
  shows "\<exists>K. interest (epoller R) = Some K \<and>
    (\<forall>f ev p. K f = Some (ev, p) \<longleftrightarrow>
       (\<exists>c. heap R p = Some c \<and> fd c = f \<and> index c = kAdded \<and> events c = ev))"
proof -
  from reachable_reactor_inv [OF assms] obtain K where K: "interest (epoller R) = Some K"
    "view entry (heap R) K" and wp: "well_placed (heap R)"
    unfolding reactor_inv_def by blast
  have "K f = Some (ev, p) \<longleftrightarrow>
      (\<exists>c. heap R p = Some c \<and> fd c = f \<and> index c = kAdded \<and> events c = ev)" for f ev p
  proof
    assume "K f = Some (ev, p)"
    with K(2) show "\<exists>c. heap R p = Some c \<and> fd c = f \<and> index c = kAdded \<and> events c = ev"
      by (rule view_elim) (use wp in \<open>auto simp: entry_def well_placed_def split: if_splits\<close>)
  next
    assume "\<exists>c. heap R p = Some c \<and> fd c = f \<and> index c = kAdded \<and> events c = ev"
    then show "K f = Some (ev, p)"
      using viewD [OF K(2)] wp by (auto simp: entry_def well_placed_def)
  qed
  then show ?thesis using K(1) by blast
qed

text \<open>A reactor with one channel for descriptor 7 that has read interest.\<close>

definition one_reader :: "nat Reactor" where
  "one_reader =
     \<lparr>epoller = snd (enableReading (new_Channel 5 7 :: nat Channel) new_Epoller),
      heap = [5 \<mapsto> fst (enableReading (new_Channel 5 7) new_Epoller)]\<rparr>"

lemma one_reader_reachable: "reactor_reachable one_reader"
proof -
  let ?R = "init_Reactor\<lparr>heap := (heap init_Reactor)(5 \<mapsto> new_Channel 5 7 :: nat Channel)\<rparr>"
  have "reactor_step init_Reactor ?R"
    by (rule reactor_step.create) (simp_all add: init_Reactor_def)
  moreover have "reactor_step ?R one_reader"
    using reactor_step.operate [of ?R 5 "new_Channel 5 7" EnableReading
        "fst (enableReading (new_Channel 5 7) new_Epoller)" "snd (enableReading (new_Channel 5 7 :: nat Channel) new_Epoller)"]
    by (simp add: init_Reactor_def one_reader_def channel_step_def)
  ultimately show ?thesis by (blast intro: reactor_reachable.intros)
qed

lemma one_reader_eval:
  "heap one_reader 5 = Some \<lparr>this = 5, fd = 7, events = 3, revents = 0, index = kAdded, tied = False,
      readEventCallBack = None, writeEventCallBack = None,
      errorEventCallBack = None, closeEventCallBack = None\<rparr>"
  "interest (epoller one_reader) = Some [7 \<mapsto> (3, 5)]"
  by (simp_all add: one_reader_def enableReading_def updateChannel_def new_Channel_def new_Epoller_def
      kNew_def epoll_masks interest_def update_def)

lemma epoll_in_step_with_channels_witness:
  "\<exists>K. interest (epoller one_reader) = Some K \<and> K 7 = Some (3, 5)"
proof -
  obtain K where "interest (epoller one_reader) = Some K"
    and "\<forall>f ev p. K f = Some (ev, p) \<longleftrightarrow>
       (\<exists>c. heap one_reader p = Some c \<and> fd c = f \<and> index c = kAdded \<and> events c = ev)"
    using epoll_in_step_with_channels [OF one_reader_reachable] by blast
  then show ?thesis using one_reader_eval(1) by fastforce
qed

lemma fillActiveChannels_ok:
  assumes "\<forall>e \<in> set evs. fst e \<in> dom h"
  shows "\<exists>h'. fillActiveChannels evs h active = Inr (h', active @ map fst evs) \<and> dom h' = dom h \<and>
    (\<forall>p. p \<notin> fst ` set evs \<longrightarrow> h' p = h p) \<and>
    (distinct (map fst evs) \<longrightarrow>
       (\<forall>(p, ev) \<in> set evs. h' p = Some ((the (h p))\<lparr>revents := ev\<rparr>)))"
  using assms
proof (induction evs arbitrary: h active)
  case Nil
  then show ?case by simp
next
  case (Cons e evs)
  obtain p ev where e: "e = (p, ev)" by (cases e)
  obtain c where c: "h p = Some c" using Cons.prems e by auto
  let ?h = "h(p \<mapsto> c\<lparr>revents := ev\<rparr>)"
  have "\<forall>e \<in> set evs. fst e \<in> dom ?h" using Cons.prems by auto
  from Cons.IH [OF this, of "active @ [p]"] obtain h' where h':
    "fillActiveChannels evs ?h (active @ [p]) = Inr (h', (active @ [p]) @ map fst evs)"
    "dom h' = dom ?h" "\<forall>q. q \<notin> fst ` set evs \<longrightarrow> h' q = ?h q"
    "distinct (map fst evs) \<longrightarrow> (\<forall>(q, ev) \<in> set evs. h' q = Some ((the (?h q))\<lparr>revents := ev\<rparr>))"
    by blast
  have same: "?h q = h q" if "(q, m) \<in> set evs" and "p \<notin> fst ` set evs" for q m
    using that by (force simp: image_iff)
  have "\<forall>(q, m) \<in> set (e # evs). h' q = Some ((the (h q))\<lparr>revents := m\<rparr>)"
    if d: "distinct (map fst (e # evs))"
  proof -
    have p: "p \<notin> fst ` set evs" and d': "distinct (map fst evs)" using d e by simp_all
    have "h' q = Some ((the (h q))\<lparr>revents := m\<rparr>)" if "(q, m) \<in> set evs" for q m
      using h'(4) d' that same [OF that p] by fastforce
    then show ?thesis using h'(3) p e c by auto
  qed
  moreover have "dom h' = dom h" using h'(2) c by (auto simp: dom_def)
  moreover have "h' q = h q" if "q \<notin> fst ` set (e # evs)" for q
    using that h'(3) e by simp
  ultimately show ?case using h'(1) c e by auto
qed

text \<open>
  \<open>poll\<close> on a reachable loop never touches a destroyed channel: when the kernel reports events
  of its interest list, each at most once, the active list gets exactly the reported channels in
  order, all of them live; each one's \<open>revents\<close> is the reported mask, no other channel changes, and
  the event array is doubled when it was full.
\<close>

theorem poll_reports_live_channels:
  assumes "reactor_reachable R" and "interest (epoller R) = Some K"
    and "\<forall>e \<in> set evs. \<exists>f m. K f = Some (m, fst e)" and "distinct (map fst evs)"
    and "evs \<noteq> []"
  shows "\<exists>h' ep'. poll (int (length evs)) evs (heap R) [] (epoller R) = Inr (h', map fst evs, ep') \<and>
    dom h' = dom (heap R) \<and>
    (\<forall>(p, ev) \<in> set evs. \<exists>c. heap R p = Some c \<and> h' p = Some (c\<lparr>revents := ev\<rparr>)) \<and>
    (\<forall>p. p \<notin> fst ` set evs \<longrightarrow> h' p = heap R p) \<and>
    ep' = (if events_size (epoller R) = length evs
           then (epoller R)\<lparr>events_size := events_size (epoller R) * 2\<rparr> else epoller R)"
proof -
  have inv: "view entry (heap R) K" and wp: "well_placed (heap R)"
    using reachable_reactor_inv [OF assms(1)] assms(2) by (auto simp: reactor_inv_def)
  have live: "fst e \<in> dom (heap R)" if e: "e \<in> set evs" for e
  proof -
    obtain f m where "K f = Some (m, fst e)" using assms(3) e by blast
    with inv show ?thesis
      by (rule view_elim) (use wp in \<open>auto simp: entry_def well_placed_def split: if_splits\<close>)
  qed
  obtain h' where h': "fillActiveChannels evs (heap R) [] = Inr (h', [] @ map fst evs)"
      "dom h' = dom (heap R)" "\<forall>p. p \<notin> fst ` set evs \<longrightarrow> h' p = heap R p"
      "\<forall>(p, ev) \<in> set evs. h' p = Some ((the (heap R p))\<lparr>revents := ev\<rparr>)"
    using fillActiveChannels_ok [of evs "heap R" "[]"] live assms(4) by blast
  have "\<exists>c. heap R p = Some c \<and> h' p = Some (c\<lparr>revents := ev\<rparr>)" if "(p, ev) \<in> set evs" for p ev
    using live [OF that] h'(4) that by force
  then show ?thesis using h' assms(5) by (auto simp: poll_def)
qed

lemma poll_reports_live_channels_witness:
  "\<exists>h' ep'. poll 1 [(5, 1)] (heap one_reader) [] (epoller one_reader) = Inr (h', [5], ep')"
  using poll_reports_live_channels [OF one_reader_reachable one_reader_eval(2), of "[(5, 1)]"] by force

text \<open>
  In a reachable loop the user-space map agrees with the channels: a live channel is found by
  \<open>hasChannel\<close> exactly when it has been registered and not removed since.
\<close>

theorem hasChannel_iff_registered:
  assumes "reactor_reachable R" and "heap R p = Some c"
  shows "hasChannel c (epoller R) \<longleftrightarrow> index c \<noteq> kNew"
proof -
  have "view slot (heap R) (channels (epoller R))"
    using reachable_reactor_inv [OF assms(1)] by (simp add: reactor_inv_def)
  then have "channels (epoller R) (fd c) = slot c" using assms(2) by (rule viewD)
  then show ?thesis by (simp add: hasChannel_def slot_def)
qed

lemma hasChannel_iff_registered_witness:
  "hasChannel (the (heap one_reader 5)) (epoller one_reader)"
  using hasChannel_iff_registered [OF one_reader_reachable one_reader_eval(1)]
  by (simp add: one_reader_eval(1) kAdded_def kNew_def)

end
