(* ===== verification/Net_EventLoop.thy ===== *)
theory Net_EventLoop
  imports Net_Epoller
begin

text \<open>
  \<^verbatim>\<open>Net/EventLoop.h\<close>, \<^verbatim>\<open>Net/EventLoop.cc\<close>: the loop of one thread, its queue of functors and
  the \<open>eventfd\<close> that other threads write to wake it up.

  The operations come first, over the state of one loop. \<open>wakeupFd\<close> is the counter of the eventfd:
  \<open>write\<close> adds one, \<open>read\<close> resets it, and \<open>epoll_wait\<close> reports the descriptor while it is not zero.
  Whether the caller is the loop's own thread is an argument. \<open>loop_step\<close> then interleaves the loop
  thread with any number of other threads: another thread's \<open>queueInLoop\<close> is two steps, the push
  under the mutex and the later \<open>wakeup\<close>, and \<open>inflight\<close> counts the threads between the two.
\<close>

subsection \<open>State and operations\<close>

record 'f EventLoop =
  looping :: bool
  quitting :: bool
  callingPengdingChannel :: bool
  pendingFunctors :: "'f list"
  wakeupFd :: nat

definition new_EventLoop :: "'f EventLoop" where
  "new_EventLoop =
     \<lparr>looping = False, quitting = False, callingPengdingChannel = False,
      pendingFunctors = [], wakeupFd = 0\<rparr>"

definition wakeup :: "'f EventLoop \<Rightarrow> 'f EventLoop" where
  "wakeup L = L\<lparr>wakeupFd := wakeupFd L + 1\<rparr>"

definition handleRead :: "'f EventLoop \<Rightarrow> 'f EventLoop" where
  "handleRead L = L\<lparr>wakeupFd := 0\<rparr>"

text \<open>The critical section of \<open>queueInLoop\<close>, and the whole function.\<close>

definition push_functor :: "'f \<Rightarrow> 'f EventLoop \<Rightarrow> 'f EventLoop" where
  "push_functor cb L = L\<lparr>pendingFunctors := pendingFunctors L @ [cb]\<rparr>"

definition queueInLoop :: "bool \<Rightarrow> 'f \<Rightarrow> 'f EventLoop \<Rightarrow> 'f EventLoop" where
  "queueInLoop isInLoopThread cb L =
     (let L1 = push_functor cb L
      in if \<not> isInLoopThread \<or> callingPengdingChannel L1 then wakeup L1 else L1)"

text \<open>\<open>run cb\<close> is what calling the functor does.\<close>

definition runInLoop ::
  "bool \<Rightarrow> ('f \<Rightarrow> 'f EventLoop \<Rightarrow> 'f EventLoop) \<Rightarrow> 'f \<Rightarrow> 'f EventLoop \<Rightarrow> 'f EventLoop" where
  "runInLoop isInLoopThread run cb L =
     (if isInLoopThread then run cb L else queueInLoop isInLoopThread cb L)"

definition quit :: "bool \<Rightarrow> 'f EventLoop \<Rightarrow> 'f EventLoop" where
  "quit isInLoopThread L =
     (let L1 = L\<lparr>quitting := True\<rparr> in if \<not> isInLoopThread then wakeup L1 else L1)"

text \<open>\<open>doPendingFunctors\<close>: the swap with the local vector, the calls, the end.\<close>

definition begin_pending :: "'f EventLoop \<Rightarrow> 'f list \<times> 'f EventLoop" where
  "begin_pending L =
     (let L1 = L\<lparr>callingPengdingChannel := True\<rparr>
      in (pendingFunctors L1, L1\<lparr>pendingFunctors := []\<rparr>))"

definition end_pending :: "'f EventLoop \<Rightarrow> 'f EventLoop" where
  "end_pending L = L\<lparr>callingPengdingChannel := False\<rparr>"

definition doPendingFunctors ::
  "('f \<Rightarrow> 'f EventLoop \<Rightarrow> 'f EventLoop) \<Rightarrow> 'f EventLoop \<Rightarrow> 'f EventLoop" where
  "doPendingFunctors run L =
     (let (localFunctors, L1) = begin_pending L in end_pending (fold run localFunctors L1))"

text \<open>
  \<open>loop\<close>: each element of the list is what one \<open>poll\<close> and the event handlers it dispatches to do;
  \<open>None\<close> means that the loop is still waiting when the list is used up.
\<close>

fun loop_body ::
  "('f \<Rightarrow> 'f EventLoop \<Rightarrow> 'f EventLoop) \<Rightarrow> ('f EventLoop \<Rightarrow> 'f EventLoop) list \<Rightarrow>
   'f EventLoop \<Rightarrow> 'f EventLoop option" where
  "loop_body run [] L = (if quitting L then Some L else None)"
| "loop_body run (h # hs) L =
     (if quitting L then Some L else loop_body run hs (doPendingFunctors run (h L)))"

definition loop ::
  "('f \<Rightarrow> 'f EventLoop \<Rightarrow> 'f EventLoop) \<Rightarrow> ('f EventLoop \<Rightarrow> 'f EventLoop) list \<Rightarrow>
   'f EventLoop \<Rightarrow> 'f EventLoop option" where
  "loop run handlers L =
     map_option (\<lambda>L'. L'\<lparr>looping := False\<rparr>)
       (loop_body run handlers (L\<lparr>looping := True, quitting := False\<rparr>))"

lemmas loop_op_defs = wakeup_def handleRead_def push_functor_def queueInLoop_def quit_def
  begin_pending_def end_pending_def

lemma queueInLoop_fields [simp]:
  "pendingFunctors (queueInLoop t f L) = pendingFunctors L @ [f]"
  "callingPengdingChannel (queueInLoop t f L) = callingPengdingChannel L"
  "quitting (queueInLoop t f L) = quitting L"
  "wakeupFd (queueInLoop t f L) =
     (if \<not> t \<or> callingPengdingChannel L then wakeupFd L + 1 else wakeupFd L)"
  by (simp_all add: loop_op_defs Let_def)

lemma fold_queueInLoop:
  "pendingFunctors (fold (queueInLoop t) fs L) = pendingFunctors L @ fs"
  "callingPengdingChannel (fold (queueInLoop t) fs L) = callingPengdingChannel L"
  "quitting (fold (queueInLoop t) fs L) = quitting L"
  by (induction fs arbitrary: L) simp_all

lemma fold_queueInLoop_wakeup:
  "\<not> t \<or> callingPengdingChannel L \<Longrightarrow> wakeupFd (fold (queueInLoop t) fs L) = wakeupFd L + length fs"
  by (induction fs arbitrary: L) simp_all

subsection \<open>The loop thread among other threads\<close>

datatype 'f phase = Poll | Handle bool | Run "'f list" | Stopped

text \<open>
  \<open>queued\<close> and \<open>executed\<close> record the functors in the order they were queued and called.
\<close>

record 'f System =
  lp :: "'f EventLoop"
  phase :: "'f phase"
  inflight :: nat
  queued :: "'f list"
  executed :: "'f list"

definition init_System :: "'f System" where
  "init_System =
     \<lparr>lp = new_EventLoop\<lparr>looping := True\<rparr>, phase = Poll, inflight = 0, queued = [], executed = []\<rparr>"

text \<open>
  \<open>spawn f\<close> lists the functors that calling \<open>f\<close> queues on its own loop. \<open>Handle True\<close> means that the
  poll reported the wakeup channel and its handler has not run yet.
\<close>

inductive loop_step :: "('f \<Rightarrow> 'f list) \<Rightarrow> 'f System \<Rightarrow> 'f System \<Rightarrow> bool"
  for spawn :: "'f \<Rightarrow> 'f list" where
  remote_push: "loop_step spawn S (S\<lparr>lp := push_functor f (lp S), inflight := inflight S + 1,
      queued := queued S @ [f]\<rparr>)"
| remote_quit: "loop_step spawn S (S\<lparr>lp := (lp S)\<lparr>quitting := True\<rparr>, inflight := inflight S + 1\<rparr>)"
| remote_wakeup: "inflight S > 0 \<Longrightarrow>
    loop_step spawn S (S\<lparr>lp := wakeup (lp S), inflight := inflight S - 1\<rparr>)"
| poll_returns: "phase S = Poll \<Longrightarrow> loop_step spawn S (S\<lparr>phase := Handle (wakeupFd (lp S) > 0)\<rparr>)"
| handle_wakeup: "phase S = Handle True \<Longrightarrow>
    loop_step spawn S (S\<lparr>lp := handleRead (lp S), phase := Handle False\<rparr>)"
| handler_queues: "phase S = Handle w \<Longrightarrow>
    loop_step spawn S (S\<lparr>lp := queueInLoop True f (lp S), queued := queued S @ [f]\<rparr>)"
| handler_quits: "phase S = Handle w \<Longrightarrow> loop_step spawn S (S\<lparr>lp := quit True (lp S)\<rparr>)"
| begin_functors: "phase S = Handle False \<Longrightarrow> begin_pending (lp S) = (fs, L) \<Longrightarrow>
    loop_step spawn S (S\<lparr>lp := L, phase := Run fs\<rparr>)"
| run_functor: "phase S = Run (f # fs) \<Longrightarrow>
    loop_step spawn S (S\<lparr>lp := fold (queueInLoop True) (spawn f) (lp S), phase := Run fs,
      queued := queued S @ spawn f, executed := executed S @ [f]\<rparr>)"
| functor_quits: "phase S = Run fs \<Longrightarrow> loop_step spawn S (S\<lparr>lp := quit True (lp S)\<rparr>)"
| end_functors: "phase S = Run [] \<Longrightarrow>
    loop_step spawn S (S\<lparr>lp := end_pending (lp S),
      phase := (if quitting (lp S) then Stopped else Poll)\<rparr>)"

inductive loop_reachable :: "('f \<Rightarrow> 'f list) \<Rightarrow> 'f System \<Rightarrow> bool" for spawn where
  start: "loop_reachable spawn init_System"
| step: "loop_reachable spawn S \<Longrightarrow> loop_step spawn S T \<Longrightarrow> loop_reachable spawn T"

text \<open>
  The steps by which queued work gets done: a thread between its push and its \<open>wakeup\<close> writes the
  eventfd, the poll returns \<^emph>\<open>because the eventfd is readable\<close>, and the loop thread does its round.
  A poll that returns for another event is not among them.
\<close>

inductive loop_prog :: "('f \<Rightarrow> 'f list) \<Rightarrow> 'f System \<Rightarrow> 'f System \<Rightarrow> bool"
  for spawn :: "'f \<Rightarrow> 'f list" where
  p_wakeup: "inflight S > 0 \<Longrightarrow>
    loop_prog spawn S (S\<lparr>lp := wakeup (lp S), inflight := inflight S - 1\<rparr>)"
| p_poll: "phase S = Poll \<Longrightarrow> wakeupFd (lp S) > 0 \<Longrightarrow> loop_prog spawn S (S\<lparr>phase := Handle True\<rparr>)"
| p_handle: "phase S = Handle True \<Longrightarrow>
    loop_prog spawn S (S\<lparr>lp := handleRead (lp S), phase := Handle False\<rparr>)"
| p_begin: "phase S = Handle False \<Longrightarrow> begin_pending (lp S) = (fs, L) \<Longrightarrow>
    loop_prog spawn S (S\<lparr>lp := L, phase := Run fs\<rparr>)"
| p_run: "phase S = Run (f # fs) \<Longrightarrow>
    loop_prog spawn S (S\<lparr>lp := fold (queueInLoop True) (spawn f) (lp S), phase := Run fs,
      queued := queued S @ spawn f, executed := executed S @ [f]\<rparr>)"
| p_end: "phase S = Run [] \<Longrightarrow>
    loop_prog spawn S (S\<lparr>lp := end_pending (lp S),
      phase := (if quitting (lp S) then Stopped else Poll)\<rparr>)"

lemma loop_prog_step: "loop_prog spawn S T \<Longrightarrow> loop_step spawn S T"
proof (induction rule: loop_prog.induct)
  case (p_poll S)
  then show ?case using poll_returns [of S spawn] by simp
qed (erule loop_step.intros | assumption)+

fun running :: "'f phase \<Rightarrow> 'f list" where
  "running (Run fs) = fs"
| "running _ = []"

definition is_handling :: "'f phase \<Rightarrow> bool" where
  "is_handling ph \<longleftrightarrow> (\<exists>w. ph = Handle w)"

text \<open>
  The invariant: the flag is set exactly while functors run; every functor is in exactly one place,
  in order; outside the handling phase, which ends in the swap, work that waits in the queue
  is covered by a wakeup that was written or is about to be; and so is a request to quit that finds
  the loop in \<open>epoll_wait\<close>.
\<close>

definition loop_inv :: "'f System \<Rightarrow> bool" where
  "loop_inv S \<longleftrightarrow>
     (callingPengdingChannel (lp S) \<longleftrightarrow> (\<exists>fs. phase S = Run fs)) \<and>
     queued S = executed S @ running (phase S) @ pendingFunctors (lp S) \<and>
     (pendingFunctors (lp S) \<noteq> [] \<longrightarrow> is_handling (phase S) \<or> wakeupFd (lp S) > 0 \<or> inflight S > 0) \<and>
     (quitting (lp S) \<and> phase S = Poll \<longrightarrow> wakeupFd (lp S) > 0 \<or> inflight S > 0)"

lemma loop_inv_init [inv_rules]: "loop_inv init_System"
  by (simp add: loop_inv_def init_System_def new_EventLoop_def)

lemma loop_step_inv [inv_rules]:
  assumes "loop_step spawn S T" and "loop_inv S"
  shows "loop_inv T"
  using assms
proof (cases rule: loop_step.cases)
  case (run_functor f fs)
  then have calling: "callingPengdingChannel (lp S)" using assms(2) by (simp add: loop_inv_def)
  then have "wakeupFd (fold (queueInLoop True) (spawn f) (lp S)) = wakeupFd (lp S) + length (spawn f)"
    by (simp add: fold_queueInLoop_wakeup)
  then show ?thesis using run_functor assms(2) calling
    by (auto simp: loop_inv_def fold_queueInLoop is_handling_def)
qed (auto simp: loop_inv_def is_handling_def loop_op_defs)

lemma reachable_loop_inv: "loop_reachable spawn S \<Longrightarrow> loop_inv S"
  by (induction rule: loop_reachable.induct) (auto intro: inv_rules)

subsection \<open>One iteration\<close>

text \<open>With functors that queue further functors, one \<open>doPendingFunctors\<close> calls the old ones only.\<close>

lemma doPendingFunctors_spawn:
  fixes L :: "'f EventLoop" and spawn :: "'f \<Rightarrow> 'f list"
  defines "L' \<equiv> doPendingFunctors (\<lambda>f. fold (queueInLoop True) (spawn f)) L"
  shows "pendingFunctors L' = concat (map spawn (pendingFunctors L))"
    and "wakeupFd L' = wakeupFd L + length (concat (map spawn (pendingFunctors L)))"
    and "callingPengdingChannel L' = False"
proof -
  have run: "fold (\<lambda>f. fold (queueInLoop True) (spawn f)) fs K =
      fold (queueInLoop True) (concat (map spawn fs)) K" for fs and K :: "'f EventLoop"
    by (induction fs arbitrary: K) simp_all
  show "pendingFunctors L' = concat (map spawn (pendingFunctors L))"
    and "wakeupFd L' = wakeupFd L + length (concat (map spawn (pendingFunctors L)))"
    and "callingPengdingChannel L' = False"
    unfolding L'_def doPendingFunctors_def begin_pending_def Let_def
    by (simp_all add: run end_pending_def fold_queueInLoop fold_queueInLoop_wakeup)
qed

subsection \<open>Properties\<close>

text \<open>
  C8: No wakeup is lost: whenever the loop thread is (or goes) into \<open>epoll_wait\<close> while functors are
  queued or a quit was requested, the eventfd is readable or a thread is about to write it, so the
  wait ends at once. The functors may come from other threads, from event handlers or from running
  functors, in any interleaving.
\<close>

theorem no_lost_wakeup:
  assumes "loop_reachable spawn S" and "phase S = Poll"
    and "pendingFunctors (lp S) \<noteq> [] \<or> quitting (lp S)"
  shows "wakeupFd (lp S) > 0 \<or> inflight S > 0"
  using reachable_loop_inv [OF assms(1)] assms(2,3) by (auto simp: loop_inv_def is_handling_def)

definition pushed_once :: "nat System" where
  "pushed_once = init_System\<lparr>lp := push_functor 1 (new_EventLoop\<lparr>looping := True\<rparr>), inflight := 1, queued := [1]\<rparr>"

lemma pushed_once_reachable: "loop_reachable (\<lambda>_. []) pushed_once"
proof -
  have "loop_step (\<lambda>_. []) init_System pushed_once"
    using remote_push [of "\<lambda>_. []" init_System "1 :: nat"] by (simp add: pushed_once_def init_System_def)
  then show ?thesis by (blast intro: loop_reachable.intros)
qed

lemma no_lost_wakeup_witness: "wakeupFd (lp pushed_once) > 0 \<or> inflight pushed_once > 0"
  using pushed_once_reachable
  by (rule no_lost_wakeup) (simp_all add: pushed_once_def init_System_def push_functor_def)

subsubsection \<open>Queued work gets done\<close>

text \<open>Both histories only grow, and nothing is called once the loop has ended.\<close>

lemma loop_step_history:
  "loop_step spawn S T \<Longrightarrow>
     (\<exists>more. queued T = queued S @ more) \<and> (\<exists>more. executed T = executed S @ more) \<and>
     (phase S = Stopped \<longrightarrow> phase T = Stopped \<and> executed T = executed S)"
  by (cases rule: loop_step.cases) auto

lemma loop_steps_history:
  assumes "(loop_step spawn)\<^sup>*\<^sup>* S T"
  shows "(\<exists>more. queued T = queued S @ more) \<and> (\<exists>more. executed T = executed S @ more) \<and>
     (phase S = Stopped \<longrightarrow> phase T = Stopped \<and> executed T = executed S)"
  using assms
proof (induction rule: rtranclp_induct)
  case (step T U)
  then show ?case using loop_step_history [OF step(2)] by fastforce
qed simp

lemma loop_progs_steps: "(loop_prog spawn)\<^sup>*\<^sup>* S T \<Longrightarrow> (loop_step spawn)\<^sup>*\<^sup>* S T"
  by (induction rule: rtranclp_induct) (auto intro: loop_prog_step rtranclp.rtrancl_into_rtrancl)

lemma loop_progs_inv: "(loop_prog spawn)\<^sup>*\<^sup>* S T \<Longrightarrow> loop_inv S \<Longrightarrow> loop_inv T"
  by (induction rule: rtranclp_induct) (auto intro: loop_prog_step loop_step_inv)

lemma round_finishes:
  "phase S = Run fs \<Longrightarrow> \<exists>T. (loop_prog spawn)\<^sup>*\<^sup>* S T \<and> phase T = Run [] \<and>
     executed T = executed S @ fs \<and> quitting (lp T) = quitting (lp S)"
proof (induction fs arbitrary: S)
  case Nil
  then show ?case by auto
next
  case (Cons f fs)
  let ?S = "S\<lparr>lp := fold (queueInLoop True) (spawn f) (lp S), phase := Run fs,
      queued := queued S @ spawn f, executed := executed S @ [f]\<rparr>"
  have one: "loop_prog spawn S ?S" using Cons.prems by (rule p_run)
  obtain T where "(loop_prog spawn)\<^sup>*\<^sup>* ?S T" "phase T = Run []"
      "executed T = executed ?S @ fs" "quitting (lp T) = quitting (lp ?S)"
    using Cons.IH [of ?S] by auto
  then show ?case using converse_rtranclp_into_rtranclp [of "loop_prog spawn", OF one, of T]
    by (auto simp: fold_queueInLoop)
qed

lemma handling_runs_pending:
  assumes "phase S = Handle w"
  shows "\<exists>T. (loop_prog spawn)\<^sup>*\<^sup>* S T \<and> executed T = executed S @ pendingFunctors (lp S)"
proof -
  obtain H where H: "(loop_prog spawn)\<^sup>*\<^sup>* S H" "phase H = Handle False"
      "executed H = executed S" "pendingFunctors (lp H) = pendingFunctors (lp S)"
  proof (cases w)
    case True
    then have "loop_prog spawn S (S\<lparr>lp := handleRead (lp S), phase := Handle False\<rparr>)"
      using assms by (simp add: p_handle)
    then show ?thesis using that [OF r_into_rtranclp] by (simp add: handleRead_def)
  next
    case False
    then show ?thesis using that [of S] assms by simp
  qed
  obtain fs L where b: "begin_pending (lp H) = (fs, L)" by (cases "begin_pending (lp H)")
  have fs: "fs = pendingFunctors (lp S)" using b H(4) by (simp add: begin_pending_def Let_def)
  have one: "loop_prog spawn H (H\<lparr>lp := L, phase := Run fs\<rparr>)" using H(2) b by (rule p_begin)
  obtain T where "(loop_prog spawn)\<^sup>*\<^sup>* (H\<lparr>lp := L, phase := Run fs\<rparr>) T" "executed T = executed H @ fs"
    using round_finishes [of "H\<lparr>lp := L, phase := Run fs\<rparr>" fs spawn] by auto
  then show ?thesis
    using rtranclp_trans [OF rtranclp.rtrancl_into_rtrancl [OF H(1) one], of T] H(3) fs by auto
qed

lemma polling_runs_pending:
  assumes "loop_inv S" and "phase S = Poll"
  shows "\<exists>T. (loop_prog spawn)\<^sup>*\<^sup>* S T \<and> executed T = executed S @ pendingFunctors (lp S)"
proof (cases "pendingFunctors (lp S) = []")
  case True
  then show ?thesis by auto
next
  case False
  then have due: "wakeupFd (lp S) > 0 \<or> inflight S > 0"
    using assms by (auto simp: loop_inv_def is_handling_def)
  obtain W where W: "(loop_prog spawn)\<^sup>*\<^sup>* S W" "phase W = Poll" "wakeupFd (lp W) > 0"
      "executed W = executed S" "pendingFunctors (lp W) = pendingFunctors (lp S)"
  proof (cases "wakeupFd (lp S) > 0")
    case True
    then show ?thesis using that [of S] assms(2) by simp
  next
    case False
    then have "loop_prog spawn S (S\<lparr>lp := wakeup (lp S), inflight := inflight S - 1\<rparr>)"
      using due by (intro p_wakeup) simp
    then show ?thesis using that [OF r_into_rtranclp] assms(2) by (simp add: wakeup_def)
  qed
  have one: "loop_prog spawn W (W\<lparr>phase := Handle True\<rparr>)" using W(2,3) by (rule p_poll)
  obtain T where "(loop_prog spawn)\<^sup>*\<^sup>* (W\<lparr>phase := Handle True\<rparr>) T"
      "executed T = executed W @ pendingFunctors (lp W)"
    using handling_runs_pending [of "W\<lparr>phase := Handle True\<rparr>" True spawn] by auto
  then show ?thesis
    using rtranclp_trans [OF rtranclp.rtrancl_into_rtrancl [OF W(1) one], of T] W(4,5) by auto
qed

lemma queued_work_gets_done:
  assumes "loop_inv S" and "phase S \<noteq> Stopped" and "quitting (lp S) \<longrightarrow> (\<nexists>fs. phase S = Run fs)"
  shows "\<exists>T more. (loop_prog spawn)\<^sup>*\<^sup>* S T \<and> executed T = queued S @ more"
proof (cases "phase S")
  case Poll
  then show ?thesis using polling_runs_pending [of S spawn] assms(1) by (auto simp: loop_inv_def)
next
  case (Handle w)
  then show ?thesis using handling_runs_pending [of S w spawn] assms(1) by (auto simp: loop_inv_def)
next
  case (Run fs)
  obtain R where R: "(loop_prog spawn)\<^sup>*\<^sup>* S R" "phase R = Run []" "\<not> quitting (lp R)"
    using round_finishes [OF Run, of spawn] Run assms(3) by auto
  let ?P = "R\<lparr>lp := end_pending (lp R), phase := Poll\<rparr>"
  have "loop_prog spawn R ?P" using p_end [OF R(2), of spawn] R(3) by simp
  with R(1) have toP: "(loop_prog spawn)\<^sup>*\<^sup>* S ?P" by (rule rtranclp.rtrancl_into_rtrancl)
  have inv: "loop_inv ?P" using toP assms(1) by (rule loop_progs_inv)
  obtain T where T: "(loop_prog spawn)\<^sup>*\<^sup>* ?P T" "executed T = executed ?P @ pendingFunctors (lp ?P)"
    using polling_runs_pending [OF inv, of spawn] by auto
  have all: "executed T = queued ?P" using T(2) inv by (simp add: loop_inv_def)
  obtain more where more: "queued ?P = queued S @ more"
    using loop_steps_history [OF loop_progs_steps [OF toP]] by blast
  show ?thesis using rtranclp_trans [OF toP T(1)] all more by (intro exI conjI) auto
next
  case Stopped
  then show ?thesis using assms(2) by simp
qed

text \<open>
  C25: Queued functors run in the order they were queued, none twice, and none is forgotten while the
  loop lives: at every moment of every interleaving the queued sequence is the executed one, then
  those of the current round, then those still pending, and both histories only grow. Unless the
  loop has ended, or was told to quit and is already in the round of functors that will be its last,
  everything queued so far can always be run by the program's own steps, where a poll
  returns only because the eventfd was written. After a \<open>quit\<close> the functors queued during that last
  round stay pending: once the loop has ended nothing is called any more.
\<close>

theorem queued_functors_run_in_order:
  assumes "loop_reachable spawn S"
  shows "queued S = executed S @ running (phase S) @ pendingFunctors (lp S) \<and>
    (phase S \<noteq> Stopped \<and> (quitting (lp S) \<longrightarrow> (\<nexists>fs. phase S = Run fs)) \<longrightarrow>
       (\<exists>T more. (loop_prog spawn)\<^sup>*\<^sup>* S T \<and> executed T = queued S @ more)) \<and>
    (\<forall>T. (loop_step spawn)\<^sup>*\<^sup>* S T \<longrightarrow>
       (\<exists>more. queued T = queued S @ more) \<and> (\<exists>more. executed T = executed S @ more) \<and>
       (phase S = Stopped \<longrightarrow> phase T = Stopped \<and> executed T = executed S))"
proof (intro conjI impI allI)
  note inv = reachable_loop_inv [OF assms]
  show "queued S = executed S @ running (phase S) @ pendingFunctors (lp S)"
    using inv by (simp add: loop_inv_def)
  show "\<exists>T more. (loop_prog spawn)\<^sup>*\<^sup>* S T \<and> executed T = queued S @ more"
    if "phase S \<noteq> Stopped \<and> (quitting (lp S) \<longrightarrow> (\<nexists>fs. phase S = Run fs))"
    using queued_work_gets_done [OF inv] that by blast
qed (use loop_steps_history in blast)+

lemma queued_functors_run_in_order_witness:
  "queued pushed_once = [1] \<and> (\<exists>T more. (loop_prog (\<lambda>_. []))\<^sup>*\<^sup>* pushed_once T \<and> executed T = [1] @ more)"
  using queued_functors_run_in_order [OF pushed_once_reachable]
  by (simp add: pushed_once_def init_System_def push_functor_def new_EventLoop_def)

text \<open>
  One \<open>doPendingFunctors\<close> runs the functors that were queued when it began; those that they queue
  stay for the next round, in order, one wakeup is written for each of them, and the flag
  \<open>callingPengdingChannel\<close> is cleared at the end.
\<close>

theorem doPendingFunctors_one_round:
  "pendingFunctors (doPendingFunctors (\<lambda>f. fold (queueInLoop True) (spawn f)) L) =
     concat (map spawn (pendingFunctors L)) \<and>
   wakeupFd (doPendingFunctors (\<lambda>f. fold (queueInLoop True) (spawn f)) L) =
     wakeupFd L + length (concat (map spawn (pendingFunctors L))) \<and>
   \<not> callingPengdingChannel (doPendingFunctors (\<lambda>f. fold (queueInLoop True) (spawn f)) L)"
  using doPendingFunctors_spawn [of spawn L] by simp

lemma loop_body_handleRead:
  "pendingFunctors L = [] \<Longrightarrow> \<not> quitting L \<Longrightarrow> loop_body run (replicate n handleRead) L = None"
proof (induction n arbitrary: L)
  case 0
  then show ?case by simp
next
  case (Suc n)
  let ?L = "doPendingFunctors run (handleRead L)"
  have "pendingFunctors ?L = []" and "\<not> quitting ?L"
    using Suc.prems by (simp_all add: doPendingFunctors_def loop_op_defs)
  then show ?case using Suc by simp
qed

text \<open>
  A \<open>quit\<close> that happens before \<open>loop\<close> is entered is lost: \<open>loop\<close> resets the flag, so with no
  functors queued it goes on waiting however many times it is woken up. (The destructor of
  \<open>EventLoopThread\<close> may quit the loop in this window.)
\<close>

theorem quit_before_loop_is_lost:
  assumes "pendingFunctors L = []"
  shows "loop run (replicate n handleRead) (quit t L) = None"
proof -
  have "loop_body run (replicate n handleRead) ((quit t L)\<lparr>looping := True, quitting := False\<rparr>) = None"
    using assms by (intro loop_body_handleRead) (simp_all add: loop_op_defs Let_def)
  then show ?thesis by (simp add: loop_def)
qed

lemma quit_before_loop_is_lost_witness:
  "loop (\<lambda>f. queueInLoop True f) (replicate 3 handleRead) (quit False (new_EventLoop :: nat EventLoop)) = None"
  by (rule quit_before_loop_is_lost) (simp add: new_EventLoop_def)

lemma loop_body_quits:
  assumes "\<not> quitting L" and "\<forall>h \<in> set hs. \<forall>K. \<not> quitting K \<longrightarrow> \<not> quitting (h K)"
    and "\<forall>f K. quitting (run f K) = quitting K"
  shows "\<exists>K. \<not> quitting K \<and> loop_body run (hs @ quit True # rest) L =
      Some (doPendingFunctors run (quit True K))"
  using assms(1,2)
proof (induction hs arbitrary: L)
  have run: "quitting (fold run fs K) = quitting K" for fs K
    using assms(3) by (induction fs arbitrary: K) simp_all
  note dpf = doPendingFunctors_def begin_pending_def end_pending_def
  case Nil
  have "quitting (doPendingFunctors run (quit True L))" by (simp add: dpf run quit_def)
  then show ?case using Nil.prems by (cases rest) auto
next
  case (Cons h hs)
  have run: "quitting (fold run fs K) = quitting K" for fs K
    using assms(3) by (induction fs arbitrary: K) simp_all
  have "\<not> quitting (doPendingFunctors run (h L))"
    using Cons.prems by (simp add: doPendingFunctors_def begin_pending_def end_pending_def run)
  then show ?case using Cons by simp
qed

text \<open>
  A \<open>quit\<close> from an event handler ends the loop in that very iteration, after the functors queued
  so far have run once more; whatever the later polls would have reported is not looked at.
\<close>

theorem quit_in_handler_ends_loop:
  assumes "\<forall>h \<in> set hs. \<forall>K. \<not> quitting K \<longrightarrow> \<not> quitting (h K)"
    and "\<forall>f K. quitting (run f K) = quitting K"
  shows "\<exists>K. \<not> quitting K \<and>
    (\<forall>rest. loop run (hs @ quit True # rest) L =
       Some ((doPendingFunctors run (quit True K))\<lparr>looping := False\<rparr>))"
proof -
  let ?L = "L\<lparr>looping := True, quitting := False\<rparr>"
  obtain K where K: "\<not> quitting K" "loop_body run (hs @ [quit True]) ?L = Some (doPendingFunctors run (quit True K))"
    using loop_body_quits [of ?L hs run "[]"] assms by auto
  have "loop_body run (hs @ quit True # rest) ?L = Some (doPendingFunctors run (quit True K))" for rest
  proof -
    have ext: "loop_body run xs M = Some N \<Longrightarrow> loop_body run (xs @ ys) M = Some N" for xs ys M N
      by (induction xs arbitrary: M) (cases ys; auto split: if_splits)+
    show ?thesis using ext [OF K(2), of rest] by simp
  qed
  then show ?thesis using K(1) by (auto simp: loop_def)
qed

lemma quit_in_handler_ends_loop_witness:
  "\<exists>K. \<not> quitting K \<and>
     (\<forall>rest. loop (queueInLoop True) ([handleRead] @ quit True # rest) (new_EventLoop :: nat EventLoop) =
        Some ((doPendingFunctors (queueInLoop True) (quit True K))\<lparr>looping := False\<rparr>))"
  by (rule quit_in_handler_ends_loop) (simp_all add: handleRead_def)

end
