(* ===== verification/Timer_Queue.thy ===== *)
theory Timer_Queue
  imports Base_Time "HOL-Library.Product_Lexorder"
begin

text \<open>
  \<^verbatim>\<open>Timer/Timer.h\<close>, \<^verbatim>\<open>Timer/Timer.cc\<close>, \<^verbatim>\<open>Timer/TimerQueue.h\<close>, \<^verbatim>\<open>Timer/TimerQueue.cc\<close>: the timers
  of one event loop.

  Timer objects live in a store from addresses to objects (\<open>objects\<close>); \<open>new\<close> and \<open>delete\<close> are
  explicit, and using an address with no object is a fault. The \<open>std::set\<close> of pairs
  (expiration, address) is a strictly sorted list under the lexicographic order. What the queue
  depends on from outside are arguments: \<open>alloc\<close>, the address \<open>new\<close> returns; \<open>clk\<close>, the time stamp
  of the n-th reading of the clock; and \<open>adds cb\<close>, the timers that the callback \<open>cb\<close> adds when it
  runs (\<open>AddTimer\<close> is the only public operation it can use). \<open>timerfd\<close> is the last
  \<open>timerfd_settime\<close> call: when it was made and the relative value it set.
\<close>

subsection \<open>State and operations\<close>

record 'cb Timer =
  callback :: 'cb
  expiration :: TimeStamp
  interval :: real
  repeat :: bool

definition new_Timer :: "TimeStamp \<Rightarrow> 'cb \<Rightarrow> real \<Rightarrow> 'cb Timer" where
  "new_Timer timer cb intv =
     \<lparr>callback = cb, expiration = timer, interval = intv, repeat = (intv > 0)\<rparr>"

definition Restart :: "TimeStamp \<Rightarrow> 'cb Timer \<Rightarrow> 'cb Timer" where
  "Restart now tm = tm\<lparr>expiration := AddTime now (interval tm)\<rparr>"

type_synonym TimerEntry = "TimeStamp \<times> nat"

record 'cb TimerQueue =
  timers :: "TimerEntry list"
  activeTimers :: "TimerEntry list"
  objects :: "nat \<rightharpoonup> 'cb Timer"
  timerfd :: "(TimeStamp \<times> timespec) option"
  readings :: nat
  fired :: "'cb list"

definition new_TimerQueue :: "'cb TimerQueue" where
  "new_TimerQueue =
     \<lparr>timers = [], activeTimers = [], objects = Map.empty, timerfd = None, readings = 0, fired = []\<rparr>"

definition read_clock :: "(nat \<Rightarrow> TimeStamp) \<Rightarrow> 'cb TimerQueue \<Rightarrow> TimeStamp \<times> 'cb TimerQueue" where
  "read_clock clk q = (clk (readings q), q\<lparr>readings := readings q + 1\<rparr>)"

text \<open>The \<open>it_value\<close> that \<open>ResetTimer\<close> computes from the expiration and the current time.\<close>

definition timer_value :: "TimeStamp \<Rightarrow> TimeStamp \<Rightarrow> timespec" where
  "timer_value expire now =
     (let diff = microSecond expire - microSecond now;
          seconds_diff = (if diff < 100 then 100 else diff)
      in \<lparr>tv_sec = c_div seconds_diff kMicroSecond2Second,
          tv_nsec = c_mod seconds_diff kMicroSecond2Second * 1000\<rparr>)"

definition ResetTimer :: "(nat \<Rightarrow> TimeStamp) \<Rightarrow> nat \<Rightarrow> 'cb TimerQueue \<Rightarrow> fault + 'cb TimerQueue" where
  "ResetTimer clk p q =
     (case objects q p of
        None \<Rightarrow> Inl OutOfBounds
      | Some tm \<Rightarrow>
          (let (now, q1) = read_clock clk q
           in Inr (q1\<lparr>timerfd := Some (now, timer_value (expiration tm) now)\<rparr>)))"

definition Insert :: "nat \<Rightarrow> 'cb TimerQueue \<Rightarrow> fault + (bool \<times> 'cb TimerQueue)" where
  "Insert p q =
     (case objects q p of
        None \<Rightarrow> Inl OutOfBounds
      | Some tm \<Rightarrow>
          (let reset_instantly = (timers q = [] \<or> expiration tm < fst (hd (timers q)))
           in Inr (reset_instantly,
                   q\<lparr>timers := insort_insert (expiration tm, p) (timers q)\<rparr>)))"

definition AddTimerInloop :: "(nat \<Rightarrow> TimeStamp) \<Rightarrow> nat \<Rightarrow> 'cb TimerQueue \<Rightarrow> fault + 'cb TimerQueue" where
  "AddTimerInloop clk p q =
     (case Insert p q of
        Inl f \<Rightarrow> Inl f
      | Inr (resetInstant, q1) \<Rightarrow> if resetInstant then ResetTimer clk p q1 else Inr q1)"

text \<open>\<open>AddTimer\<close> called on the loop's own thread, where \<open>runInLoop\<close> is a plain call.\<close>

definition AddTimer ::
  "((nat \<rightharpoonup> 'cb Timer) \<Rightarrow> nat) \<Rightarrow> (nat \<Rightarrow> TimeStamp) \<Rightarrow> TimeStamp \<times> 'cb \<times> real \<Rightarrow>
   'cb TimerQueue \<Rightarrow> fault + 'cb TimerQueue" where
  "AddTimer alloc clk req q =
     (let (timestamp, cb, intv) = req;
          p = alloc (objects q);
          q1 = q\<lparr>objects := (objects q)(p \<mapsto> new_Timer timestamp cb intv)\<rparr>
      in AddTimerInloop clk p q1)"

text \<open>The three timer functions of \<open>EventLoop\<close>; \<open>t\<close> is the time they read.\<close>

definition RunAt ::
  "((nat \<rightharpoonup> 'cb Timer) \<Rightarrow> nat) \<Rightarrow> (nat \<Rightarrow> TimeStamp) \<Rightarrow> TimeStamp \<Rightarrow> 'cb \<Rightarrow>
   'cb TimerQueue \<Rightarrow> fault + 'cb TimerQueue" where
  "RunAt alloc clk ts cb q = AddTimer alloc clk (ts, cb, 0) q"

definition RunAfter ::
  "((nat \<rightharpoonup> 'cb Timer) \<Rightarrow> nat) \<Rightarrow> (nat \<Rightarrow> TimeStamp) \<Rightarrow> real \<Rightarrow> 'cb \<Rightarrow>
   'cb TimerQueue \<Rightarrow> fault + 'cb TimerQueue" where
  "RunAfter alloc clk wait_time cb q =
     (let (t, q1) = read_clock clk q in RunAt alloc clk (AddTime t wait_time) cb q1)"

definition RunEvery ::
  "((nat \<rightharpoonup> 'cb Timer) \<Rightarrow> nat) \<Rightarrow> (nat \<Rightarrow> TimeStamp) \<Rightarrow> real \<Rightarrow> 'cb \<Rightarrow>
   'cb TimerQueue \<Rightarrow> fault + 'cb TimerQueue" where
  "RunEvery alloc clk intv cb q =
     (let (t, q1) = read_clock clk q in AddTimer alloc clk (AddTime t intv, cb, intv) q1)"

fun AddTimers ::
  "((nat \<rightharpoonup> 'cb Timer) \<Rightarrow> nat) \<Rightarrow> (nat \<Rightarrow> TimeStamp) \<Rightarrow> (TimeStamp \<times> 'cb \<times> real) list \<Rightarrow>
   'cb TimerQueue \<Rightarrow> fault + 'cb TimerQueue" where
  "AddTimers alloc clk [] q = Inr q"
| "AddTimers alloc clk (req # reqs) q =
     (case AddTimer alloc clk req q of Inl f \<Rightarrow> Inl f | Inr q1 \<Rightarrow> AddTimers alloc clk reqs q1)"

text \<open>The loop of \<open>HandleRead\<close> that runs the expired timers.\<close>

fun run_active ::
  "((nat \<rightharpoonup> 'cb Timer) \<Rightarrow> nat) \<Rightarrow> (nat \<Rightarrow> TimeStamp) \<Rightarrow> ('cb \<Rightarrow> (TimeStamp \<times> 'cb \<times> real) list) \<Rightarrow>
   TimerEntry list \<Rightarrow> 'cb TimerQueue \<Rightarrow> fault + 'cb TimerQueue" where
  "run_active alloc clk adds [] q = Inr q"
| "run_active alloc clk adds (it # its) q =
     (case objects q (snd it) of
        None \<Rightarrow> Inl OutOfBounds
      | Some tm \<Rightarrow>
          (case AddTimers alloc clk (adds (callback tm)) (q\<lparr>fired := fired q @ [callback tm]\<rparr>) of
             Inl f \<Rightarrow> Inl f
           | Inr q1 \<Rightarrow> run_active alloc clk adds its q1))"

text \<open>The loop of \<open>ResetTimers\<close>, and the function.\<close>

fun restart_active :: "(nat \<Rightarrow> TimeStamp) \<Rightarrow> TimerEntry list \<Rightarrow> 'cb TimerQueue \<Rightarrow> fault + 'cb TimerQueue" where
  "restart_active clk [] q = Inr q"
| "restart_active clk (it # its) q =
     (case objects q (snd it) of
        None \<Rightarrow> Inl OutOfBounds
      | Some tm \<Rightarrow>
          if repeat tm
          then (let (now, q1) = read_clock clk q;
                    q2 = q1\<lparr>objects := (objects q1)(snd it \<mapsto> Restart now tm)\<rparr>
                in case Insert (snd it) q2 of
                     Inl f \<Rightarrow> Inl f
                   | Inr (_, q3) \<Rightarrow> restart_active clk its q3)
          else restart_active clk its (q\<lparr>objects := (objects q)(snd it := None)\<rparr>))"

definition ResetTimers :: "(nat \<Rightarrow> TimeStamp) \<Rightarrow> 'cb TimerQueue \<Rightarrow> fault + 'cb TimerQueue" where
  "ResetTimers clk q =
     (case restart_active clk (activeTimers q) q of
        Inl f \<Rightarrow> Inl f
      | Inr q1 \<Rightarrow> if timers q1 \<noteq> [] then ResetTimer clk (snd (hd (timers q1))) q1 else Inr q1)"

definition UINTPTR_MAX :: nat where
  "UINTPTR_MAX = 2 ^ 64 - 1"

definition HandleRead ::
  "((nat \<rightharpoonup> 'cb Timer) \<Rightarrow> nat) \<Rightarrow> (nat \<Rightarrow> TimeStamp) \<Rightarrow> ('cb \<Rightarrow> (TimeStamp \<times> 'cb \<times> real) list) \<Rightarrow>
   'cb TimerQueue \<Rightarrow> fault + 'cb TimerQueue" where
  "HandleRead alloc clk adds q =
     (let (expiration_time, q1) = read_clock clk q;
          before = (\<lambda>e. e < (expiration_time, UINTPTR_MAX));
          q2 = q1\<lparr>activeTimers := takeWhile before (timers q1),
                  timers := dropWhile before (timers q1)\<rparr>
      in case run_active alloc clk adds (activeTimers q2) q2 of
           Inl f \<Rightarrow> Inl f
         | Inr q3 \<Rightarrow> ResetTimers clk q3)"

text \<open>The destructor deletes the timers that are still queued.\<close>

fun delete_timers :: "TimerEntry list \<Rightarrow> (nat \<rightharpoonup> 'cb Timer) \<Rightarrow> fault + (nat \<rightharpoonup> 'cb Timer)" where
  "delete_timers [] h = Inr h"
| "delete_timers (it # its) h =
     (case h (snd it) of None \<Rightarrow> Inl OutOfBounds | Some _ \<Rightarrow> delete_timers its (h(snd it := None)))"

definition TimerQueue_destroy :: "'cb TimerQueue \<Rightarrow> fault + (nat \<rightharpoonup> 'cb Timer)" where
  "TimerQueue_destroy q = delete_timers (timers q) (objects q)"

subsection \<open>The value given to timerfd_settime\<close>

lemma timer_value_ok:
  "nanos (timer_value e now) = 1000 * max 100 (microSecond e - microSecond now)"
  "0 \<le> tv_nsec (timer_value e now)" "tv_nsec (timer_value e now) < kNanoSeconds"
  "0 \<le> tv_sec (timer_value e now)" "nanos (timer_value e now) \<ge> 100000"
proof -
  define d where "d = max 100 (microSecond e - microSecond now)"
  have pos: "100 \<le> d" by (simp add: d_def)
  have "(if microSecond e - microSecond now < 100 then 100 else microSecond e - microSecond now) = d"
    by (simp add: d_def)
  then have v: "timer_value e now = \<lparr>tv_sec = d div 1000000, tv_nsec = d mod 1000000 * 1000\<rparr>"
    using pos by (simp only: timer_value_def Let_def) (simp add: kMicroSecond2Second_def c_div_nonneg c_mod_nonneg)
  have "d mod 1000000 < 1000000" by (rule pos_mod_bound) simp
  then show "tv_nsec (timer_value e now) < kNanoSeconds" unfolding v by (simp add: kNanoSeconds_def)
  show "0 \<le> tv_nsec (timer_value e now)" "0 \<le> tv_sec (timer_value e now)"
    unfolding v using pos by (simp_all add: pos_imp_zdiv_nonneg_iff)
  have "d div 1000000 * 1000000 + d mod 1000000 = d" by (rule div_mult_mod_eq)
  then have eq: "nanos (timer_value e now) = 1000 * d"
    unfolding v nanos_def kNanoSeconds_def timespec.select_convs by linarith
  then show "nanos (timer_value e now) = 1000 * max 100 (microSecond e - microSecond now)"
    by (simp only: d_def)
  show "nanos (timer_value e now) \<ge> 100000" using eq pos by simp
qed

subsection \<open>Invariant\<close>

text \<open>
  The set is strictly sorted, its entries carry the expiration of the live object they point to,
  no object has two entries, and \<open>act\<close> are the addresses of further live objects: those of the
  expired timers while \<open>HandleRead\<close> works on them. No other object exists, so nothing leaks.
\<close>

definition entries_ok :: "'cb TimerQueue \<Rightarrow> bool" where
  "entries_ok q \<longleftrightarrow>
     (\<forall>e p. (e, p) \<in> set (timers q) \<longrightarrow> (\<exists>tm. objects q p = Some tm \<and> expiration tm = e))"

definition tq_inv :: "nat list \<Rightarrow> 'cb TimerQueue \<Rightarrow> bool" where
  "tq_inv act q \<longleftrightarrow>
     sorted (timers q) \<and> distinct (map snd (timers q) @ act) \<and> entries_ok q \<and>
     dom (objects q) = set (map snd (timers q) @ act)"

definition fresh_alloc :: "((nat \<rightharpoonup> 'cb Timer) \<Rightarrow> nat) \<Rightarrow> bool" where
  "fresh_alloc alloc \<longleftrightarrow> (\<forall>h. finite (dom h) \<longrightarrow> h (alloc h) = None)"

text \<open>The descriptor is armed for the earliest timer.\<close>

definition armed :: "'cb TimerQueue \<Rightarrow> bool" where
  "armed q \<longleftrightarrow>
     (timers q \<noteq> [] \<longrightarrow>
        (\<exists>t. timerfd q = Some (t, timer_value (fst (hd (timers q))) t)))"

lemma tq_inv_new [inv_rules]: "tq_inv [] new_TimerQueue"
  by (simp add: tq_inv_def new_TimerQueue_def entries_ok_def)

lemma armed_new [inv_rules]: "armed new_TimerQueue"
  by (simp add: armed_def new_TimerQueue_def)

lemma tq_inv_finite: "tq_inv act q \<Longrightarrow> finite (dom (objects q))"
  by (simp add: tq_inv_def)

lemma hd_insort_insert:
  fixes x :: TimerEntry
  assumes "sorted xs"
  shows "fst (hd (insort_insert x xs)) = (if xs = [] \<or> fst x < fst (hd xs) then fst x else fst (hd xs))"
  using assms
  by (cases xs) (auto simp: insort_insert_key_def insort_is_Cons less_prod_def' less_eq_prod_def
      prod_le_def not_le)

subsection \<open>Inserting and adding\<close>

lemma distinct_map_insort:
  "distinct (map snd (insort x xs)) \<longleftrightarrow> snd x \<notin> snd ` set xs \<and> distinct (map snd xs)"
  for x :: TimerEntry
  by (induction xs) (auto simp: set_insort_key)

lemma Insert_ok:
  assumes inv: "tq_inv (p # act) q" and obj: "objects q p = Some tm"
  shows "Insert p q =
      Inr (timers q = [] \<or> expiration tm < fst (hd (timers q)),
           q\<lparr>timers := insort (expiration tm, p) (timers q)\<rparr>)" (is "_ = Inr (?r, ?q')")
    and "tq_inv act (q\<lparr>timers := insort (expiration tm, p) (timers q)\<rparr>)"
    and "fst (hd (insort (expiration tm, p) (timers q))) =
      (if timers q = [] \<or> expiration tm < fst (hd (timers q)) then expiration tm
       else fst (hd (timers q)))"
proof -
  have p: "p \<notin> snd ` set (timers q)" and "sorted (timers q)"
    using inv by (auto simp: tq_inv_def)
  then have new: "(expiration tm, p) \<notin> set (timers q)" by force
  then have ins: "insort_insert (expiration tm, p) (timers q) = insort (expiration tm, p) (timers q)"
    by (simp add: insort_insert_insort)
  then show "Insert p q = Inr (?r, ?q')" using obj by (simp add: Insert_def)
  show "fst (hd (insort (expiration tm, p) (timers q))) =
      (if ?r then expiration tm else fst (hd (timers q)))"
    using hd_insort_insert [OF \<open>sorted (timers q)\<close>, of "(expiration tm, p)"] ins by simp
  show "tq_inv act ?q'"
    using inv obj p unfolding tq_inv_def entries_ok_def
    by (auto simp: sorted_insort distinct_map_insort set_insort_key)
qed

lemma AddTimerInloop_ok:
  assumes inv: "tq_inv (p # act) q" and obj: "objects q p = Some tm"
  obtains q' where "AddTimerInloop clk p q = Inr q'" and "tq_inv act q'"
    and "timers q' = insort (expiration tm, p) (timers q)" and "objects q' = objects q"
    and "fired q' = fired q" and "activeTimers q' = activeTimers q" and "armed q \<Longrightarrow> armed q'"
    and "readings q \<le> readings q'"
proof -
  let ?q1 = "q\<lparr>timers := insort (expiration tm, p) (timers q)\<rparr>"
  let ?reset = "timers q = [] \<or> expiration tm < fst (hd (timers q))"
  note ins = Insert_ok [OF inv obj]
  show ?thesis
  proof (cases ?reset)
    case True
    let ?q' = "?q1\<lparr>readings := readings q + 1,
      timerfd := Some (clk (readings q), timer_value (expiration tm) (clk (readings q)))\<rparr>"
    have "AddTimerInloop clk p q = Inr ?q'"
      using ins(1) True obj by (simp add: AddTimerInloop_def ResetTimer_def read_clock_def)
    moreover have "tq_inv act ?q'" using ins(2) by (simp add: tq_inv_def entries_ok_def)
    moreover have "armed ?q'" using ins(3) True by (simp add: armed_def)
    moreover have "readings q \<le> readings ?q'" by simp
    ultimately show ?thesis by (intro that) (assumption | simp)+
  next
    case False
    then have "AddTimerInloop clk p q = Inr ?q1" using ins(1) by (simp add: AddTimerInloop_def)
    moreover have "armed ?q1" if "armed q" using that ins(3) False by (simp add: armed_def)
    moreover have "readings q \<le> readings ?q1" by simp
    ultimately show ?thesis using ins(2) by (intro that [of ?q1]) (assumption | simp)+
  qed
qed

lemma AddTimer_ok:
  assumes inv: "tq_inv act q" and fresh: "fresh_alloc alloc"
  obtains q' where "AddTimer alloc clk (ts, cb, i) q = Inr q'" and "tq_inv act q'"
    and "timers q' = insort (ts, alloc (objects q)) (timers q)"
    and "objects q' = (objects q)(alloc (objects q) \<mapsto> new_Timer ts cb i)"
    and "objects q (alloc (objects q)) = None"
    and "fired q' = fired q" and "activeTimers q' = activeTimers q" and "armed q \<Longrightarrow> armed q'"
    and "readings q \<le> readings q'"
proof -
  let ?p = "alloc (objects q)"
  let ?q1 = "q\<lparr>objects := (objects q)(?p \<mapsto> new_Timer ts cb i)\<rparr>"
  have free: "objects q ?p = None"
    using fresh tq_inv_finite [OF inv] by (simp add: fresh_alloc_def)
  then have "?p \<notin> set (map snd (timers q) @ act)"
    using inv unfolding tq_inv_def by (metis domIff)
  moreover have "entries_ok ?q1"
    using inv free by (fastforce simp: tq_inv_def entries_ok_def)
  ultimately have inv1: "tq_inv (?p # act) ?q1" using inv by (auto simp: tq_inv_def)
  have obj: "objects ?q1 ?p = Some (new_Timer ts cb i)" by simp
  have arm: "armed ?q1 = armed q" by (simp add: armed_def)
  show ?thesis
    by (rule AddTimerInloop_ok [OF inv1 obj, of clk], rule that)
      (use free arm in \<open>simp_all add: AddTimer_def new_Timer_def\<close>)
qed

text \<open>The store with further objects at addresses \<open>ps\<close> that were free.\<close>

definition extended :: "(nat \<rightharpoonup> 'cb Timer) \<Rightarrow> nat list \<Rightarrow> 'cb Timer list \<Rightarrow> (nat \<rightharpoonup> 'cb Timer) \<Rightarrow> bool" where
  "extended h ps ts h' \<longleftrightarrow> distinct ps \<and> length ps = length ts \<and> set ps \<inter> dom h = {} \<and>
     h' = h ++ map_of (zip ps ts)"

definition requested_timers :: "(TimeStamp \<times> 'cb \<times> real) list \<Rightarrow> 'cb Timer list" where
  "requested_timers reqs = map (\<lambda>(ts, cb, i). new_Timer ts cb i) reqs"

lemma extended_refl: "extended h [] [] h"
  by (simp add: extended_def)

lemma extended_le: "extended h ps ts h' \<Longrightarrow> h \<subseteq>\<^sub>m h'"
  by (auto simp: extended_def map_le_def map_add_def disjoint_iff dest!: map_of_SomeD set_zip_leftD
      split: option.split)

lemma extended_dom: "extended h ps ts h' \<Longrightarrow> dom h' = dom h \<union> set ps"
  by (auto simp: extended_def)

lemma extended_trans:
  assumes "extended h ps ts h1" and "extended h1 ps' ts' h2"
  shows "extended h (ps @ ps') (ts @ ts') h2"
proof -
  have "dom (map_of (zip ps ts)) = set ps" "dom (map_of (zip ps' ts')) = set ps'"
    using assms by (simp_all add: extended_def)
  moreover have disj: "set ps' \<inter> (dom h \<union> set ps) = {}"
    using assms extended_dom [OF assms(1)] by (simp add: extended_def)
  ultimately have "map_of (zip ps ts) ++ map_of (zip ps' ts') = map_of (zip ps' ts') ++ map_of (zip ps ts)"
    by (intro map_add_comm) auto
  then have "h ++ map_of (zip ps ts) ++ map_of (zip ps' ts') = h ++ map_of (zip (ps @ ps') (ts @ ts'))"
    using assms(1) by (simp add: extended_def flip: map_add_assoc)
  then show ?thesis using assms disj by (auto simp: extended_def)
qed

lemma AddTimers_ok:
  assumes "tq_inv act q" and "fresh_alloc alloc"
  shows "\<exists>q' ps. AddTimers alloc clk reqs q = Inr q' \<and> tq_inv act q' \<and>
    extended (objects q) ps (requested_timers reqs) (objects q') \<and>
    fired q' = fired q \<and> activeTimers q' = activeTimers q \<and> (armed q \<longrightarrow> armed q') \<and> readings q \<le> readings q'"
  using assms(1)
proof (induction reqs arbitrary: q)
  case Nil
  then show ?case using extended_refl by (auto simp: requested_timers_def)
next
  case (Cons req reqs)
  obtain ts cb i where req: "req = (ts, cb, i)" by (cases req)
  obtain q1 where q1: "AddTimer alloc clk (ts, cb, i) q = Inr q1" "tq_inv act q1"
      "objects q1 = (objects q)(alloc (objects q) \<mapsto> new_Timer ts cb i)"
      "objects q (alloc (objects q)) = None" "fired q1 = fired q"
      "activeTimers q1 = activeTimers q" "armed q \<Longrightarrow> armed q1" "readings q \<le> readings q1"
    using AddTimer_ok [OF Cons.prems assms(2), of clk ts cb i] by metis
  have "extended (objects q) [alloc (objects q)] [new_Timer ts cb i] (objects q1)"
    using q1(3,4) by (auto simp: extended_def)
  moreover from Cons.IH [OF q1(2)] obtain q' ps where q': "AddTimers alloc clk reqs q1 = Inr q'" "tq_inv act q'"
      "extended (objects q1) ps (requested_timers reqs) (objects q')" "fired q' = fired q1"
      "activeTimers q' = activeTimers q1" "armed q1 \<longrightarrow> armed q'" "readings q1 \<le> readings q'"
    by blast
  ultimately have "extended (objects q) ([alloc (objects q)] @ ps) ([new_Timer ts cb i] @ requested_timers reqs) (objects q')"
    by (intro extended_trans)
  then have "extended (objects q) (alloc (objects q) # ps) (requested_timers (req # reqs)) (objects q')"
    using req by (simp add: requested_timers_def)
  then show ?case using q1(1,5-8) q' req by (intro exI [of _ q'] exI [of _ "alloc (objects q) # ps"]) auto
qed

subsection \<open>Running and restarting the expired timers\<close>

text \<open>The callbacks of the entries \<open>its\<close>, and the timers that running them adds.\<close>

definition callbacks_of :: "'cb TimerQueue \<Rightarrow> TimerEntry list \<Rightarrow> 'cb list" where
  "callbacks_of q its = map (\<lambda>it. callback (the (objects q (snd it)))) its"

definition timers_added :: "('cb \<Rightarrow> (TimeStamp \<times> 'cb \<times> real) list) \<Rightarrow> 'cb list \<Rightarrow> 'cb Timer list" where
  "timers_added adds cbs = concat (map (\<lambda>cb. requested_timers (adds cb)) cbs)"

lemma run_active_ok:
  assumes "tq_inv act q" and "fresh_alloc alloc" and "snd ` set its \<subseteq> set act"
  shows "\<exists>q' ps. run_active alloc clk adds its q = Inr q' \<and> tq_inv act q' \<and>
    extended (objects q) ps (timers_added adds (callbacks_of q its)) (objects q') \<and>
    fired q' = fired q @ callbacks_of q its \<and>
    activeTimers q' = activeTimers q \<and> readings q \<le> readings q'"
  using assms(1,3)
proof (induction its arbitrary: q)
  case Nil
  then show ?case using extended_refl by (auto simp: callbacks_of_def timers_added_def)
next
  case (Cons it its)
  then have "snd it \<in> dom (objects q)" by (auto simp: tq_inv_def)
  then obtain tm where tm: "objects q (snd it) = Some tm" by auto
  let ?q1 = "q\<lparr>fired := fired q @ [callback tm]\<rparr>"
  have "tq_inv act ?q1" using Cons.prems(1) by (simp add: tq_inv_def entries_ok_def)
  from AddTimers_ok [OF this assms(2)] obtain q2 ps where q2: "tq_inv act q2"
      "AddTimers alloc clk (adds (callback tm)) ?q1 = Inr q2"
      "extended (objects q) ps (requested_timers (adds (callback tm))) (objects q2)"
      "fired q2 = fired q @ [callback tm]" "activeTimers q2 = activeTimers q" "readings q \<le> readings q2"
    by fastforce
  from Cons.IH [OF q2(1)] Cons.prems(2) obtain q' ps' where q': "run_active alloc clk adds its q2 = Inr q'"
      "tq_inv act q'" "extended (objects q2) ps' (timers_added adds (callbacks_of q2 its)) (objects q')"
      "fired q' = fired q2 @ callbacks_of q2 its" "activeTimers q' = activeTimers q2" "readings q2 \<le> readings q'"
    by auto
  have "objects q2 (snd x) = objects q (snd x)" if "x \<in> set its" for x
  proof -
    have "snd x \<in> dom (objects q)" using that Cons.prems by (auto simp: tq_inv_def)
    then show ?thesis using extended_le [OF q2(3)] by (simp add: map_le_def)
  qed
  then have same: "callbacks_of q2 its = callbacks_of q its" by (simp add: callbacks_of_def)
  have cbs: "callbacks_of q (it # its) = callback tm # callbacks_of q its" using tm by (simp add: callbacks_of_def)
  have "extended (objects q) (ps @ ps') (timers_added adds (callbacks_of q (it # its))) (objects q')"
    using extended_trans [OF q2(3) q'(3)] unfolding cbs same by (simp add: timers_added_def)
  moreover have "fired q' = fired q @ callbacks_of q (it # its)" using q2 q' unfolding cbs same by simp
  ultimately show ?case using tm q2 q' by (intro exI [of _ q'] exI [of _ "ps @ ps'"]) simp
qed

text \<open>
  What \<open>ResetTimers\<close> makes of the objects of the expired timers: a periodic one is restarted from a reading of the
  clock not before the \<open>n\<close>-th, any other is gone.
\<close>

definition reset_object :: "(nat \<Rightarrow> TimeStamp) \<Rightarrow> nat \<Rightarrow> 'cb Timer \<Rightarrow> 'cb Timer option \<Rightarrow> bool" where
  "reset_object clk n tm r \<longleftrightarrow>
     (if repeat tm then (\<exists>k \<ge> n. r = Some (Restart (clk k) tm)) else r = None)"

definition objects_reset ::
  "(nat \<Rightarrow> TimeStamp) \<Rightarrow> nat \<Rightarrow> nat set \<Rightarrow> (nat \<rightharpoonup> 'cb Timer) \<Rightarrow> (nat \<rightharpoonup> 'cb Timer) \<Rightarrow> bool" where
  "objects_reset clk n ps h h' \<longleftrightarrow>
     (\<forall>p. if p \<in> ps then (\<exists>tm. h p = Some tm \<and> reset_object clk n tm (h' p)) else h' p = h p)"

lemma reset_object_mono: "reset_object clk n tm r \<Longrightarrow> m \<le> n \<Longrightarrow> reset_object clk m tm r"
  by (auto simp: reset_object_def split: if_splits intro: order_trans)

lemma objects_reset_mono:
  assumes "objects_reset clk n ps h h'" and "m \<le> n"
  shows "objects_reset clk m ps h h'"
  unfolding objects_reset_def
proof
  fix p
  from assms(1) have "if p \<in> ps then (\<exists>tm. h p = Some tm \<and> reset_object clk n tm (h' p)) else h' p = h p"
    unfolding objects_reset_def by blast
  then show "if p \<in> ps then (\<exists>tm. h p = Some tm \<and> reset_object clk m tm (h' p)) else h' p = h p"
    using reset_object_mono [OF _ assms(2)] by (cases "p \<in> ps") auto
qed

lemma objects_reset_cons:
  assumes "objects_reset clk n ps (h(p := r)) h'" and "p \<notin> ps" and "h p = Some tm"
    and "reset_object clk m tm r" and "m \<le> n"
  shows "objects_reset clk m (insert p ps) h h'"
  unfolding objects_reset_def
proof
  fix x
  have x: "if x \<in> ps then (\<exists>tm. (h(p := r)) x = Some tm \<and> reset_object clk n tm (h' x)) else h' x = (h(p := r)) x"
    using assms(1) unfolding objects_reset_def by blast
  show "if x \<in> insert p ps then (\<exists>tm. h x = Some tm \<and> reset_object clk m tm (h' x)) else h' x = h x"
  proof (cases "x = p")
    case True
    then show ?thesis using x assms(2-4) by simp
  next
    case False
    then show ?thesis using x reset_object_mono [OF _ assms(5)] by (auto split: if_splits)
  qed
qed

lemma restart_active_ok:
  assumes "tq_inv (map snd its) q"
  shows "\<exists>q'. restart_active clk its q = Inr q' \<and> tq_inv [] q' \<and> fired q' = fired q \<and>
    objects_reset clk (readings q) (snd ` set its) (objects q) (objects q')"
  using assms
proof (induction its arbitrary: q)
  case Nil
  then show ?case by (simp add: objects_reset_def)
next
  case (Cons it its)
  let ?p = "snd it"
  have "?p \<in> dom (objects q)" and new: "?p \<notin> snd ` set (timers q)" and dist: "?p \<notin> snd ` set its"
    using Cons.prems by (auto simp: tq_inv_def)
  then obtain tm where tm: "objects q ?p = Some tm" by auto
  have inv: "tq_inv (?p # map snd its) q" using Cons.prems by simp
  show ?case
  proof (cases "repeat tm")
    case True
    let ?tm = "Restart (clk (readings q)) tm"
    let ?q2 = "q\<lparr>readings := readings q + 1, objects := (objects q)(?p \<mapsto> ?tm)\<rparr>"
    have "tq_inv (?p # map snd its) ?q2"
      using inv new tm unfolding tq_inv_def entries_ok_def by (auto simp: image_iff)
    note ins = Insert_ok(1,2) [OF this, of ?tm]
    let ?q3 = "?q2\<lparr>timers := insort (expiration ?tm, ?p) (timers ?q2)\<rparr>"
    have "tq_inv (map snd its) ?q3" by (rule ins(2)) simp
    from Cons.IH [OF this] obtain q' where q': "restart_active clk its ?q3 = Inr q'" "tq_inv [] q'" "fired q' = fired ?q3"
      "objects_reset clk (readings ?q3) (snd ` set its) (objects ?q3) (objects q')" by blast
    have run: "restart_active clk (it # its) q = Inr q'" using ins(1) q'(1) tm True by (simp add: read_clock_def)
    have r: "objects_reset clk (readings q + 1) (snd ` set its) ((objects q)(?p := Some ?tm)) (objects q')"
      using q'(4) by simp
    have "reset_object clk (readings q) tm (Some ?tm)" using True by (auto simp: reset_object_def)
    from objects_reset_cons [OF r dist tm this] show ?thesis using q' run by simp
  next
    case False
    let ?q1 = "q\<lparr>objects := (objects q)(?p := None)\<rparr>"
    have "tq_inv (map snd its) ?q1"
      using inv new unfolding tq_inv_def entries_ok_def by (auto simp: image_iff)
    from Cons.IH [OF this] obtain q' where q': "restart_active clk its ?q1 = Inr q'" "tq_inv [] q'" "fired q' = fired ?q1"
      "objects_reset clk (readings ?q1) (snd ` set its) (objects ?q1) (objects q')" by blast
    have run: "restart_active clk (it # its) q = Inr q'" using q'(1) tm False by simp
    have r: "objects_reset clk (readings q) (snd ` set its) ((objects q)(?p := None)) (objects q')"
      using q'(4) by simp
    have "reset_object clk (readings q) tm None" using False by (simp add: reset_object_def)
    from objects_reset_cons [OF r dist tm this] show ?thesis using q' run by simp
  qed
qed

lemma ResetTimers_ok:
  assumes "tq_inv (map snd (activeTimers q)) q"
  shows "\<exists>q'. ResetTimers clk q = Inr q' \<and> tq_inv [] q' \<and> armed q' \<and> fired q' = fired q \<and>
    objects_reset clk (readings q) (snd ` set (activeTimers q)) (objects q) (objects q')"
proof -
  obtain q1 where q1: "restart_active clk (activeTimers q) q = Inr q1" "tq_inv [] q1" "fired q1 = fired q"
    "objects_reset clk (readings q) (snd ` set (activeTimers q)) (objects q) (objects q1)"
    using restart_active_ok [OF assms] by blast
  show ?thesis
  proof (cases "timers q1")
    case Nil
    then show ?thesis using q1 by (simp add: ResetTimers_def armed_def)
  next
    case (Cons e es)
    obtain t p where e: "e = (t, p)" by (cases e)
    have "(t, p) \<in> set (timers q1)" using Cons e by simp
    then obtain tm where "objects q1 p = Some tm" "expiration tm = t"
      using q1(2) unfolding tq_inv_def entries_ok_def by blast
    then show ?thesis using q1 Cons e
      by (simp add: ResetTimers_def ResetTimer_def read_clock_def armed_def tq_inv_def entries_ok_def)
  qed
qed

subsection \<open>Handling the timer event\<close>

text \<open>The entries before \<open>lower_bound((now, UINTPTR_MAX))\<close> are the expired ones.\<close>

definition expired :: "TimeStamp \<Rightarrow> 'cb TimerQueue \<Rightarrow> TimerEntry list" where
  "expired t q = filter (\<lambda>e. fst e \<le> t) (timers q)"

lemma takeWhile_sorted_filter:
  "sorted xs \<Longrightarrow> (\<And>x y. x \<le> y \<Longrightarrow> P y \<Longrightarrow> P x) \<Longrightarrow> takeWhile P xs = filter P xs"
proof (induction xs)
  case Nil
  then show ?case by simp
next
  case (Cons x xs)
  show ?case
  proof (cases "P x")
    case True
    then show ?thesis using Cons by simp
  next
    case False
    then have "\<forall>y \<in> set xs. \<not> P y" using Cons.prems by auto
    then show ?thesis using False by (simp add: filter_False)
  qed
qed

lemma takeWhile_expired:
  assumes "sorted (timers q)" and "\<forall>e \<in> set (timers q). snd e < UINTPTR_MAX"
  shows "takeWhile (\<lambda>e. e < (t, UINTPTR_MAX)) (timers q) = expired t q"
proof -
  have "takeWhile (\<lambda>e. e < (t, UINTPTR_MAX)) (timers q) = filter (\<lambda>e. e < (t, UINTPTR_MAX)) (timers q)"
    by (rule takeWhile_sorted_filter [OF assms(1)]) (rule le_less_trans)
  also have "\<dots> = expired t q"
    unfolding expired_def using assms(2)
    by (intro filter_cong refl) (auto simp: less_prod_def')
  finally show ?thesis .
qed

lemma HandleRead_ok:
  assumes inv: "tq_inv [] q" and fresh: "fresh_alloc alloc"
    and ptrs: "\<forall>e \<in> set (timers q). snd e < UINTPTR_MAX" and due: "due = expired (clk (readings q)) q"
  shows "\<exists>q' ps h. HandleRead alloc clk adds q = Inr q' \<and> tq_inv [] q' \<and> armed q' \<and>
    fired q' = fired q @ callbacks_of q due \<and>
    extended (objects q) ps (timers_added adds (callbacks_of q due)) h \<and>
    objects_reset clk (readings q + 1) (snd ` set due) h (objects q')"
proof -
  let ?before = "\<lambda>e. e < (clk (readings q), UINTPTR_MAX)"
  let ?act = "takeWhile ?before (timers q)"
  let ?q2 = "q\<lparr>readings := readings q + 1, activeTimers := ?act, timers := dropWhile ?before (timers q)\<rparr>"
  have split: "?act @ dropWhile ?before (timers q) = timers q" by (rule takeWhile_dropWhile_id)
  have act: "?act = due"
    using inv ptrs unfolding due by (intro takeWhile_expired) (simp_all add: tq_inv_def)
  have sets: "set (timers q) = set ?act \<union> set (dropWhile ?before (timers q))"
    by (metis split set_append)
  have "distinct (map snd ?act @ map snd (dropWhile ?before (timers q)))"
    using inv split by (simp add: tq_inv_def flip: map_append)
  moreover have "dom (objects q) = snd ` set ?act \<union> snd ` set (dropWhile ?before (timers q))"
    using inv sets by (simp add: tq_inv_def image_Un)
  moreover have "sorted (dropWhile ?before (timers q))"
    using inv by (simp add: tq_inv_def sorted_dropWhile)
  moreover have "entries_ok ?q2" using inv sets by (auto simp: tq_inv_def entries_ok_def)
  ultimately have inv2: "tq_inv (map snd ?act) ?q2" by (auto simp: tq_inv_def)
  have cbs: "callbacks_of ?q2 ?act = callbacks_of q due" by (simp add: callbacks_of_def act)
  obtain q3 ps where q3: "run_active alloc clk adds ?act ?q2 = Inr q3" "tq_inv (map snd ?act) q3"
      "extended (objects q) ps (timers_added adds (callbacks_of q due)) (objects q3)"
      "fired q3 = fired q @ callbacks_of q due" "activeTimers q3 = ?act" "readings q + 1 \<le> readings q3"
    using run_active_ok [OF inv2 fresh, of ?act clk adds] cbs by auto
  obtain q' where q': "ResetTimers clk q3 = Inr q'" "tq_inv [] q'" "armed q'" "fired q' = fired q3"
    "objects_reset clk (readings q3) (snd ` set due) (objects q3) (objects q')"
    using ResetTimers_ok [of q3 clk] q3 act by auto
  have "objects_reset clk (readings q + 1) (snd ` set due) (objects q3) (objects q')"
    using q'(5) q3(6) by (rule objects_reset_mono)
  moreover have "HandleRead alloc clk adds q = Inr q'" using q3 q' by (simp add: HandleRead_def read_clock_def)
  ultimately show ?thesis using q3 q' by auto
qed

subsection \<open>Properties\<close>

text \<open>
  C13: Handling the timer event is safe and complete. Whatever timers the callbacks add meanwhile, no
  destroyed timer is used; exactly the timers whose expiration is not after the time read run, each once and in the order
  of expiration. Afterwards a timer that has not expired is as it was, an expired one is restarted from a later
  reading of the clock if it is periodic and deleted if it is not, the timers that the callbacks added are there, and
  no others; the queue has an entry for each of them with its expiration (\<open>tq_inv\<close>), and the descriptor ends
  armed for the earliest. (\<open>alloc\<close> returns an unused address, and no timer sits at the highest address, which the
  code uses as a sentinel.)
\<close>

theorem HandleRead_runs_expired:
  assumes "tq_inv [] q" and "fresh_alloc alloc"
    and "\<forall>e \<in> set (timers q). snd e < UINTPTR_MAX"
    and "due = filter (\<lambda>e. fst e \<le> clk (readings q)) (timers q)"
  shows "\<exists>q' ps. HandleRead alloc clk adds q = Inr q' \<and> tq_inv [] q' \<and> armed q' \<and>
    fired q' = fired q @ callbacks_of q due \<and>
    distinct ps \<and> set ps \<inter> dom (objects q) = {} \<and> length ps = length (timers_added adds (callbacks_of q due)) \<and>
    (\<forall>p tm. objects q p = Some tm \<longrightarrow> p \<notin> snd ` set due \<longrightarrow> objects q' p = Some tm) \<and>
    (\<forall>p tm. objects q p = Some tm \<longrightarrow> p \<in> snd ` set due \<longrightarrow>
       (if repeat tm then (\<exists>k > readings q. objects q' p = Some (Restart (clk k) tm)) else objects q' p = None)) \<and>
    (\<forall>i < length ps. objects q' (ps ! i) = Some (timers_added adds (callbacks_of q due) ! i)) \<and>
    dom (objects q') \<subseteq> dom (objects q) \<union> set ps"
proof -
  have due: "due = expired (clk (readings q)) q" using assms(4) by (simp add: expired_def)
  obtain q' ps h where q': "HandleRead alloc clk adds q = Inr q'" "tq_inv [] q'" "armed q'"
    "fired q' = fired q @ callbacks_of q due"
    and h: "extended (objects q) ps (timers_added adds (callbacks_of q due)) h"
    and r: "objects_reset clk (readings q + 1) (snd ` set due) h (objects q')"
    using HandleRead_ok [where clk = clk and adds = adds, OF assms(1-3) due] by blast
  let ?ts = "timers_added adds (callbacks_of q due)"
  have old: "h p = Some tm" if "objects q p = Some tm" for p tm
    using extended_le [OF h] that by (force simp: map_le_def dom_def)
  have r': "if p \<in> snd ` set due then (\<exists>tm. h p = Some tm \<and> reset_object clk (readings q + 1) tm (objects q' p))
      else objects q' p = h p" for p using r unfolding objects_reset_def by blast
  have "snd ` set due \<subseteq> dom (objects q)" using assms(1,4) by (auto simp: tq_inv_def)
  then have fresh: "ps ! i \<notin> snd ` set due" if "i < length ps" for i
    using h nth_mem [OF that] by (auto simp: extended_def)
  have "objects q' (ps ! i) = Some (?ts ! i)" if i: "i < length ps" for i
  proof -
    have "map_of (zip ps ?ts) (ps ! i) = Some (?ts ! i)"
      using h i by (intro map_of_zip_nth) (simp_all add: extended_def)
    then have "h (ps ! i) = Some (?ts ! i)" using h by (simp add: extended_def map_add_def)
    then show ?thesis using r' [of "ps ! i"] fresh [OF i] by simp
  qed
  moreover have "if repeat tm then (\<exists>k > readings q. objects q' p = Some (Restart (clk k) tm)) else objects q' p = None"
    if "objects q p = Some tm" "p \<in> snd ` set due" for p tm
    using r' [of p] old [OF that(1)] that(2) by (auto simp: reset_object_def Suc_le_eq split: if_splits)
  moreover have "dom (objects q') \<subseteq> dom (objects q) \<union> set ps"
  proof
    fix p assume "p \<in> dom (objects q')"
    then have "p \<in> dom h" using r' [of p] by (auto split: if_splits)
    then show "p \<in> dom (objects q) \<union> set ps" using extended_dom [OF h] by simp
  qed
  moreover have "objects q' p = Some tm" if "objects q p = Some tm" "p \<notin> snd ` set due" for p tm
    using r' [of p] old [OF that(1)] that(2) by simp
  moreover have "distinct ps" "set ps \<inter> dom (objects q) = {}" "length ps = length ?ts"
    using h by (simp_all add: extended_def)
  ultimately show ?thesis using q' by (intro exI [of _ q'] exI [of _ ps]) simp
qed

definition lowest_free :: "(nat \<rightharpoonup> 'a) \<Rightarrow> nat" where
  "lowest_free h = (LEAST p. h p = None)"

lemma lowest_free_fresh: "fresh_alloc lowest_free"
  unfolding fresh_alloc_def lowest_free_def
proof (intro allI impI)
  fix h :: "nat \<rightharpoonup> 'a Timer"
  assume "finite (dom h)"
  then obtain p where "p \<notin> dom h" using ex_new_if_finite infinite_UNIV_nat by blast
  then have "h p = None" by auto
  then show "h (LEAST p. h p = None) = None" by (rule LeastI)
qed

definition two_timers :: "nat TimerQueue" where
  "two_timers = new_TimerQueue\<lparr>timers := [(TimeStamp 5, 1), (TimeStamp 9, 0)],
     objects := [0 \<mapsto> new_Timer (TimeStamp 9) 20 1, 1 \<mapsto> new_Timer (TimeStamp 5) 10 0]\<rparr>"

lemma two_timers_inv: "tq_inv [] two_timers"
  by (auto simp: tq_inv_def two_timers_def new_TimerQueue_def entries_ok_def new_Timer_def
      TimeStamp_order less_eq_prod_def)

lemma HandleRead_runs_expired_witness:
  "\<exists>q'. HandleRead lowest_free (\<lambda>n. TimeStamp (7 + int n)) (\<lambda>_. []) two_timers = Inr q' \<and> fired q' = [10] \<and>
    objects q' 1 = None \<and> objects q' 0 \<noteq> None"
proof -
  let ?clk = "\<lambda>n. TimeStamp (7 + int n)"
  have due: "[(TimeStamp 5, 1)] = filter (\<lambda>e. fst e \<le> ?clk (readings two_timers)) (timers two_timers)"
    by (simp add: two_timers_def new_TimerQueue_def TimeStamp_order)
  have "\<forall>e \<in> set (timers two_timers). snd e < UINTPTR_MAX"
    by (simp add: two_timers_def UINTPTR_MAX_def)
  from HandleRead_runs_expired [where clk = ?clk and adds = "\<lambda>_. []", OF two_timers_inv lowest_free_fresh this due]
  show ?thesis by (fastforce simp: two_timers_def new_TimerQueue_def new_Timer_def callbacks_of_def)
qed

text \<open>
  Adding a timer stores it with its own object, keeps the set sorted and the queue armed for the
  earliest timer: the descriptor is set again exactly when the new timer comes first.
\<close>

theorem AddTimer_keeps_armed:
  assumes "tq_inv [] q" and "fresh_alloc alloc" and "armed q"
  shows "\<exists>q'. AddTimer alloc clk (ts, cb, i) q = Inr q' \<and> tq_inv [] q' \<and> armed q' \<and>
    timers q' = insort (ts, alloc (objects q)) (timers q) \<and>
    objects q' = (objects q)(alloc (objects q) \<mapsto> new_Timer ts cb i)"
  using AddTimer_ok [OF assms(1,2), of clk ts cb i] assms(3) by metis

lemma AddTimer_keeps_armed_witness:
  "\<exists>q'. AddTimer lowest_free (\<lambda>n. TimeStamp (int n)) (TimeStamp 3, 1, 0) (new_TimerQueue :: nat TimerQueue) = Inr q' \<and> armed q'"
  using AddTimer_keeps_armed [OF tq_inv_new lowest_free_fresh armed_new, of "\<lambda>n. TimeStamp (int n)" "TimeStamp 3" "1 :: nat" 0]
  by blast

text \<open>
  The value given to \<open>timerfd_settime\<close> is the distance to the expiration, at least 100
  microseconds: it is never negative, its nanosecond field is in range, and it is never zero,
  which would disarm the timer.
\<close>

theorem timer_value_never_disarms:
  "nanos (timer_value e t) = 1000 * max 100 (microSecond e - microSecond t) \<and>
   0 \<le> tv_nsec (timer_value e t) \<and> tv_nsec (timer_value e t) < kNanoSeconds \<and>
   0 \<le> tv_sec (timer_value e t) \<and> 0 < nanos (timer_value e t)"
  using timer_value_ok [of e t] by simp

text \<open>
  A periodic timer with an interval below one second does not keep its interval: restarting it
  gives the current time as its next expiration, so the descriptor is armed for 100 microseconds,
  again and again.
\<close>

theorem subsecond_timer_spins:
  assumes "0 < i" and "i < 1" and "t \<le> t'"
  shows "repeat (Restart t (new_Timer ts cb i)) \<and> expiration (Restart t (new_Timer ts cb i)) = t \<and>
    timer_value (expiration (Restart t (new_Timer ts cb i))) t' = \<lparr>tv_sec = 0, tv_nsec = 100000\<rparr>"
proof -
  have e: "AddTime t i = t" using assms by (intro TimeStamp.expand) (simp add: AddTime_micro trunc_fraction)
  have "timer_value t t' = \<lparr>tv_sec = 0, tv_nsec = 100000\<rparr>"
    using assms(3) by (simp add: timer_value_def kMicroSecond2Second_def c_div_nonneg c_mod_nonneg TimeStamp_order)
  then show ?thesis using e assms(1) by (simp add: Restart_def new_Timer_def)
qed

lemma subsecond_timer_spins_witness:
  "expiration (Restart (TimeStamp 40) (new_Timer (TimeStamp 1) () (1/2))) = TimeStamp 40"
  using subsecond_timer_spins [of "1/2" "TimeStamp 40" "TimeStamp 40" "TimeStamp 1" "()"] by simp

lemma delete_timers_ok:
  "distinct (map snd es) \<Longrightarrow> dom h = snd ` set es \<Longrightarrow> delete_timers es h = Inr Map.empty"
proof (induction es arbitrary: h)
  case Nil
  then show ?case by simp
next
  case (Cons e es)
  then have "snd e \<in> dom h" and dom: "dom (h(snd e := None)) = snd ` set es" by auto
  then obtain tm where tm: "h (snd e) = Some tm" by blast
  have "delete_timers es (h(snd e := None)) = Inr Map.empty"
    using Cons.prems(1) by (intro Cons.IH [OF _ dom]) simp
  then show ?case by (simp add: tm)
qed

text \<open>
  Outside the handler the destructor frees every timer object exactly once: nothing is deleted
  twice and nothing stays allocated.
\<close>

theorem TimerQueue_destroy_frees_all:
  assumes "tq_inv [] q"
  shows "TimerQueue_destroy q = Inr Map.empty"
  using assms unfolding TimerQueue_destroy_def tq_inv_def by (intro delete_timers_ok) simp_all

lemma TimerQueue_destroy_frees_all_witness: "TimerQueue_destroy two_timers = Inr Map.empty"
  by (rule TimerQueue_destroy_frees_all [OF two_timers_inv])

end
