(* ===== verification/Http_Request.thy ===== *)
theory Http_Request
  imports Prelude
begin

text \<open>
  \<^verbatim>\<open>Http/httpRequest.h\<close>, \<^verbatim>\<open>Http/httpRequest.cc\<close>: the request object and the parsers of one line.

  A parser gets the bytes of the buffer (\<open>mem\<close>) and the positions of the line in it, as the C++ code
  gets pointers. \<open>Inl\<close> is a fault: an invalid range given to \<open>string::assign\<close> throws
  \<open>std::length_error\<close>. Fields that \<open>HttpRequest() = default\<close> leaves indeterminate are \<open>None\<close>.
  The second half states the same parsers on the bytes of the line alone and proves them equal.
\<close>

datatype Method = kGet | kPost | kPut | kDelete

datatype Version = kUnknown | kHttp10 | kHttp11

datatype HttpRequestParseState =
  kParseRequestLine | kParseRequestHeader | kParseBody | kParseGotCompleteRequest | kParseErrno

record HttpRequest =
  http_method :: "Method option"
  http_version :: "Version option"
  path :: string
  query :: string
  hearders :: "string \<rightharpoonup> string"

definition new_HttpRequest :: HttpRequest where
  "new_HttpRequest =
     \<lparr>http_method = None, http_version = None, path = [], query = [], hearders = Map.empty\<rparr>"

definition http :: string where
  "http = ''HTTP/1.''"

definition GetHeader :: "string \<Rightarrow> HttpRequest \<Rightarrow> string" where
  "GetHeader header req = (case hearders req header of None \<Rightarrow> [] | Some v \<Rightarrow> v)"

definition ParseRequestMethod ::
  "bytes \<Rightarrow> nat \<Rightarrow> nat \<Rightarrow> HttpRequest \<Rightarrow> bool \<times> HttpRequest" where
  "ParseRequestMethod mem start end0 req =
     (let m = seg mem start end0
      in if m = ''GET'' then (True, req\<lparr>http_method := Some kGet\<rparr>)
         else if m = ''POST'' then (True, req\<lparr>http_method := Some kPost\<rparr>)
         else if m = ''PUT'' then (True, req\<lparr>http_method := Some kPut\<rparr>)
         else if m = ''DELETE'' then (True, req\<lparr>http_method := Some kDelete\<rparr>)
         else (False, req))"

text \<open>\<open>s.assign(first, last)\<close> for two positions of the same array.\<close>

definition assign :: "bytes \<Rightarrow> nat \<Rightarrow> nat \<Rightarrow> fault + string" where
  "assign mem first0 last0 = (if first0 \<le> last0 then Inr (seg mem first0 last0) else Inl LengthError)"

text \<open>The target of the request line: the path, and the query behind a question mark.\<close>

definition ParseTarget ::
  "bytes \<Rightarrow> nat \<Rightarrow> nat \<Rightarrow> nat \<Rightarrow> HttpRequest \<Rightarrow> fault + HttpRequest" where
  "ParseTarget mem start space end0 req =
     (let query_ptr = std_find mem start end0 (CHR ''?'')
      in if query_ptr \<noteq> end0
         then (case assign mem start query_ptr of
                 Inl f \<Rightarrow> Inl f
               | Inr p \<Rightarrow>
                   (case assign mem (query_ptr + 1) space of
                      Inl f \<Rightarrow> Inl f
                    | Inr q \<Rightarrow> Inr (req\<lparr>path := p, query := q\<rparr>)))
         else (case assign mem start space of
                 Inl f \<Rightarrow> Inl f
               | Inr p \<Rightarrow> Inr (req\<lparr>path := p\<rparr>)))"

definition ParseVersion :: "bytes \<Rightarrow> nat \<Rightarrow> nat \<Rightarrow> HttpRequest \<Rightarrow> bool \<times> HttpRequest" where
  "ParseVersion mem start end0 req =
     (let parseHttp = (start + 8 = end0 \<and> seg mem start (end0 - 1) = http)
      in if \<not> parseHttp \<or> mem ! (end0 - 1) \<noteq> CHR ''0'' \<and> mem ! (end0 - 1) \<noteq> CHR ''1''
         then (False, req\<lparr>http_version := Some kUnknown\<rparr>)
         else if mem ! (end0 - 1) = CHR ''0''
         then (True, req\<lparr>http_version := Some kHttp10\<rparr>)
         else (True, req\<lparr>http_version := Some kHttp11\<rparr>))"

definition ParseRequestLine ::
  "bytes \<Rightarrow> nat \<Rightarrow> nat \<Rightarrow> HttpRequest \<Rightarrow> fault + (bool \<times> HttpRequest)" where
  "ParseRequestLine mem start end0 req =
     (let space = std_find mem start end0 (CHR '' '')
      in if space = end0 then Inr (False, req)
         else
           (let (has_method, req1) = ParseRequestMethod mem start space req
            in if \<not> has_method then Inr (False, req1)
               else
                 (let start1 = space + 1;
                      space1 = std_find mem (space + 1) end0 (CHR '' '')
                  in if space1 = end0 then Inr (False, req1)
                     else
                       (case ParseTarget mem start1 space1 end0 req1 of
                          Inl f \<Rightarrow> Inl f
                        | Inr req2 \<Rightarrow> Inr (ParseVersion mem (space1 + 1) end0 req2)))))"

text \<open>The loop of \<open>ParseHeaders\<close> that skips spaces; it reads the memory without a bound of its own.\<close>

function skip_spaces :: "bytes \<Rightarrow> nat \<Rightarrow> nat option" where
  "skip_spaces mem i =
     (if i < length mem then (if mem ! i = CHR '' '' then skip_spaces mem (i + 1) else Some i)
      else None)"
  by pat_completeness auto
termination
  by (relation "measure (\<lambda>(mem, i). length mem - i)") auto

declare skip_spaces.simps [simp del]

definition ParseHeaders ::
  "bytes \<Rightarrow> nat \<Rightarrow> nat \<Rightarrow> nat \<Rightarrow> HttpRequest \<Rightarrow> fault + (bool \<times> HttpRequest)" where
  "ParseHeaders mem start colon end0 req =
     (case skip_spaces mem (colon + 1) of
        None \<Rightarrow> Inl OutOfBounds
      | Some validstart \<Rightarrow>
          (case assign mem validstart end0 of
             Inl f \<Rightarrow> Inl f
           | Inr v \<Rightarrow> Inr (True, req\<lparr>hearders := (hearders req)(seg mem start colon \<mapsto> v)\<rparr>)))"

subsection \<open>The parsers on the bytes of a line\<close>

fun method_named :: "string \<Rightarrow> Method option" where
  "method_named m =
     (if m = ''GET'' then Some kGet else if m = ''POST'' then Some kPost
      else if m = ''PUT'' then Some kPut else if m = ''DELETE'' then Some kDelete else None)"

definition version_named :: "string \<Rightarrow> Version" where
  "version_named v =
     (if v = ''HTTP/1.0'' then kHttp10 else if v = ''HTTP/1.1'' then kHttp11 else kUnknown)"

text \<open>
  A line is a method, a space, a target, a space and a version; the target is cut at its first
  question mark. A question mark in the version alone makes the code cut an inverted range.
\<close>

definition parse_target :: "string \<Rightarrow> string \<Rightarrow> HttpRequest \<Rightarrow> fault + HttpRequest" where
  "parse_target target ver req =
     (case split_at (CHR ''?'') target of
        Some (p, q) \<Rightarrow> Inr (req\<lparr>path := p, query := q\<rparr>)
      | None \<Rightarrow> if CHR ''?'' \<in> set ver then Inl LengthError else Inr (req\<lparr>path := target\<rparr>))"

definition parse_line :: "bytes \<Rightarrow> HttpRequest \<Rightarrow> fault + (bool \<times> HttpRequest)" where
  "parse_line line req =
     (case split_at (CHR '' '') line of
        None \<Rightarrow> Inr (False, req)
      | Some (m, rest) \<Rightarrow>
          (case method_named m of
             None \<Rightarrow> Inr (False, req)
           | Some mt \<Rightarrow>
               (let req1 = req\<lparr>http_method := Some mt\<rparr>
                in case split_at (CHR '' '') rest of
                     None \<Rightarrow> Inr (False, req1)
                   | Some (target, ver) \<Rightarrow>
                       (case parse_target target ver req1 of
                          Inl f \<Rightarrow> Inl f
                        | Inr req2 \<Rightarrow>
                            Inr (version_named ver \<noteq> kUnknown,
                                 req2\<lparr>http_version := Some (version_named ver)\<rparr>)))))"

definition parse_header :: "string \<Rightarrow> string \<Rightarrow> HttpRequest \<Rightarrow> HttpRequest" where
  "parse_header name rest req =
     req\<lparr>hearders := (hearders req)(name \<mapsto> dropWhile (\<lambda>c. c = CHR '' '') rest)\<rparr>"

lemma ParseRequestMethod_eq:
  "ParseRequestMethod mem s e req =
     (case method_named (seg mem s e) of
        None \<Rightarrow> (False, req) | Some m \<Rightarrow> (True, req\<lparr>http_method := Some m\<rparr>))"
  by (simp add: ParseRequestMethod_def Let_def)

lemma ParseVersion_eq:
  assumes "s \<le> e" and "e \<le> length mem"
  shows "ParseVersion mem s e req =
     (version_named (seg mem s e) \<noteq> kUnknown,
      req\<lparr>http_version := Some (version_named (seg mem s e))\<rparr>)"
proof (cases "s + 8 = e")
  case True
  then have "seg mem s e = seg mem s (e - 1) @ [mem ! (e - 1)]"
    using assms seg_append [of s "e - 1" e mem] seg_Cons [of "e - 1" e mem] by simp
  moreover have "length (seg mem s (e - 1)) = 7" using True assms by (simp add: length_seg)
  ultimately show ?thesis using True
    by (auto simp: ParseVersion_def version_named_def http_def Let_def)
next
  case False
  have "length (seg mem s e) = e - s" using assms by (simp add: length_seg)
  then have "length (seg mem s e) \<noteq> 8" using False assms by simp
  then have "version_named (seg mem s e) = kUnknown" by (auto simp: version_named_def)
  then show ?thesis using False by (simp add: ParseVersion_def)
qed

lemma ParseTarget_eq:
  assumes "s \<le> sp" and "sp < e" and "e \<le> length mem" and "mem ! sp = CHR '' ''"
  shows "ParseTarget mem s sp e req = parse_target (seg mem s sp) (seg mem (Suc sp) e) req"
proof -
  have split: "seg mem s e = seg mem s sp @ mem ! sp # seg mem (Suc sp) e"
    using assms seg_append [of s sp e mem] seg_Cons [of sp e mem] by simp
  have len: "length (seg mem s sp) = sp - s" using assms by (simp add: length_seg)
  show ?thesis
  proof (cases "split_at (CHR ''?'') (seg mem s sp)")
    case None
    then have no: "CHR ''?'' \<notin> set (seg mem s sp)" by (simp add: split_at_None_iff)
    show ?thesis
    proof (cases "CHR ''?'' \<in> set (seg mem (Suc sp) e)")
      case False
      then have "std_find mem s e (CHR ''?'') = e"
        using assms no split by (simp add: std_find_end_iff)
      then show ?thesis using None False assms
        by (simp add: ParseTarget_def parse_target_def assign_def)
    next
      case True
      obtain l r where lr: "split_at (CHR ''?'') (seg mem (Suc sp) e) = Some (l, r)"
        using True by (cases "split_at (CHR ''?'') (seg mem (Suc sp) e)") (auto simp: split_at_None_iff)
      have "split_at (CHR ''?'') (seg mem s e) = Some (seg mem s sp @ CHR '' '' # l, r)"
        using split_at_Some [OF lr] split_at_append [of "CHR ''?''" "seg mem s sp @ CHR '' '' # l" r]
          no assms(4) split by simp
      note f = std_find_split [OF _ assms(3) this]
      have "seg mem s (std_find mem s e (CHR ''?'')) = seg mem s sp @ CHR '' '' # l"
        using f(3) assms by simp
      moreover have "length (seg mem s (std_find mem s e (CHR ''?''))) = std_find mem s e (CHR ''?'') - s"
        using f(1) assms by (intro length_seg) simp
      ultimately have "sp < std_find mem s e (CHR ''?'')" using len by simp
      then show ?thesis using None True f(1,2) assms
        by (simp add: ParseTarget_def parse_target_def assign_def)
    qed
  next
    case (Some pq)
    obtain p q where pq: "pq = (p, q)" by (cases pq)
    have g: "seg mem s sp = p @ CHR ''?'' # q" "CHR ''?'' \<notin> set p"
      using split_at_Some Some pq by fastforce+
    have whole: "split_at (CHR ''?'') (seg mem s e) = Some (p, q @ mem ! sp # seg mem (Suc sp) e)"
      using g split by simp
    let ?i = "std_find mem s e (CHR ''?'')"
    note f = std_find_split [OF _ assms(3) whole]
    have "length (seg mem s ?i) = ?i - s" using f(1) assms by (intro length_seg) simp
    then have i: "?i = s + length p" using f(2,3) assms by simp
    then have lt: "?i < sp" using g(1) len assms(1) by simp
    have "drop (Suc (length p)) (seg mem s sp) = q" using g(1) by simp
    then have "seg mem (Suc ?i) sp = q" by (simp add: drop_seg i)
    then show ?thesis using f lt assms Some pq
      by (simp add: ParseTarget_def parse_target_def assign_def Let_def)
  qed
qed

lemma split_at_cases:
  assumes "s \<le> e" and "e \<le> length mem"
  obtains "split_at c (seg mem s e) = None" "std_find mem s e c = e"
  | l r where "split_at c (seg mem s e) = Some (l, r)" "std_find mem s e c < e"
      "s \<le> std_find mem s e c" "seg mem s (std_find mem s e c) = l"
      "seg mem (Suc (std_find mem s e c)) e = r" "mem ! std_find mem s e c = c"
proof (cases "split_at c (seg mem s e)")
  case None
  show ?thesis by (rule that(1) [OF None std_find_none [OF assms None]])
next
  case (Some lr)
  obtain l r where lr: "split_at c (seg mem s e) = Some (l, r)" using Some by (cases lr) simp
  note f = std_find_split [OF assms lr]
  have "length l = std_find mem s e c - s" using f(1,3) assms(2) length_seg [of "std_find mem s e c" mem s] by simp
  then have "seg mem s e ! (std_find mem s e c - s) = c"
    using split_at_Some [OF lr] nth_append_length [of l c r] by simp
  then have "mem ! std_find mem s e c = c"
    using nth_seg [of s "std_find mem s e c - s" e mem] f(1,2) assms(2) by simp
  then show ?thesis by (rule that(2) [OF lr f])
qed

lemma ParseRequestLine_eq:
  assumes "s \<le> e" and "e \<le> length mem"
  shows "ParseRequestLine mem s e req = parse_line (seg mem s e) req"
  using assms
proof (cases rule: split_at_cases [of s e mem "CHR '' ''"])
  case 1
  then show ?thesis by (simp add: ParseRequestLine_def parse_line_def)
next
  case (2 m rest)
  let ?sp = "std_find mem s e (CHR '' '')"
  have sp: "Suc ?sp \<le> e" using 2 by simp
  show ?thesis
  proof (cases "method_named m")
    case None
    then show ?thesis using 2 by (simp add: ParseRequestLine_def parse_line_def ParseRequestMethod_eq del: method_named.simps)
  next
    case (Some mt)
    note m = 2 Some
    show ?thesis using sp assms(2)
    proof (cases rule: split_at_cases [of "Suc ?sp" e mem "CHR '' ''"])
      case 1
      then show ?thesis using m
        by (simp add: ParseRequestLine_def parse_line_def ParseRequestMethod_eq del: method_named.simps)
    next
      case t: (2 target ver)
      let ?sp1 = "std_find mem (Suc ?sp) e (CHR '' '')"
      have "ParseTarget mem (Suc ?sp) ?sp1 e r = parse_target target ver r" for r
        using ParseTarget_eq [of "Suc ?sp" ?sp1 e mem r] t assms(2) by simp
      moreover have "ParseVersion mem (Suc ?sp1) e r =
          (version_named ver \<noteq> kUnknown, r\<lparr>http_version := Some (version_named ver)\<rparr>)" for r
        using ParseVersion_eq [of "Suc ?sp1" e mem r] t assms(2) by simp
      ultimately show ?thesis using m t
        by (simp add: ParseRequestLine_def parse_line_def ParseRequestMethod_eq Let_def del: method_named.simps
            split: sum.split)
    qed
  qed
qed

lemma skip_spaces_eq:
  "i \<le> e \<Longrightarrow> e < length mem \<Longrightarrow> mem ! e \<noteq> CHR '' '' \<Longrightarrow>
     \<exists>j. skip_spaces mem i = Some j \<and> j \<le> e \<and>
       seg mem j e = dropWhile (\<lambda>c. c = CHR '' '') (seg mem i e)"
proof (induction mem i rule: skip_spaces.induct)
  case (1 mem i)
  show ?case
  proof (cases "mem ! i = CHR '' ''")
    case True
    then have "i < e" using 1 by (cases "i = e") auto
    then show ?thesis using 1 True by (simp add: skip_spaces.simps [of mem i] seg_Cons)
  next
    case False
    then have "dropWhile (\<lambda>c. c = CHR '' '') (seg mem i e) = seg mem i e"
      using 1(2,3) by (cases "i < e") (simp_all add: seg_Cons)
    then show ?thesis using 1 False by (simp add: skip_spaces.simps [of mem i])
  qed
qed

lemma ParseHeaders_eq:
  assumes "s \<le> c" and "c < e" and "e < length mem" and "mem ! e \<noteq> CHR '' ''"
  shows "ParseHeaders mem s c e req =
    Inr (True, parse_header (seg mem s c) (seg mem (Suc c) e) req)"
proof -
  have "Suc c \<le> e" using assms(2) by simp
  from skip_spaces_eq [OF this assms(3,4)] show ?thesis
    by (auto simp: ParseHeaders_def assign_def parse_header_def)
qed

subsection \<open>Properties\<close>

fun method_name :: "Method \<Rightarrow> string" where
  "method_name kGet = ''GET''"
| "method_name kPost = ''POST''"
| "method_name kPut = ''PUT''"
| "method_name kDelete = ''DELETE''"

definition version_name :: "bool \<Rightarrow> string" where
  "version_name is_11 = (if is_11 then ''HTTP/1.1'' else ''HTTP/1.0'')"

definition render_target :: "string \<Rightarrow> string option \<Rightarrow> string" where
  "render_target p q = (case q of None \<Rightarrow> p | Some q \<Rightarrow> p @ ''?'' @ q)"

definition render_line :: "Method \<Rightarrow> string \<Rightarrow> string option \<Rightarrow> bool \<Rightarrow> bytes" where
  "render_line m p q is_11 = method_name m @ '' '' @ render_target p q @ '' '' @ version_name is_11"

definition target_ok :: "string \<Rightarrow> string option \<Rightarrow> bool" where
  "target_ok p q \<longleftrightarrow> CHR '' '' \<notin> set p \<and> CHR ''?'' \<notin> set p \<and> CR \<notin> set p \<and>
     (\<forall>q'. q = Some q' \<longrightarrow> CHR '' '' \<notin> set q' \<and> CR \<notin> set q')"

definition requested ::
  "Method \<Rightarrow> string \<Rightarrow> string option \<Rightarrow> bool \<Rightarrow> HttpRequest \<Rightarrow> HttpRequest" where
  "requested m p q is_11 req =
     req\<lparr>http_method := Some m, path := p,
         query := (case q of None \<Rightarrow> query req | Some q' \<Rightarrow> q'),
         http_version := Some (if is_11 then kHttp11 else kHttp10)\<rparr>"

text \<open>
  The request object that holds the request and nothing else, which is what a new object becomes; in an object that
  was used before, the query stays if the request has none, and headers stay.
\<close>

definition unused_request :: "HttpRequest \<Rightarrow> bool" where
  "unused_request req \<longleftrightarrow> query req = [] \<and> hearders req = Map.empty"

definition sent_request :: "Method \<Rightarrow> string \<Rightarrow> string option \<Rightarrow> bool \<Rightarrow> (string \<times> string) list \<Rightarrow> HttpRequest" where
  "sent_request m p q is_11 hs =
     \<lparr>http_method = Some m, http_version = Some (if is_11 then kHttp11 else kHttp10), path = p,
      query = (case q of None \<Rightarrow> [] | Some q' \<Rightarrow> q'), hearders = map_of (rev hs)\<rparr>"

lemma unused_new: "unused_request new_HttpRequest"
  by (simp add: unused_request_def new_HttpRequest_def)

lemma method_named_name: "method_named (method_name m) = Some m"
  by (cases m) simp_all

lemma parse_line_render:
  assumes "target_ok p q"
  shows "parse_line (render_line m p q v) req = Inr (True, requested m p q v req)"
proof -
  have m: "CHR '' '' \<notin> set (method_name m)" by (cases m) simp_all
  have t: "CHR '' '' \<notin> set (render_target p q)"
    using assms by (auto simp: target_ok_def render_target_def split: option.splits)
  have v: "version_named (version_name v) = (if v then kHttp11 else kHttp10)"
    "CHR ''?'' \<notin> set (version_name v)"
    by (simp_all add: version_named_def version_name_def)
  have "parse_target (render_target p q) (version_name v) r =
      Inr (r\<lparr>path := p, query := (case q of None \<Rightarrow> query r | Some q' \<Rightarrow> q')\<rparr>)" for r
    using assms v(2) by (auto simp: parse_target_def render_target_def target_ok_def split: option.splits)
  then show ?thesis using m t v(1)
    by (simp add: parse_line_def render_line_def requested_def method_named_name Let_def
      del: method_named.simps split: option.split)
qed

text \<open>
  The pointer-based parser of the request line computes, on any line of any buffer, exactly what
  the description of the grammar on the bytes of that line says, faults included, and reads nothing
  outside the line.
\<close>

theorem ParseRequestLine_refines:
  assumes "s \<le> e" and "e \<le> length mem"
  shows "ParseRequestLine mem s e req = parse_line (seg mem s e) req"
  using assms by (rule ParseRequestLine_eq)

lemma ParseRequestLine_refines_witness:
  "ParseRequestLine ''xxGET /a HTTP/1.1yy'' 2 17 new_HttpRequest =
     parse_line ''GET /a HTTP/1.1'' new_HttpRequest"
proof -
  have "seg ''xxGET /a HTTP/1.1yy'' 2 17 = ''GET /a HTTP/1.1''" by code_simp
  then show ?thesis using ParseRequestLine_refines [of 2 17 "''xxGET /a HTTP/1.1yy''"] by simp
qed

text \<open>
  A well-formed request line is understood: for each method, path, optional query and version the
  line that spells them is accepted wherever it lies in the buffer, and the request then holds
  exactly these four; only the query of an earlier request stays when the line has none.
\<close>

theorem request_line_roundtrip:
  assumes "target_ok p q" and "mem = pre @ render_line m p q v @ post"
  shows "ParseRequestLine mem (length pre) (length pre + length (render_line m p q v)) req =
    Inr (True, requested m p q v req)"
  using assms by (simp add: ParseRequestLine_eq seg_of_append parse_line_render)

lemma request_line_roundtrip_witness:
  "ParseRequestLine ''GET /a?b=1 HTTP/1.0'' 0 19 new_HttpRequest =
     Inr (True, requested kGet ''/a'' (Some ''b=1'') False new_HttpRequest)"
proof -
  have "render_line kGet ''/a'' (Some ''b=1'') False = ''GET /a?b=1 HTTP/1.0''" by code_simp
  then show ?thesis
    using request_line_roundtrip [of "''/a''" "Some ''b=1''" "''GET /a?b=1 HTTP/1.0''" "[]" kGet False "[]"]
    by (simp add: target_ok_def CR_def eval_nat_numeral)
qed

text \<open>
  A question mark behind the target ends the program: the search for it runs to the end of the
  line, and \<open>query_.assign\<close> gets a range whose end is before its start and throws.
\<close>

theorem question_mark_in_version_throws:
  assumes "s \<le> e" and "e \<le> length mem"
    and "seg mem s e = method_name m @ '' '' @ target @ '' '' @ ver"
    and "CHR '' '' \<notin> set target" and "CHR ''?'' \<notin> set target" and "CHR ''?'' \<in> set ver"
  shows "ParseRequestLine mem s e req = Inl LengthError"
proof -
  have "CHR '' '' \<notin> set (method_name m)" by (cases m) simp_all
  then show ?thesis using assms(4-6)
    unfolding ParseRequestLine_eq [OF assms(1,2)] assms(3)
    by (simp add: parse_line_def parse_target_def method_named_name del: method_named.simps)
qed

lemma question_mark_in_version_throws_witness:
  "ParseRequestLine ''GET / HTTP/1.1?'' 0 15 new_HttpRequest = Inl LengthError"
proof -
  have "seg ''GET / HTTP/1.1?'' 0 15 = ''GET / HTTP/1.1?''" by code_simp
  then show ?thesis
    by (intro question_mark_in_version_throws [of _ _ _ kGet "''/''" "''HTTP/1.1?''"]) simp_all
qed

end
