(* ===== verification/Http_Content.thy ===== *)
theory Http_Content
  imports Net_Buffer Http_Request
begin

text \<open>
  \<^verbatim>\<open>Http/httpContent.h\<close>, \<^verbatim>\<open>Http/httpContent.cc\<close>, \<^verbatim>\<open>Http/httpParseState.h\<close>: the state machine that
  consumes the lines of a request from a connection's input buffer.

  One pass of the \<open>while\<close> loop is \<open>ParseContent_step\<close>; the loop is a \<open>partial_function\<close>, so that not
  returning (which the code does in the states it has no branch for) is the value \<open>None\<close>.
  \<open>parse_stream\<close> is the same machine on the unread bytes alone, by recursion on the lines.
\<close>

subsection \<open>State and operations\<close>

record HttpContent =
  checked_idx :: int
  request :: HttpRequest
  parse_state :: HttpRequestParseState

definition new_HttpContent :: HttpContent where
  "new_HttpContent =
     \<lparr>checked_idx = 0, request = new_HttpRequest, parse_state = kParseRequestLine\<rparr>"

definition GetCompleteRequest :: "HttpContent \<Rightarrow> bool" where
  "GetCompleteRequest c \<longleftrightarrow> parse_state c = kParseGotCompleteRequest"

definition ResetContentState :: "HttpContent \<Rightarrow> HttpContent" where
  "ResetContentState c = c\<lparr>parse_state := kParseRequestLine\<rparr>"

text \<open>
  The branches of the loop body: the new \<open>lineMore\<close>, \<open>parseOk\<close>, \<open>crlf\<close> and object. \<open>lineMore\<close> is
  true on entry.
\<close>

definition ParseContent_branch ::
  "HttpContent \<Rightarrow> Buffer \<Rightarrow> bool \<Rightarrow> nat option \<Rightarrow>
   fault + (bool \<times> bool \<times> nat option \<times> HttpContent)" where
  "ParseContent_branch c b parseOk crlf =
     (case parse_state c of
        kParseRequestLine \<Rightarrow>
          (case findCRLF b of
             None \<Rightarrow> Inr (False, parseOk, None, c)
           | Some i \<Rightarrow>
               (case ParseRequestLine (buffer b) (peek b) i (request c) of
                  Inl f \<Rightarrow> Inl f
                | Inr (ok, req) \<Rightarrow>
                    if ok then Inr (True, ok, Some i, c\<lparr>request := req, parse_state := kParseRequestHeader\<rparr>)
                    else Inr (False, ok, Some i, c\<lparr>request := req\<rparr>)))
      | kParseRequestHeader \<Rightarrow>
          (case findCRLF b of
             None \<Rightarrow> Inr (False, parseOk, None, c)
           | Some i \<Rightarrow>
               (let colon = std_find (buffer b) (peek b) i (CHR '':'')
                in if colon = i
                   then Inr (False, parseOk, Some i, c\<lparr>parse_state := kParseGotCompleteRequest\<rparr>)
                   else (case ParseHeaders (buffer b) (peek b) colon i (request c) of
                           Inl f \<Rightarrow> Inl f
                         | Inr (ok, req) \<Rightarrow> Inr (ok, ok, Some i, c\<lparr>request := req\<rparr>))))
      | kParseGotCompleteRequest \<Rightarrow> Inr (False, parseOk, crlf, c)
      | kParseBody \<Rightarrow> Inr (True, parseOk, crlf, c)
      | kParseErrno \<Rightarrow> Inr (True, parseOk, crlf, c))"

definition ParseContent_step ::
  "HttpContent \<Rightarrow> Buffer \<Rightarrow> bool \<Rightarrow> nat option \<Rightarrow>
   fault + (bool \<times> bool \<times> nat option \<times> HttpContent \<times> Buffer)" where
  "ParseContent_step c b parseOk crlf =
     (case ParseContent_branch c b parseOk crlf of
        Inl f \<Rightarrow> Inl f
      | Inr (lineMore, ok, crlf1, c1) \<Rightarrow>
          (case crlf1 of
             None \<Rightarrow> Inr (lineMore, ok, crlf1, c1, b)
           | Some i \<Rightarrow>
               (case retrieveUntilIdx (i + 2) b of
                  Inl f \<Rightarrow> Inl f
                | Inr b1 \<Rightarrow> Inr (lineMore, ok, crlf1, c1, b1))))"

partial_function (option) ParseContent_loop ::
  "HttpContent \<Rightarrow> Buffer \<Rightarrow> bool \<Rightarrow> nat option \<Rightarrow> (fault + (bool \<times> HttpContent \<times> Buffer)) option" where
  "ParseContent_loop c b parseOk crlf =
     (case ParseContent_step c b parseOk crlf of
        Inl f \<Rightarrow> Some (Inl f)
      | Inr (lineMore, ok, crlf1, c1, b1) \<Rightarrow>
          if lineMore then ParseContent_loop c1 b1 ok crlf1 else Some (Inr (ok, c1, b1)))"

definition ParseContent ::
  "HttpContent \<Rightarrow> Buffer \<Rightarrow> (fault + (bool \<times> HttpContent \<times> Buffer)) option" where
  "ParseContent c b = ParseContent_loop c b True None"

subsection \<open>The machine on the unread bytes\<close>

function parse_stream ::
  "HttpRequestParseState \<Rightarrow> HttpRequest \<Rightarrow> bytes \<Rightarrow>
   fault + (bool \<times> HttpRequestParseState \<times> HttpRequest \<times> bytes)" where
  "parse_stream st req bs =
     (case (st, split_crlf bs) of
        (kParseRequestLine, Some (l, r)) \<Rightarrow>
          (case parse_line l req of
             Inl f \<Rightarrow> Inl f
           | Inr (ok, req1) \<Rightarrow>
               if ok then parse_stream kParseRequestHeader req1 r else Inr (False, st, req1, r))
      | (kParseRequestHeader, Some (l, r)) \<Rightarrow>
          (case split_at (CHR '':'') l of
             None \<Rightarrow> Inr (True, kParseGotCompleteRequest, req, r)
           | Some (n, v) \<Rightarrow> parse_stream kParseRequestHeader (parse_header n v req) r)
      | _ \<Rightarrow> Inr (True, st, req, bs))"
  by pat_completeness auto
termination
  by (relation "measure (\<lambda>(st, req, bs). length bs)") (auto dest: split_crlf_length [OF sym])

declare parse_stream.simps [simp del]

definition working :: "HttpRequestParseState \<Rightarrow> bool" where
  "working st \<longleftrightarrow> st = kParseRequestLine \<or> st = kParseRequestHeader"

text \<open>What \<open>ParseContent\<close> returns for an outcome of \<open>parse_stream\<close>.\<close>

fun shows_outcome ::
  "HttpContent \<Rightarrow> Buffer \<Rightarrow> fault + (bool \<times> HttpRequestParseState \<times> HttpRequest \<times> bytes) \<Rightarrow>
   fault + (bool \<times> HttpContent \<times> Buffer) \<Rightarrow> bool" where
  "shows_outcome c b (Inl f) res \<longleftrightarrow> res = Inl f"
| "shows_outcome c b (Inr (ok, st, req, rest)) res \<longleftrightarrow>
     (\<exists>b'. res = Inr (ok, c\<lparr>request := req, parse_state := st\<rparr>, b') \<and>
        buf_inv b' \<and> buffer b' = buffer b \<and> writeIdx b' = writeIdx b \<and> content b' = rest)"

lemma outcome_frame:
  "shows_outcome (c\<lparr>request := req\<rparr>) (b\<lparr>readIdx := i\<rparr>) out res \<Longrightarrow> shows_outcome c b out res"
  "shows_outcome (c\<lparr>request := req, parse_state := st\<rparr>) (b\<lparr>readIdx := i\<rparr>) out res \<Longrightarrow>
     shows_outcome c b out res"
  by (cases "(c, b, out, res)" rule: shows_outcome.cases; simp)+

lemma line_step:
  assumes "buf_inv b" and "length (buffer b) < 2 ^ 31" and "split_crlf (content b) = Some (l, r)"
  shows "findCRLF b = Some (readIdx b + length l)"
    and "seg (buffer b) (peek b) (readIdx b + length l) = l"
    and "retrieveUntilIdx (readIdx b + length l + 2) b = Inr (b\<lparr>readIdx := readIdx b + length l + 2\<rparr>)"
    and "buf_inv (b\<lparr>readIdx := readIdx b + length l + 2\<rparr>)"
    and "content (b\<lparr>readIdx := readIdx b + length l + 2\<rparr>) = r"
    and "peek b \<le> readIdx b + length l" and "readIdx b + length l < length (buffer b)"
    and "buffer b ! (readIdx b + length l) \<noteq> CHR '' ''"
proof -
  let ?i = "readIdx b + length l"
  have split: "split_crlf (seg (buffer b) (readIdx b) (writeIdx b)) = Some (l, r)"
    using assms(3) by (simp add: content_def)
  note s = split_crlf_seg [OF split buf_inv_bounds [OF assms(1)]]
  show "findCRLF b = Some ?i" using assms(1,3) by (simp add: findCRLF_eq)
  show "seg (buffer b) (peek b) ?i = l" using s(1) by (simp add: peek_def)
  show "retrieveUntilIdx (?i + 2) b = Inr (b\<lparr>readIdx := ?i + 2\<rparr>)"
    using s(3) assms(1,2) by (intro retrieveUntilIdx_ok) simp_all
  show "buf_inv (b\<lparr>readIdx := ?i + 2\<rparr>)"
    using advance_readIdx(1) [OF assms(1), of "?i + 2"] s(3) by simp
  show "content (b\<lparr>readIdx := ?i + 2\<rparr>) = r"
    using s(2) by (simp add: content_def add.assoc)
  show "peek b \<le> ?i" by (simp add: peek_def)
  show "?i < length (buffer b)" using s(3) buf_inv_bounds [OF assms(1)] by simp
  have "seg (buffer b) (readIdx b) (writeIdx b) = l @ CRLF @ r" using split by (rule split_crlf_Some)
  then have "seg (buffer b) (readIdx b) (writeIdx b) ! length l = CR" by (simp add: CRLF_def)
  moreover have "seg (buffer b) (readIdx b) (writeIdx b) ! length l = buffer b ! ?i"
    using s(3) buf_inv_bounds [OF assms(1)] by (intro nth_seg) simp_all
  ultimately show "buffer b ! ?i \<noteq> CHR '' ''" by (simp add: CR_def)
qed

lemma no_line_step:
  "buf_inv b \<Longrightarrow> split_crlf (content b) = None \<Longrightarrow> findCRLF b = None"
  by (simp add: findCRLF_eq)

lemma ParseContent_loop_refines:
  assumes "buf_inv b" and "length (buffer b) < 2 ^ 31"
    and "working (parse_state c) \<or> GetCompleteRequest c" and "parse_state c = kParseGotCompleteRequest \<longrightarrow> crlf = None"
  shows "\<exists>res. ParseContent_loop c b True crlf = Some res \<and>
    shows_outcome c b (parse_stream (parse_state c) (request c) (content b)) res"
  using assms
proof (induction "length (content b)" arbitrary: c b crlf rule: less_induct)
  case less
  note inv = less.prems(1,2)
  show ?case
  proof (cases "working (parse_state c)")
    case False
    then have complete: "parse_state c = kParseGotCompleteRequest" "crlf = None"
      using less.prems by (simp_all add: GetCompleteRequest_def)
    then show ?thesis using inv
      by (subst ParseContent_loop.simps)
        (auto simp: ParseContent_step_def ParseContent_branch_def parse_stream.simps)
  next
    case work: True
    show ?thesis
    proof (cases "split_crlf (content b)")
      case None
      then show ?thesis using work inv no_line_step [OF inv(1) None]
        by (subst ParseContent_loop.simps)
          (auto simp: working_def ParseContent_step_def ParseContent_branch_def parse_stream.simps)
    next
      case (Some lr)
      obtain l r where lr: "split_crlf (content b) = Some (l, r)" using Some by (cases lr) simp
      let ?i = "readIdx b + length l"
      let ?b1 = "b\<lparr>readIdx := ?i + 2\<rparr>"
      note ls = line_step [OF inv lr]
      have short: "length (content ?b1) < length (content b)"
        using ls(5) split_crlf_length [OF lr] by simp
      have rec: "\<exists>res. ParseContent_loop c1 ?b1 True (Some ?i) = Some res \<and>
          shows_outcome c1 ?b1 (parse_stream (parse_state c1) (request c1) r) res"
        if "parse_state c1 = kParseRequestHeader" for c1
        using less.hyps [OF short ls(4), of c1 "Some ?i"] that inv(2) ls(5)
        by (simp add: working_def)
      show ?thesis
      proof (cases "parse_state c = kParseRequestLine")
        case True
        have pl: "ParseRequestLine (buffer b) (peek b) ?i (request c) = parse_line l (request c)"
          using ParseRequestLine_eq [of "peek b" ?i "buffer b" "request c"] ls by simp
        show ?thesis
        proof (cases "parse_line l (request c)")
          case (Inl f)
          then show ?thesis using True ls(1) lr pl
            by (subst ParseContent_loop.simps)
              (simp add: ParseContent_step_def ParseContent_branch_def parse_stream.simps)
        next
          case (Inr p)
          obtain ok req where p: "parse_line l (request c) = Inr (ok, req)" using Inr by (cases p) simp
          let ?c1 = "c\<lparr>request := req, parse_state := kParseRequestHeader\<rparr>"
          show ?thesis
          proof (cases ok)
            case False
            have "ParseContent_loop c b True crlf = Some (Inr (False, c\<lparr>request := req\<rparr>, ?b1))"
              using True ls(1,3) pl p False
              by (subst ParseContent_loop.simps)
                (simp add: ParseContent_step_def ParseContent_branch_def)
            moreover have "c\<lparr>request := req, parse_state := kParseRequestLine\<rparr> = c\<lparr>request := req\<rparr>"
              using True by (cases c) simp
            ultimately show ?thesis using True lr p False ls(4,5)
              by (simp add: parse_stream.simps [of kParseRequestLine])
          next
            case ok: True
            have "ParseContent_loop c b True crlf = ParseContent_loop ?c1 ?b1 True (Some ?i)"
              using True ls(1,3) pl p ok
              by (subst ParseContent_loop.simps)
                (simp add: ParseContent_step_def ParseContent_branch_def)
            moreover have "parse_stream (parse_state c) (request c) (content b) =
                parse_stream kParseRequestHeader req r"
              using True lr p ok by (simp add: parse_stream.simps [of kParseRequestLine])
            ultimately show ?thesis using rec [of ?c1] by (auto elim!: outcome_frame)
          qed
        qed
      next
        case False
        then have st: "parse_state c = kParseRequestHeader" using work by (simp add: working_def)
        have le: "peek b \<le> ?i" "?i \<le> length (buffer b)" using ls by simp_all
        show ?thesis using le
        proof (cases rule: split_at_cases [of "peek b" ?i "buffer b" "CHR '':''"])
          case 1
          then have "ParseContent_loop c b True crlf =
              Some (Inr (True, c\<lparr>parse_state := kParseGotCompleteRequest\<rparr>, ?b1))"
            using st ls(1,3) by (subst ParseContent_loop.simps)
              (simp add: ParseContent_step_def ParseContent_branch_def)
          then show ?thesis using 1 st lr ls
            by (simp add: parse_stream.simps [of kParseRequestHeader])
        next
          case (2 n v)
          let ?c1 = "c\<lparr>request := parse_header n v (request c)\<rparr>"
          have "ParseHeaders (buffer b) (peek b) (std_find (buffer b) (peek b) ?i (CHR '':'')) ?i (request c) =
              Inr (True, parse_header n v (request c))"
            using ParseHeaders_eq [of "peek b" "std_find (buffer b) (peek b) ?i (CHR '':'')" ?i "buffer b"] 2 ls
            by simp
          then have "ParseContent_loop c b True crlf = ParseContent_loop ?c1 ?b1 True (Some ?i)"
            using st ls(1,3) 2 by (subst ParseContent_loop.simps)
              (simp add: ParseContent_step_def ParseContent_branch_def)
          moreover have "parse_stream (parse_state c) (request c) (content b) =
              parse_stream kParseRequestHeader (parse_header n v (request c)) r"
            using st lr 2 ls(2) by (simp add: parse_stream.simps [of kParseRequestHeader])
          ultimately show ?thesis using rec [of ?c1] st by (auto elim!: outcome_frame)
        qed
      qed
    qed
  qed
qed

lemma ParseContent_refines_stream:
  assumes "buf_inv b" and "length (buffer b) < 2 ^ 31"
    and "working (parse_state c) \<or> GetCompleteRequest c"
  shows "\<exists>res. ParseContent c b = Some res \<and>
    shows_outcome c b (parse_stream (parse_state c) (request c) (content b)) res"
  using ParseContent_loop_refines [OF assms] by (simp add: ParseContent_def)

subsection \<open>Facts about the machine\<close>

lemma parse_stream_no_line: "split_crlf bs = None \<Longrightarrow> parse_stream st req bs = Inr (True, st, req, bs)"
  by (subst parse_stream.simps) (simp split: HttpRequestParseState.split)

lemma parse_stream_append:
  "parse_stream st req xs = Inr (True, st1, req1, rest) \<Longrightarrow> working st \<Longrightarrow> working st1 \<Longrightarrow>
     parse_stream st req (xs @ ys) = parse_stream st1 req1 (rest @ ys)"
proof (induction st req xs rule: parse_stream.induct)
  case (1 st req bs)
  show ?case
  proof (cases "split_crlf bs")
    case None
    then show ?thesis using 1(3) by (simp add: parse_stream_no_line)
  next
    case (Some lr)
    obtain l r where lr: "split_crlf bs = Some (l, r)" using Some by (cases lr) simp
    have lr': "split_crlf (bs @ ys) = Some (l, r @ ys)" using lr by (rule split_crlf_append)
    show ?thesis
    proof (cases "st = kParseRequestLine")
      case True
      then obtain req2 where p: "parse_line l req = Inr (True, req2)"
        "parse_stream kParseRequestHeader req2 r = Inr (True, st1, req1, rest)"
        using 1(3) lr by (auto simp: parse_stream.simps [of kParseRequestLine] split: sum.splits if_splits)
      have "parse_stream kParseRequestHeader req2 (r @ ys) = parse_stream st1 req1 (rest @ ys)"
        using 1(1) [OF _ True _ _ p(1)] 1(5) p(2) lr True by (simp add: working_def)
      then show ?thesis using True lr' p(1) by (simp add: parse_stream.simps [of kParseRequestLine])
    next
      case False
      then have st: "st = kParseRequestHeader" using 1(4) by (simp add: working_def)
      show ?thesis
      proof (cases "split_at (CHR '':'') l")
        case None
        then show ?thesis using 1(3,5) st lr
          by (auto simp: parse_stream.simps [of kParseRequestHeader] working_def)
      next
        case (Some nv)
        obtain n v where nv: "split_at (CHR '':'') l = Some (n, v)" using Some by (cases nv) simp
        have "parse_stream kParseRequestHeader (parse_header n v req) r = Inr (True, st1, req1, rest)"
          using 1(3) st lr nv by (simp add: parse_stream.simps [of kParseRequestHeader])
        then have "parse_stream kParseRequestHeader (parse_header n v req) (r @ ys) = parse_stream st1 req1 (rest @ ys)"
          using 1(2) [OF _ st _ _ nv] 1(5) lr st by (simp add: working_def)
        then show ?thesis using st lr' nv by (simp add: parse_stream.simps [of kParseRequestHeader])
      qed
    qed
  qed
qed

lemma parse_line_fault: "parse_line l req = Inl f \<Longrightarrow> f = LengthError"
  by (auto simp: parse_line_def parse_target_def Let_def split: option.splits if_splits)

text \<open>
  An outcome is proper for the bytes \<open>bs\<close> if the only fault is the exception of \<open>assign\<close>, what is left
  is a suffix, and (when the machine began in one of its states) it ends in one.
\<close>

definition proper_outcome ::
  "bytes \<Rightarrow> bool \<Rightarrow> fault + (bool \<times> HttpRequestParseState \<times> HttpRequest \<times> bytes) \<Rightarrow> bool" where
  "proper_outcome bs proper out \<longleftrightarrow>
     (case out of
        Inl f \<Rightarrow> f = LengthError
      | Inr (ok, st1, req1, rest) \<Rightarrow>
          (\<exists>pre. bs = pre @ rest) \<and>
          (proper \<longrightarrow> (working st1 \<or> st1 = kParseGotCompleteRequest) \<and> (ok \<or> st1 = kParseRequestLine)))"

lemma proper_outcome_more: "proper_outcome r True out \<Longrightarrow> proper_outcome (pre @ r) p out"
  by (auto simp: proper_outcome_def split: sum.splits)

lemma parse_stream_outcome:
  "proper_outcome bs (working st \<or> st = kParseGotCompleteRequest) (parse_stream st req bs)"
proof (induction st req bs rule: parse_stream.induct)
  case (1 st req bs)
  show ?case
  proof (cases "split_crlf bs")
    case None
    then show ?thesis by (simp add: parse_stream_no_line proper_outcome_def)
  next
    case (Some lr)
    obtain l r where lr: "split_crlf bs = Some (l, r)" using Some by (cases lr) simp
    have bs: "bs = (l @ CRLF) @ r" using split_crlf_Some [OF lr] by simp
    show ?thesis
    proof (cases "st = kParseRequestLine")
      case True
      show ?thesis
      proof (cases "parse_line l req")
        case (Inl f)
        then show ?thesis using True lr parse_line_fault
          by (simp add: parse_stream.simps [of kParseRequestLine] proper_outcome_def)
      next
        case (Inr p)
        obtain ok req2 where p: "parse_line l req = Inr (ok, req2)" using Inr by (cases p) simp
        show ?thesis
        proof (cases ok)
          case ok: True
          have "proper_outcome r True (parse_stream kParseRequestHeader req2 r)"
            using 1(1) [OF _ True _ _ p] ok lr True by (simp add: working_def)
          then show ?thesis using True lr p ok unfolding bs
            by (subst parse_stream.simps) (auto simp: bs intro!: proper_outcome_more)
        next
          case False
          then show ?thesis using True lr p
            by (simp add: parse_stream.simps [of kParseRequestLine] proper_outcome_def bs working_def)
        qed
      qed
    next
      case False
      show ?thesis
      proof (cases "st = kParseRequestHeader")
        case True
        show ?thesis
        proof (cases "split_at (CHR '':'') l")
          case None
          then show ?thesis using True lr
            by (simp add: parse_stream.simps [of kParseRequestHeader] proper_outcome_def bs)
        next
          case (Some nv)
          obtain n v where nv: "split_at (CHR '':'') l = Some (n, v)" using Some by (cases nv) simp
          have "proper_outcome r True (parse_stream kParseRequestHeader (parse_header n v req) r)"
            using 1(2) [OF _ True _ _ nv] lr True by (simp add: working_def)
          then show ?thesis using True lr nv unfolding bs
            by (subst parse_stream.simps) (auto simp: bs intro!: proper_outcome_more)
        qed
      next
        case other: False
        then have "parse_stream st req bs = Inr (True, st, req, bs)"
          using False by (subst parse_stream.simps) (simp split: HttpRequestParseState.split)
        then show ?thesis using other False by (simp add: working_def proper_outcome_def)
      qed
    qed
  qed
qed

text \<open>The bytes of a request, and what it makes of the request object.\<close>

definition render_header :: "string \<times> string \<Rightarrow> bytes" where
  "render_header h = fst h @ '': '' @ snd h @ CRLF"

definition header_ok :: "string \<times> string \<Rightarrow> bool" where
  "header_ok h \<longleftrightarrow> CHR '':'' \<notin> set (fst h) \<and> CR \<notin> set (fst h) \<and> CR \<notin> set (snd h) \<and>
     (snd h = [] \<or> hd (snd h) \<noteq> CHR '' '')"

definition add_headers :: "(string \<times> string) list \<Rightarrow> HttpRequest \<Rightarrow> HttpRequest" where
  "add_headers hs req = req\<lparr>hearders := hearders req ++ map_of (rev hs)\<rparr>"

lemma request_of_unused:
  "unused_request req \<Longrightarrow> add_headers hs (requested m p q v req) = sent_request m p q v hs"
  by (cases req) (simp add: unused_request_def add_headers_def requested_def sent_request_def split: option.split)

definition render_request ::
  "Method \<Rightarrow> string \<Rightarrow> string option \<Rightarrow> bool \<Rightarrow> (string \<times> string) list \<Rightarrow> bytes" where
  "render_request m p q v hs = render_line m p q v @ CRLF @ concat (map render_header hs) @ CRLF"

lemma parse_stream_headers:
  "\<forall>h \<in> set hs. header_ok h \<Longrightarrow>
     parse_stream kParseRequestHeader req (concat (map render_header hs) @ CRLF @ rest) =
       Inr (True, kParseGotCompleteRequest, add_headers hs req, rest)"
proof (induction hs arbitrary: req)
  case Nil
  then show ?case
    using split_crlf_line [of "[]" rest]
    by (subst parse_stream.simps) (simp add: add_headers_def)
next
  case (Cons h hs)
  obtain n v where h: "h = (n, v)" by (cases h)
  have ok: "CHR '':'' \<notin> set n" "CR \<notin> set (n @ '': '' @ v)" "v = [] \<or> hd v \<noteq> CHR '' ''"
    using Cons.prems h by (auto simp: header_ok_def CR_def)
  let ?more = "concat (map render_header hs) @ CRLF @ rest"
  have "concat (map render_header (h # hs)) @ CRLF @ rest = (n @ '': '' @ v) @ CRLF @ ?more"
    by (simp add: h render_header_def)
  then have line: "split_crlf (concat (map render_header (h # hs)) @ CRLF @ rest) = Some (n @ '': '' @ v, ?more)"
    using split_crlf_line [OF ok(2)] by presburger
  have "split_at (CHR '':'') (n @ '': '' @ v) = Some (n, '' '' @ v)" using ok(1) by simp
  moreover have "dropWhile (\<lambda>c. c = CHR '' '') ('' '' @ v) = v" using ok(3) by (cases v) auto
  then have "parse_header n ('' '' @ v) req = req\<lparr>hearders := (hearders req)(n \<mapsto> v)\<rparr>"
    by (simp add: parse_header_def)
  ultimately have "parse_stream kParseRequestHeader req (concat (map render_header (h # hs)) @ CRLF @ rest) =
      parse_stream kParseRequestHeader (req\<lparr>hearders := (hearders req)(n \<mapsto> v)\<rparr>) ?more"
    using line by (subst parse_stream.simps) simp
  also have "\<dots> = Inr (True, kParseGotCompleteRequest, add_headers hs (req\<lparr>hearders := (hearders req)(n \<mapsto> v)\<rparr>), rest)"
    using Cons.prems by (intro Cons.IH) simp
  also have "add_headers hs (req\<lparr>hearders := (hearders req)(n \<mapsto> v)\<rparr>) = add_headers (h # hs) req"
    by (simp add: add_headers_def h map_add_upd_left map_add_assoc [symmetric])
  finally show ?case .
qed

lemma render_line_no_CR: "target_ok p q \<Longrightarrow> CR \<notin> set (render_line m p q v)"
  by (cases m) (auto simp: render_line_def target_ok_def render_target_def version_name_def CR_def
      split: option.splits)

lemma parse_stream_request:
  assumes "target_ok p q" and "\<forall>h \<in> set hs. header_ok h"
  shows "parse_stream kParseRequestLine req (render_request m p q v hs @ rest) =
    Inr (True, kParseGotCompleteRequest, add_headers hs (requested m p q v req), rest)"
proof -
  let ?more = "concat (map render_header hs) @ CRLF @ rest"
  have "split_crlf (render_request m p q v hs @ rest) = Some (render_line m p q v, ?more)"
    using split_crlf_line [OF render_line_no_CR [OF assms(1)], of m v ?more] by (simp add: render_request_def)
  then show ?thesis using parse_line_render [OF assms(1)] parse_stream_headers [OF assms(2)]
    by (subst parse_stream.simps) simp
qed

subsection \<open>Properties\<close>

text \<open>
  C9: \<open>ParseContent\<close> terminates on every buffer, and what it returns is what the line machine says
  about the unread bytes: the same verdict, the same next state and request, and exactly the
  lines that were consumed are gone from the buffer.
\<close>

theorem ParseContent_refines:
  assumes "buf_inv b" and "length (buffer b) < 2 ^ 31"
    and "working (parse_state c) \<or> GetCompleteRequest c"
  shows "\<exists>res. ParseContent c b = Some res \<and>
    shows_outcome c b (parse_stream (parse_state c) (request c) (content b)) res"
  using assms by (rule ParseContent_refines_stream)

definition buffer_of :: "bytes \<Rightarrow> Buffer" where
  "buffer_of data = append_data data (new_Buffer kInitialSize)"

lemma buffer_of_ok:
  "buf_inv (buffer_of data)" "content (buffer_of data) = data"
  "length data \<le> 1024 \<Longrightarrow> length (buffer (buffer_of data)) = 1032"
proof -
  note inv = buf_inv_new [of kInitialSize]
  show "buf_inv (buffer_of data)" and "content (buffer_of data) = data"
    unfolding buffer_of_def by (simp_all add: inv_rules content_append [OF inv])
  show "length (buffer (buffer_of data)) = 1032" if "length data \<le> 1024"
    unfolding buffer_of_def append_capacity [OF inv] using that
    by (simp add: new_Buffer_def kInitialSize_def kcheapPrepend_def readableBytes_def)
qed

lemma new_HttpContent_fields [simp]:
  "parse_state new_HttpContent = kParseRequestLine" "request new_HttpContent = new_HttpRequest"
  by (simp_all add: new_HttpContent_def)

lemma ParseContent_refines_witness:
  "\<exists>res. ParseContent new_HttpContent (buffer_of ''GET /'') = Some res"
  using ParseContent_refines [of "buffer_of ''GET /''" new_HttpContent]
  by (auto simp: buffer_of_ok working_def)

text \<open>
  C12: A client's request is recovered from its bytes: for every method, path, optional query, version
  and list of headers the rendered request is accepted, the machine reports a complete request, and the bytes behind
  the empty line stay in the buffer. A request object without a query and headers of an earlier request then holds exactly these (a later
  header of the same name wins); in any other one the earlier headers stay beside the new ones, and so does
  the earlier query if the request has none.
\<close>

theorem request_roundtrip:
  assumes "buf_inv b" and "length (buffer b) < 2 ^ 31" and "parse_state c = kParseRequestLine"
    and "target_ok p q" and "\<forall>h \<in> set hs. header_ok h"
    and "content b = render_request m p q v hs @ rest"
  shows "\<exists>c' b'. ParseContent c b = Some (Inr (True, c', b')) \<and> GetCompleteRequest c' \<and>
    request c' = add_headers hs (requested m p q v (request c)) \<and>
    (unused_request (request c) \<longrightarrow> request c' = sent_request m p q v hs) \<and> buf_inv b' \<and> content b' = rest"
proof -
  obtain c' b' where "ParseContent c b = Some (Inr (True, c', b'))" "GetCompleteRequest c'"
    "request c' = add_headers hs (requested m p q v (request c))" "buf_inv b'" "content b' = rest"
    using ParseContent_refines_stream [OF assms(1,2), of c] assms(3-6) parse_stream_request [OF assms(4,5)]
    by (auto simp: working_def GetCompleteRequest_def)
  then show ?thesis using request_of_unused [of "request c" hs m p q v] by (intro exI [of _ c'] exI [of _ b']) simp
qed

lemma request_roundtrip_witness:
  "\<exists>c' b'. ParseContent new_HttpContent
       (buffer_of (render_request kGet ''/a'' (Some ''k=1'') True [(''Host'', ''x:1'')] @ ''more'')) =
         Some (Inr (True, c', b')) \<and> content b' = ''more'' \<and> query (request c') = ''k=1''"
proof -
  let ?d = "render_request kGet ''/a'' (Some ''k=1'') True [(''Host'', ''x:1'')] @ ''more''"
  have "length ?d = 38" by code_simp
  then have "length (buffer (buffer_of ?d)) = 1032" by (intro buffer_of_ok(3)) simp
  then show ?thesis
    using request_roundtrip [of "buffer_of ?d" new_HttpContent "''/a''" "Some ''k=1''"
        "[(''Host'', ''x:1'')]" kGet True "''more''"]
    by (force simp: buffer_of_ok(1,2) target_ok_def header_ok_def CR_def add_headers_def requested_def)
qed

fun same_answer :: "fault + (bool \<times> HttpContent \<times> Buffer) \<Rightarrow> fault + (bool \<times> HttpContent \<times> Buffer) \<Rightarrow> bool" where
  "same_answer (Inr (ok, c, b)) (Inr (ok', c', b')) \<longleftrightarrow> ok = ok' \<and> c = c' \<and> content b = content b'"
| "same_answer (Inl f) (Inl g) \<longleftrightarrow> f = g"
| "same_answer _ _ \<longleftrightarrow> False"

lemma same_answer_outcome:
  "shows_outcome c b out res \<Longrightarrow> shows_outcome (c\<lparr>request := req, parse_state := st\<rparr>) b' out res' \<Longrightarrow>
     same_answer res res'"
  by (cases "(c, b, out, res)" rule: shows_outcome.cases) auto

text \<open>
  C17: How the bytes of a request are cut into segments does not matter: when the machine has worked on
  what had arrived and more bytes come in, going on gives the same answer, the same request and the same
  rest as if everything had been there at once.
\<close>

theorem ParseContent_incremental:
  assumes "buf_inv b" and "length (buffer b) < 2 ^ 31" and "working (parse_state c)"
    and "ParseContent c b = Some (Inr (True, c1, b1))" and "working (parse_state c1)"
    and "length (buffer (append_data ys b)) < 2 ^ 31" and "length (buffer (append_data ys b1)) < 2 ^ 31"
  shows "\<exists>res res'. ParseContent c (append_data ys b) = Some res \<and>
    ParseContent c1 (append_data ys b1) = Some res' \<and> same_answer res res'"
proof -
  let ?out = "parse_stream (parse_state c) (request c) (content b)"
  have first: "shows_outcome c b ?out (Inr (True, c1, b1))"
    using ParseContent_refines_stream [OF assms(1,2), of c] assms(3,4) by auto
  then obtain st req rest where out: "?out = Inr (True, st, req, rest)"
    by (cases ?out) (auto split: prod.splits)
  have c1: "c1 = c\<lparr>request := req, parse_state := st\<rparr>" and b1: "buf_inv b1" "content b1 = rest"
    using first out by auto
  have more: "parse_stream (parse_state c) (request c) (content b @ ys) = parse_stream st req (rest @ ys)"
    using out assms(3,5) c1 by (intro parse_stream_append) simp_all
  obtain res where res: "ParseContent c (append_data ys b) = Some res"
      "shows_outcome c (append_data ys b) (parse_stream st req (rest @ ys)) res"
    using ParseContent_refines_stream [OF buf_inv_append [OF assms(1)] assms(6), of c] assms(3) more
    by (auto simp: content_append [OF assms(1)])
  obtain res' where res': "ParseContent c1 (append_data ys b1) = Some res'"
      "shows_outcome c1 (append_data ys b1) (parse_stream st req (rest @ ys)) res'"
    using ParseContent_refines_stream [OF buf_inv_append [OF b1(1)] assms(7), of c1] assms(5) c1
    by (auto simp: content_append [OF b1(1)] b1(2))
  show ?thesis using res res' c1 same_answer_outcome by blast
qed

lemma ParseContent_incremental_witness:
  "\<exists>c1 b1 res res'. ParseContent new_HttpContent (buffer_of ''GET /'') = Some (Inr (True, c1, b1)) \<and>
     ParseContent new_HttpContent (append_data ''a HTTP/1.1'' (buffer_of ''GET /'')) = Some res \<and>
     ParseContent c1 (append_data ''a HTTP/1.1'' b1) = Some res' \<and> same_answer res res'"
proof -
  let ?b = "buffer_of ''GET /''"
  have noline: "split_crlf (content ?b) = None"
    by (rule split_crlf_no_CR) (simp add: buffer_of_ok CR_def)
  have one: "ParseContent new_HttpContent ?b = Some (Inr (True, new_HttpContent, ?b))"
    unfolding ParseContent_def
    by (subst ParseContent_loop.simps)
      (simp add: ParseContent_step_def ParseContent_branch_def no_line_step [OF buffer_of_ok(1) noline])
  have small: "length (buffer ?b) = 1032" by (rule buffer_of_ok(3)) simp
  then have "length (buffer (append_data ''a HTTP/1.1'' ?b)) = 1032"
    using length_content [OF buffer_of_ok(1), of "''GET /''"]
    by (simp add: append_capacity buffer_of_ok kcheapPrepend_def)
  then show ?thesis
    using ParseContent_incremental [OF buffer_of_ok(1) _ _ one, of "''a HTTP/1.1''"] small one
    by (auto simp: working_def)
qed

text \<open>
  C27: From any state the machine can be in, \<open>ParseContent\<close> returns, the only way it can fail is the
  exception of the query cut at a misplaced question mark, the machine is again in one of its three
  states, an unreadable request line is the only reason for the verdict false, and the unread
  bytes only lose a prefix.
\<close>

theorem ParseContent_returns:
  assumes "buf_inv b" and "length (buffer b) < 2 ^ 31"
    and "working (parse_state c) \<or> GetCompleteRequest c"
  shows "ParseContent c b = Some (Inl LengthError) \<or>
    (\<exists>ok c' b'. ParseContent c b = Some (Inr (ok, c', b')) \<and> buf_inv b' \<and>
       (working (parse_state c') \<or> GetCompleteRequest c') \<and> (ok \<or> parse_state c' = kParseRequestLine) \<and>
       (\<exists>pre. content b = pre @ content b'))"
proof -
  let ?out = "parse_stream (parse_state c) (request c) (content b)"
  have "proper_outcome (content b) True ?out"
    using parse_stream_outcome [of "content b" "parse_state c" "request c"] assms(3)
    by (simp add: GetCompleteRequest_def)
  then show ?thesis
  proof (cases ?out)
    case (Inl f)
    then show ?thesis
      using ParseContent_refines_stream [OF assms] \<open>proper_outcome (content b) True ?out\<close>
      by (simp add: proper_outcome_def)
  next
    case (Inr p)
    obtain ok st req rest where p: "?out = Inr (ok, st, req, rest)" using Inr by (cases p) simp
    let ?c = "c\<lparr>request := req, parse_state := st\<rparr>"
    obtain b' where b': "ParseContent c b = Some (Inr (ok, ?c, b'))" "buf_inv b'" "content b' = rest"
      using ParseContent_refines_stream [OF assms] p by auto
    moreover have "(working (parse_state ?c) \<or> GetCompleteRequest ?c) \<and> (ok \<or> parse_state ?c = kParseRequestLine)"
      and "\<exists>pre. content b = pre @ content b'"
      using \<open>proper_outcome (content b) True ?out\<close> p b'(3)
      by (simp_all add: proper_outcome_def GetCompleteRequest_def)
    ultimately show ?thesis by blast
  qed
qed

lemma ParseContent_returns_witness:
  "ParseContent new_HttpContent (buffer_of ''xy'') \<noteq> None"
  using ParseContent_returns [of "buffer_of ''xy''" new_HttpContent]
  by (auto simp: buffer_of_ok working_def)

text \<open>
  In the states the loop has no branch for (\<open>kParseBody\<close> is a stub, \<open>kParseErrno\<close> has none)
  \<open>ParseContent\<close> never returns. No run of the machine gets into them.
\<close>

theorem unhandled_state_spins:
  assumes "parse_state c = kParseBody \<or> parse_state c = kParseErrno"
  shows "ParseContent c b = None"
proof -
  have "\<not> (parse_state c = kParseBody \<or> parse_state c = kParseErrno) \<or> crlf \<noteq> None"
    if "ParseContent_loop c b ok crlf = Some res" for c b ok crlf res
    using that
  proof (induction rule: ParseContent_loop.raw_induct [rotated, consumes 1])
    case (1 f c b ok crlf res)
    show ?case
    proof (rule ccontr)
      assume "\<not> ?case"
      then have bad: "parse_state c = kParseBody \<or> parse_state c = kParseErrno" "crlf = None" by auto
      then have "f c b ok None = Some res"
        using 1(2) by (auto simp: ParseContent_step_def ParseContent_branch_def)
      then show False using 1(1) bad(1) by blast
    qed
  qed
  then show ?thesis using assms unfolding ParseContent_def by (metis not_Some_eq)
qed

lemma unhandled_state_spins_witness:
  "ParseContent (new_HttpContent\<lparr>parse_state := kParseBody\<rparr>) (new_Buffer 4) = None"
  by (rule unhandled_state_spins) simp

text \<open>
  A header line without a colon is taken for the empty line: the request counts as complete and
  the headers behind that line stay in the buffer, to be read as the next request.
\<close>

theorem colonless_line_ends_headers:
  assumes "buf_inv b" and "length (buffer b) < 2 ^ 31" and "parse_state c = kParseRequestHeader"
    and "content b = l @ CRLF @ rest" and "CR \<notin> set l" and "CHR '':'' \<notin> set l"
  shows "\<exists>b'. ParseContent c b = Some (Inr (True, c\<lparr>parse_state := kParseGotCompleteRequest\<rparr>, b')) \<and>
    content b' = rest"
proof -
  have "parse_stream kParseRequestHeader (request c) (content b) =
      Inr (True, kParseGotCompleteRequest, request c, rest)"
    using split_crlf_line [OF assms(5), of rest] assms(4,6) by (subst parse_stream.simps) simp
  then show ?thesis using ParseContent_refines_stream [OF assms(1,2), of c] assms(3)
    by (auto simp: working_def)
qed

lemma colonless_line_ends_headers_witness:
  "\<exists>b'. ParseContent (new_HttpContent\<lparr>parse_state := kParseRequestHeader\<rparr>) (buffer_of (''junk'' @ CRLF @ ''A: b'')) =
      Some (Inr (True, new_HttpContent\<lparr>parse_state := kParseGotCompleteRequest\<rparr>, b')) \<and> content b' = ''A: b''"
proof -
  have "length (buffer (buffer_of (''junk'' @ CRLF @ ''A: b''))) = 1032"
    by (rule buffer_of_ok(3)) (simp add: CRLF_def)
  then show ?thesis
    using colonless_line_ends_headers [of "buffer_of (''junk'' @ CRLF @ ''A: b'')"
        "new_HttpContent\<lparr>parse_state := kParseRequestHeader\<rparr>" "''junk''" "''A: b''"]
    by (simp add: buffer_of_ok CR_def)
qed

text \<open>
  \<open>ResetContentState\<close> resets the state only. The next request on the connection starts with the
  headers and the query of the one before: a request with neither still answers every
  \<open>GetHeader\<close> as the previous one did.
\<close>

theorem previous_request_leaks:
  assumes "buf_inv b" and "length (buffer b) < 2 ^ 31" and "target_ok p None"
    and "content b = render_request m p None v [] @ rest"
  shows "\<exists>c' b'. ParseContent (ResetContentState c) b = Some (Inr (True, c', b')) \<and>
    GetCompleteRequest c' \<and> query (request c') = query (request c) \<and>
    (\<forall>h. GetHeader h (request c') = GetHeader h (request c))"
  using ParseContent_refines_stream [OF assms(1,2), of "ResetContentState c"] assms(4)
    parse_stream_request [OF assms(3), of "[]" "request c" m v rest]
  by (auto simp: working_def GetCompleteRequest_def ResetContentState_def add_headers_def requested_def GetHeader_def)

definition after_close_request :: HttpContent where
  "after_close_request = new_HttpContent
     \<lparr>request := new_HttpRequest\<lparr>query := ''id=7'', hearders := [''Connection'' \<mapsto> ''Close'']\<rparr>,
      parse_state := kParseGotCompleteRequest\<rparr>"

lemma previous_request_leaks_witness:
  "\<exists>c' b'. ParseContent (ResetContentState after_close_request) (buffer_of (render_request kGet ''/'' None True [])) =
      Some (Inr (True, c', b')) \<and> query (request c') = ''id=7'' \<and> GetHeader ''Connection'' (request c') = ''Close''"
proof -
  have "length (render_request kGet ''/'' None True []) = 18" by code_simp
  then have "length (buffer (buffer_of (render_request kGet ''/'' None True []))) = 1032"
    by (intro buffer_of_ok(3)) simp
  moreover have "query (request after_close_request) = ''id=7''"
    "GetHeader ''Connection'' (request after_close_request) = ''Close''"
    by (simp_all add: after_close_request_def GetHeader_def)
  ultimately show ?thesis
    using previous_request_leaks [of "buffer_of (render_request kGet ''/'' None True [])" "''/''" kGet True "[]" after_close_request]
    by (force simp: buffer_of_ok(1,2) target_ok_def CR_def)
qed

end
