(* ===== verification/Net_TcpConnection.thy ===== *)
theory Net_TcpConnection
  imports Http_Content Net_EventLoop Base_Time
begin

text \<open>
  \<^verbatim>\<open>Net/TcpConnection.h\<close>, \<^verbatim>\<open>Net/TcpConnection.cc\<close>, \<^verbatim>\<open>Net/Socket.cc\<close>: one connection, its two buffers,
  its channel on the poller of its loop, and the closing protocol.

  What the kernel does is visible in three fields of the socket: \<open>wire\<close>, the bytes that \<open>write\<close> took
  over, in order, and the two flags that \<open>shutdown\<close> sets. The number that \<open>write\<close> returns is an
  argument; \<open>kernel_write\<close> moves the bytes that were taken. The user's callbacks are arguments as well
  (\<open>None\<close> is an empty \<open>std::function\<close>, calling it a fault). \<open>poller_of\<close> is the poller of the loop;
  \<open>loop_queue\<close> holds the functors queued on the loop by other threads.
\<close>

subsection \<open>State and operations\<close>

datatype ConnState = kConnecting | kConnected | kdisConnected | kDisConnecting

record Socket =
  sockfd :: int
  wire :: bytes
  wr_shut :: bool
  rd_shut :: bool

definition new_Socket :: "int \<Rightarrow> Socket" where
  "new_Socket f = \<lparr>sockfd = f, wire = [], wr_shut = False, rd_shut = False\<rparr>"

definition shutDownWrite :: "Socket \<Rightarrow> Socket" where
  "shutDownWrite s = s\<lparr>wr_shut := True\<rparr>"

definition shutDownRead :: "Socket \<Rightarrow> Socket" where
  "shutDownRead s = s\<lparr>rd_shut := True\<rparr>"

datatype conn_callback = HandleReadCb | HandleWriteCb | HandleErrorCb | HandleCloseCb

datatype conn_functor = ShutdownInloop

record TcpConnection =
  conn_name :: string
  socket :: Socket
  channel :: "conn_callback Channel"
  conn_state :: ConnState
  timestamp :: TimeStamp
  highWaterMark :: nat
  http_content :: HttpContent
  inputBuffer :: Buffer
  outputBuffer :: Buffer
  poller_of :: Epoller
  loop_queue :: "conn_functor EventLoop"

definition new_TcpConnection ::
  "nat \<Rightarrow> Epoller \<Rightarrow> conn_functor EventLoop \<Rightarrow> TimeStamp \<Rightarrow> string \<Rightarrow> int \<Rightarrow> TcpConnection" where
  "new_TcpConnection p ep lp0 t nameArg f =
     \<lparr>conn_name = nameArg, socket = new_Socket f,
      channel = setCloseCallBack HandleCloseCb (setErrorCallBack HandleErrorCb
        (setWriteCallBack HandleWriteCb (setReadCallBack HandleReadCb (new_Channel p f)))),
      conn_state = kConnecting, timestamp = t, highWaterMark = 64 * 1024 * 1024,
      http_content = new_HttpContent, inputBuffer = new_Buffer kInitialSize,
      outputBuffer = new_Buffer kInitialSize, poller_of = ep, loop_queue = lp0\<rparr>"

definition connected :: "TcpConnection \<Rightarrow> bool" where
  "connected c \<longleftrightarrow> conn_state c = kConnected"

definition IsShutdown :: "TcpConnection \<Rightarrow> bool" where
  "IsShutdown c \<longleftrightarrow> conn_state c = kDisConnecting"

definition updateTimeStamp :: "TimeStamp \<Rightarrow> TcpConnection \<Rightarrow> TcpConnection" where
  "updateTimeStamp t c = c\<lparr>timestamp := t\<rparr>"

text \<open>A user callback that was perhaps never set.\<close>

type_synonym conn_cb = "(TcpConnection \<Rightarrow> fault + TcpConnection) option"

definition call :: "conn_cb \<Rightarrow> TcpConnection \<Rightarrow> fault + TcpConnection" where
  "call cb c = (case cb of None \<Rightarrow> Inl BadFunctionCall | Some f \<Rightarrow> f c)"

text \<open>An operation of the connection's channel, through its loop to the poller.\<close>

definition on_channel :: "channel_op \<Rightarrow> TcpConnection \<Rightarrow> TcpConnection" where
  "on_channel op c =
     (let (ch, ep) = channel_step op (channel c) (poller_of c)
      in c\<lparr>channel := ch, poller_of := ep\<rparr>)"

definition connectEstablished :: "conn_cb \<Rightarrow> TcpConnection \<Rightarrow> fault + TcpConnection" where
  "connectEstablished connectioncb c =
     call connectioncb (on_channel EnableReading (c\<lparr>conn_state := kConnected\<rparr>))"

definition connectDestoryed :: "conn_cb \<Rightarrow> TcpConnection \<Rightarrow> fault + TcpConnection" where
  "connectDestoryed connectioncb c =
     (if conn_state c = kConnected
      then (case call connectioncb (on_channel DisableAll (c\<lparr>conn_state := kdisConnected\<rparr>)) of
              Inl f \<Rightarrow> Inl f
            | Inr c1 \<Rightarrow> Inr (on_channel Remove c1))
      else Inr (on_channel Remove c))"

definition shutdownInloop :: "TcpConnection \<Rightarrow> TcpConnection" where
  "shutdownInloop c =
     (if \<not> isWriting (channel c) then c\<lparr>socket := shutDownWrite (socket c)\<rparr> else c)"

definition shutdown :: "bool \<Rightarrow> TcpConnection \<Rightarrow> TcpConnection" where
  "shutdown isInLoopThread c =
     (if conn_state c = kConnected
      then (let c1 = c\<lparr>conn_state := kDisConnecting\<rparr>
            in if isInLoopThread then shutdownInloop c1
               else c1\<lparr>loop_queue := queueInLoop isInLoopThread ShutdownInloop (loop_queue c1)\<rparr>)
      else c)"

definition shutdownRead :: "TcpConnection \<Rightarrow> TcpConnection" where
  "shutdownRead c =
     (if conn_state c = kConnected
      then c\<lparr>conn_state := kDisConnecting, socket := shutDownRead (socket c)\<rparr> else c)"

text \<open>\<open>write\<close> returned \<open>w\<close> for the bytes \<open>data\<close>.\<close>

definition kernel_write :: "int \<Rightarrow> bytes \<Rightarrow> TcpConnection \<Rightarrow> TcpConnection" where
  "kernel_write w data c = c\<lparr>socket := (socket c)\<lparr>wire := wire (socket c) @ take (nat w) data\<rparr>\<rparr>"

text \<open>
  \<open>send(const string&)\<close>: the direct write, then the rest into the output buffer. Both error cases of
  the write return. \<open>remain\<close> and \<open>send_size\<close> are \<open>int\<close>s.
\<close>

definition send_rest :: "bytes \<Rightarrow> int \<Rightarrow> int \<Rightarrow> TcpConnection \<Rightarrow> fault + TcpConnection" where
  "send_rest message send_size remain c =
     (if to_size remain \<le> length message
      then (if remain > 0
            then (let c1 = c\<lparr>outputBuffer := append_data
                         (seg message (nat send_size) (nat send_size + nat remain)) (outputBuffer c)\<rparr>
                  in Inr (if \<not> isWriting (channel c1) then on_channel EnableWriting c1 else c1))
            else Inr c)
      else Inl AssertFailed)"

definition send :: "int \<Rightarrow> bytes \<Rightarrow> TcpConnection \<Rightarrow> fault + TcpConnection" where
  "send w message c =
     (let remain = c_int (int (length message))
      in if \<not> isWriting (channel c) \<and> readableBytes (outputBuffer c) = 0
         then (let c1 = kernel_write w message c;
                   send_size = c_int w
               in if send_size \<ge> 0 then send_rest message send_size (remain - send_size) c1 else Inr c1)
         else send_rest message 0 remain c)"

definition send_buffer :: "int \<Rightarrow> Buffer \<Rightarrow> TcpConnection \<Rightarrow> fault + (TcpConnection \<times> Buffer)" where
  "send_buffer w b c =
     (if conn_state c = kConnected
      then (case send w (seg (buffer b) (peek b) (peek b + readableBytes b)) c of
              Inl f \<Rightarrow> Inl f
            | Inr c1 \<Rightarrow> Inr (c1, retrieveAll b))
      else Inr (c, b))"

definition handleWrite :: "int \<Rightarrow> TcpConnection \<Rightarrow> TcpConnection" where
  "handleWrite w c =
     (if isWriting (channel c)
      then (let n = writeFd (\<lambda>_. w) (outputBuffer c);
                c1 = kernel_write n (seg (buffer (outputBuffer c)) (peek (outputBuffer c))
                       (peek (outputBuffer c) + readableBytes (outputBuffer c))) c
            in if n > 0
               then (let c2 = c1\<lparr>outputBuffer := retrieve (nat n) (outputBuffer c1)\<rparr>
                     in if readableBytes (outputBuffer c2) = 0
                        then (let c3 = on_channel DisableWriting c2
                              in if conn_state c3 = kDisConnecting then shutdownInloop c3 else c3)
                        else c2)
               else c1)
      else c)"

definition handleClose :: "conn_cb \<Rightarrow> conn_cb \<Rightarrow> TcpConnection \<Rightarrow> fault + TcpConnection" where
  "handleClose connectioncb closecb c =
     (let c1 = on_channel DisableAll (c\<lparr>conn_state := kdisConnected\<rparr>)
      in case call connectioncb c1 of Inl f \<Rightarrow> Inl f | Inr c2 \<Rightarrow> call closecb c2)"

text \<open>\<open>handleError\<close> only prints.\<close>

definition handleError :: "TcpConnection \<Rightarrow> TcpConnection" where
  "handleError c = c"

text \<open>
  \<open>handleRead\<close>: \<open>n\<close> is what \<open>readFd\<close> seems to return. The function has no return statement, so
  nothing ties \<open>n\<close> to the bytes read.
\<close>

definition conn_handleRead ::
  "(nat \<Rightarrow> int \<times> bytes) \<Rightarrow> int \<Rightarrow> conn_cb \<Rightarrow> conn_cb \<Rightarrow> conn_cb \<Rightarrow> TcpConnection \<Rightarrow> fault + TcpConnection" where
  "conn_handleRead readv n messagecb connectioncb closecb c =
     (case readFd readv (inputBuffer c) of
        Inl f \<Rightarrow> Inl f
      | Inr b \<Rightarrow>
          (let c1 = c\<lparr>inputBuffer := b\<rparr>
           in if n > 0 then call messagecb c1
              else if n = 0 then handleClose connectioncb closecb c1
              else Inr (handleError c1)))"

text \<open>The queued functors of the loop, run by \<open>doPendingFunctors\<close>.\<close>

fun run_conn_functor :: "conn_functor \<Rightarrow> TcpConnection \<Rightarrow> TcpConnection" where
  "run_conn_functor ShutdownInloop c = shutdownInloop c"

definition run_queued :: "TcpConnection \<Rightarrow> TcpConnection" where
  "run_queued c =
     (let (fs, L) = begin_pending (loop_queue c);
          c1 = fold run_conn_functor fs (c\<lparr>loop_queue := L\<rparr>)
      in c1\<lparr>loop_queue := end_pending (loop_queue c1)\<rparr>)"

subsection \<open>The life of a connection\<close>

text \<open>
  A connection among the events of its loop and the calls of its user. The user's callbacks return at
  once; what they would do are further steps. \<open>accepted\<close> collects the messages that \<open>send\<close> took
  responsibility for: all but those whose direct write failed. \<open>write_ok\<close> is what \<open>write\<close> documents:
  at most the bytes offered, \<open>-1\<close> for an error, an error after \<open>SHUT_WR\<close>.
\<close>

record ConnSystem =
  conn :: TcpConnection
  accepted :: bytes
  destroyed :: bool

definition write_ok :: "int \<Rightarrow> nat \<Rightarrow> TcpConnection \<Rightarrow> bool" where
  "write_ok w n c \<longleftrightarrow> - 1 \<le> w \<and> w \<le> int n \<and> (wr_shut (socket c) \<longrightarrow> w = - 1)"

definition direct_write :: "TcpConnection \<Rightarrow> bool" where
  "direct_write c \<longleftrightarrow> \<not> isWriting (channel c) \<and> readableBytes (outputBuffer c) = 0"

text \<open>The part of a reply that joins the output: nothing if the direct write fails.\<close>

definition kept :: "int \<Rightarrow> TcpConnection \<Rightarrow> bytes \<Rightarrow> bytes" where
  "kept w c m = (if direct_write c \<and> w < 0 then [] else m)"

definition open_conn :: "ConnSystem \<Rightarrow> bool" where
  "open_conn S \<longleftrightarrow> \<not> destroyed S \<and> (conn_state (conn S) = kConnected \<or> conn_state (conn S) = kDisConnecting)"

abbreviation quiet :: conn_cb where
  "quiet \<equiv> Some Inr"

inductive conn_step :: "ConnSystem \<Rightarrow> ConnSystem \<Rightarrow> bool" where
  establish: "\<not> destroyed S \<Longrightarrow> conn_state (conn S) = kConnecting \<Longrightarrow>
    connectEstablished quiet (conn S) = Inr c \<Longrightarrow> conn_step S (S\<lparr>conn := c\<rparr>)"
| send: "open_conn S \<Longrightarrow> length m < 2 ^ 31 \<Longrightarrow> write_ok w (length m) (conn S) \<Longrightarrow>
    send w m (conn S) = Inr c \<Longrightarrow>
    conn_step S (S\<lparr>conn := c, accepted := accepted S @ (if direct_write (conn S) \<and> w < 0 then [] else m)\<rparr>)"
| writable: "open_conn S \<Longrightarrow> write_ok w (readableBytes (outputBuffer (conn S))) (conn S) \<Longrightarrow>
    conn_step S (S\<lparr>conn := handleWrite w (conn S)\<rparr>)"
| readable: "open_conn S \<Longrightarrow> readv (readFd_capacity (inputBuffer (conn S))) = (int (length data), data) \<Longrightarrow>
    length data \<le> readFd_capacity (inputBuffer (conn S)) \<Longrightarrow> length data < 2 ^ 64 \<Longrightarrow>
    conn_handleRead readv n quiet quiet quiet (conn S) = Inr c \<Longrightarrow> conn_step S (S\<lparr>conn := c\<rparr>)"
| consume: "open_conn S \<Longrightarrow>
    conn_step S (S\<lparr>conn := (conn S)\<lparr>inputBuffer := retrieve k (inputBuffer (conn S))\<rparr>\<rparr>)"
| hangup: "open_conn S \<Longrightarrow> handleClose quiet quiet (conn S) = Inr c \<Longrightarrow> conn_step S (S\<lparr>conn := c\<rparr>)"
| shutdown: "open_conn S \<Longrightarrow> conn_step S (S\<lparr>conn := shutdown t (conn S)\<rparr>)"
| shutdown_read: "open_conn S \<Longrightarrow> conn_step S (S\<lparr>conn := shutdownRead (conn S)\<rparr>)"
| run_queue: "\<not> destroyed S \<Longrightarrow> conn_state (conn S) \<noteq> kConnecting \<Longrightarrow>
    conn_step S (S\<lparr>conn := run_queued (conn S)\<rparr>)"
| destroy: "\<not> destroyed S \<Longrightarrow> conn_state (conn S) \<noteq> kConnecting \<Longrightarrow>
    connectDestoryed quiet (conn S) = Inr c \<Longrightarrow> conn_step S (S\<lparr>conn := c, destroyed := True\<rparr>)"

inductive conn_reachable :: "ConnSystem \<Rightarrow> bool" where
  start: "interest ep = Some K \<Longrightarrow> K f = None \<Longrightarrow>
    conn_reachable \<lparr>conn = new_TcpConnection p ep new_EventLoop t nm f, accepted = [], destroyed = False\<rparr>"
| step: "conn_reachable S \<Longrightarrow> conn_step S T \<Longrightarrow> conn_reachable T"

subsection \<open>The channel of a connection\<close>

definition poll_inv :: "'cb Channel \<Rightarrow> Epoller \<Rightarrow> bool" where
  "poll_inv ch ep \<longleftrightarrow> (\<exists>K. interest ep = Some K \<and> registered_as K ch \<and> K (fd ch) = entry ch)"

lemma poll_inv_step:
  assumes "poll_inv ch ep" and "channel_step op ch ep = (ch', ep')"
  shows "poll_inv ch' ep'" and "fd ch' = fd ch" and "this ch' = this ch"
    and "events ch' = events (set_events op ch)"
proof -
  obtain K where K: "interest ep = Some K" "registered_as K ch" using assms(1) unfolding poll_inv_def by blast
  from netpoll.op_law [OF this assms(2) [unfolded channel_step_run_op]]
  show "poll_inv ch' ep'" and "fd ch' = fd ch" and "this ch' = this ch"
    and "events ch' = events (set_events op ch)"
    by (simp_all add: poll_inv_def)
qed

lemma poll_inv_new: "interest ep = Some K \<Longrightarrow> K f = None \<Longrightarrow>
    poll_inv (setCloseCallBack a (setErrorCallBack b (setWriteCallBack d (setReadCallBack e (new_Channel p f))))) ep"
  by (simp add: poll_inv_def registered_as_def entry_def valid_index_def new_Channel_def kNew_def kAdded_def
      setCloseCallBack_def setErrorCallBack_def setWriteCallBack_def setReadCallBack_def)

lemma on_channel_fields [simp]:
  "conn_name (on_channel op c) = conn_name c" "socket (on_channel op c) = socket c"
  "conn_state (on_channel op c) = conn_state c" "http_content (on_channel op c) = http_content c"
  "inputBuffer (on_channel op c) = inputBuffer c" "outputBuffer (on_channel op c) = outputBuffer c"
  "loop_queue (on_channel op c) = loop_queue c" "timestamp (on_channel op c) = timestamp c"
  by (simp_all add: on_channel_def split: prod.split)

definition conn_poll :: "TcpConnection \<Rightarrow> bool" where
  "conn_poll c \<longleftrightarrow> poll_inv (channel c) (poller_of c)"

lemma on_channel_poll [inv_rules]: "conn_poll c \<Longrightarrow> conn_poll (on_channel op c)"
  using poll_inv_step(1) [of "channel c" "poller_of c" op]
  by (simp add: conn_poll_def on_channel_def split: prod.split)

lemma on_channel_events:
  "conn_poll c \<Longrightarrow> isReading (channel (on_channel op c)) = isReading (set_events op (channel c))"
  "conn_poll c \<Longrightarrow> isWriting (channel (on_channel op c)) = isWriting (set_events op (channel c))"
  using poll_inv_step(4) [of "channel c" "poller_of c" op]
  by (simp_all add: conn_poll_def on_channel_def isReading_def isWriting_def split: prod.split)

lemma updateChannel_added:
  "updateChannel ch ep = (ch', ep') \<Longrightarrow> valid_index ch \<Longrightarrow> \<not> isNonEvent ch \<Longrightarrow> index ch' = kAdded"
  by (auto simp: updateChannel_def valid_index_def Let_def split: if_splits)

lemma reading_not_none: "isReading ch \<Longrightarrow> \<not> isNonEvent ch"
  by (auto simp: isReading_def isNonEvent_def kNoneEvent_def)

lemma on_channel_added:
  assumes "conn_poll c" and "isReading (set_events op (channel c))" and "op \<noteq> Remove"
  shows "index (channel (on_channel op c)) = kAdded"
proof -
  obtain ch ep where step: "channel_step op (channel c) (poller_of c) = (ch, ep)" by fastforce
  then have "updateChannel (set_events op (channel c)) (poller_of c) = (ch, ep)"
    using assms(3) by (simp add: channel_step_run_op run_op_def)
  moreover have "valid_index (set_events op (channel c))"
    using assms(1) by (auto simp: conn_poll_def poll_inv_def registered_as_def valid_index_def)
  ultimately have "index ch = kAdded"
    using updateChannel_added reading_not_none [OF assms(2)] by blast
  then show ?thesis using step by (simp add: on_channel_def)
qed

text \<open>The registration of an open connection: read interest always, write interest as given.\<close>

definition registered :: "bool \<Rightarrow> TcpConnection \<Rightarrow> bool" where
  "registered wr c \<longleftrightarrow> conn_poll c \<and> index (channel c) = kAdded \<and> isReading (channel c) \<and>
     (isWriting (channel c) \<longleftrightarrow> wr)"

lemma registered_on_channel:
  "conn_poll c \<Longrightarrow> \<not> isWriting (channel c) \<Longrightarrow> registered False (on_channel EnableReading c)"
  "registered wr c \<Longrightarrow> registered True (on_channel EnableWriting c)"
  "registered wr c \<Longrightarrow> registered False (on_channel DisableWriting c)"
  by (simp_all add: registered_def on_channel_events on_channel_added inv_rules)

lemma registered_cong:
  "channel c' = channel c \<Longrightarrow> poller_of c' = poller_of c \<Longrightarrow> registered wr c' = registered wr c"
  by (simp add: registered_def conn_poll_def)

subsection \<open>Invariant of the connection\<close>

text \<open>What was accepted is on the wire or waits in the output buffer, in order.\<close>

definition stream_inv :: "TcpConnection \<Rightarrow> bytes \<Rightarrow> bool" where
  "stream_inv c acc \<longleftrightarrow> buf_inv (inputBuffer c) \<and> buf_inv (outputBuffer c) \<and>
     wire (socket c) @ content (outputBuffer c) = acc"

text \<open>
  An open connection wants write events exactly while output waits; the write side is shut
  only in the closing state and with nothing left to send, and it is shut once nothing is left and
  no queued functor will do it (a closing that shut the read side does not ask for it).
\<close>

definition open_inv :: "TcpConnection \<Rightarrow> bool" where
  "open_inv c \<longleftrightarrow> registered (content (outputBuffer c) \<noteq> []) c \<and>
     (wr_shut (socket c) \<longrightarrow> content (outputBuffer c) = [] \<and> conn_state c = kDisConnecting) \<and>
     (conn_state c = kDisConnecting \<and> content (outputBuffer c) = [] \<and>
        pendingFunctors (loop_queue c) = [] \<and> \<not> rd_shut (socket c) \<longrightarrow> wr_shut (socket c)) \<and>
     (pendingFunctors (loop_queue c) \<noteq> [] \<longrightarrow> conn_state c = kDisConnecting)"

lemma open_invI:
  "registered (content (outputBuffer c) \<noteq> []) c \<Longrightarrow>
   (wr_shut (socket c) \<Longrightarrow> content (outputBuffer c) = [] \<and> conn_state c = kDisConnecting) \<Longrightarrow>
   (conn_state c = kDisConnecting \<Longrightarrow> content (outputBuffer c) = [] \<Longrightarrow>
      pendingFunctors (loop_queue c) = [] \<Longrightarrow> \<not> rd_shut (socket c) \<Longrightarrow> wr_shut (socket c)) \<Longrightarrow>
   (pendingFunctors (loop_queue c) \<noteq> [] \<Longrightarrow> conn_state c = kDisConnecting) \<Longrightarrow> open_inv c"
  unfolding open_inv_def by blast

lemma open_invD:
  "open_inv c \<Longrightarrow> registered (content (outputBuffer c) \<noteq> []) c"
  "open_inv c \<Longrightarrow> wr_shut (socket c) \<Longrightarrow> content (outputBuffer c) = [] \<and> conn_state c = kDisConnecting"
  "open_inv c \<Longrightarrow> conn_state c = kDisConnecting \<Longrightarrow> content (outputBuffer c) = [] \<Longrightarrow>
     pendingFunctors (loop_queue c) = [] \<Longrightarrow> \<not> rd_shut (socket c) \<Longrightarrow> wr_shut (socket c)"
  "open_inv c \<Longrightarrow> pendingFunctors (loop_queue c) \<noteq> [] \<Longrightarrow> conn_state c = kDisConnecting"
  unfolding open_inv_def by blast+

lemma open_inv_writing: "open_inv c \<Longrightarrow> isWriting (channel c) \<longleftrightarrow> content (outputBuffer c) \<noteq> []"
  using open_invD(1) [of c] by (simp add: registered_def)

lemma registered_frame [simp]:
  "registered wr (c\<lparr>outputBuffer := b\<rparr>) = registered wr c" "registered wr (c\<lparr>inputBuffer := b\<rparr>) = registered wr c"
  "registered wr (c\<lparr>socket := s\<rparr>) = registered wr c" "registered wr (c\<lparr>conn_state := st\<rparr>) = registered wr c"
  "registered wr (c\<lparr>loop_queue := L\<rparr>) = registered wr c"
  "registered wr (kernel_write w d c) = registered wr c" "registered wr (shutdownInloop c) = registered wr c"
  by (simp_all add: registered_def conn_poll_def kernel_write_def shutdownInloop_def)

definition fresh_inv :: "TcpConnection \<Rightarrow> bool" where
  "fresh_inv c \<longleftrightarrow> conn_poll c \<and> \<not> isWriting (channel c) \<and> content (outputBuffer c) = [] \<and>
     \<not> wr_shut (socket c) \<and> pendingFunctors (loop_queue c) = []"

definition conn_inv :: "ConnSystem \<Rightarrow> bool" where
  "conn_inv S \<longleftrightarrow> stream_inv (conn S) (accepted S) \<and> (open_conn S \<longrightarrow> open_inv (conn S)) \<and>
     (\<not> destroyed S \<and> conn_state (conn S) = kConnecting \<longrightarrow> fresh_inv (conn S))"

lemma send_rest_ok:
  assumes "stream_inv c acc" and "registered (content (outputBuffer c) \<noteq> []) c"
    and "k \<le> length m" and "length m < 2 ^ 31"
  shows "\<exists>c'. send_rest m (int k) (int (length m) - int k) c = Inr c' \<and> stream_inv c' (acc @ drop k m) \<and>
    socket c' = socket c \<and> conn_state c' = conn_state c \<and> loop_queue c' = loop_queue c \<and>
    content (outputBuffer c') = content (outputBuffer c) @ drop k m \<and>
    registered (content (outputBuffer c') \<noteq> []) c'"
proof (cases "k = length m")
  case True
  then have "send_rest m (int k) (int (length m) - int k) c = Inr c"
    by (simp add: send_rest_def to_size_def)
  then show ?thesis using True assms by simp
next
  case False
  let ?c1 = "c\<lparr>outputBuffer := append_data (drop k m) (outputBuffer c)\<rparr>"
  let ?c' = "if \<not> isWriting (channel ?c1) then on_channel EnableWriting ?c1 else ?c1"
  have k: "k < length m" using False assms(3) by simp
  have inv: "buf_inv (outputBuffer c)" using assms(1) by (simp add: stream_inv_def)
  have "to_size (int (length m) - int k) = length m - k"
    using k assms(4) by (simp add: to_size_def flip: of_nat_diff)
  moreover have "seg m k (k + (length m - k)) = drop k m" by (simp add: seg_def)
  moreover have "nat (int (length m) - int k) = length m - k" by simp
  ultimately have "send_rest m (int k) (int (length m) - int k) c = Inr ?c'"
    using k by (simp add: send_rest_def Let_def)
  moreover have "registered True ?c'"
    using assms(2) registered_on_channel(2) [of "content (outputBuffer c) \<noteq> []" ?c1]
    by (auto simp: registered_def conn_poll_def)
  moreover have "outputBuffer ?c' = append_data (drop k m) (outputBuffer c)" "socket ?c' = socket c"
    "conn_state ?c' = conn_state c" "loop_queue ?c' = loop_queue c" "inputBuffer ?c' = inputBuffer c"
    by simp_all
  ultimately show ?thesis
    using assms(1) k inv by (intro exI [of _ ?c']) (simp only: stream_inv_def, simp add: inv_rules content_append)
qed

lemma kernel_write_fields [simp]:
  "channel (kernel_write w d c) = channel c" "poller_of (kernel_write w d c) = poller_of c"
  "conn_state (kernel_write w d c) = conn_state c" "outputBuffer (kernel_write w d c) = outputBuffer c"
  "inputBuffer (kernel_write w d c) = inputBuffer c" "loop_queue (kernel_write w d c) = loop_queue c"
  "wr_shut (socket (kernel_write w d c)) = wr_shut (socket c)"
  "rd_shut (socket (kernel_write w d c)) = rd_shut (socket c)"
  "wire (socket (kernel_write w d c)) = wire (socket c) @ take (nat w) d"
  by (simp_all add: kernel_write_def)

lemma kernel_write_none [simp]: "w \<le> 0 \<Longrightarrow> kernel_write w d c = c"
  by (cases c; cases "socket c") (simp add: kernel_write_def)

lemma readable_empty: "buf_inv b \<Longrightarrow> readableBytes b = 0 \<longleftrightarrow> content b = []"
  using length_content [of b] by auto

lemma direct_write_iff:
  assumes "stream_inv c acc" and "open_inv c"
  shows "direct_write c \<longleftrightarrow> content (outputBuffer c) = []"
proof -
  have "buf_inv (outputBuffer c)" using assms(1) by (simp add: stream_inv_def)
  then show ?thesis using open_inv_writing [OF assms(2)]
    by (simp add: direct_write_def readable_empty)
qed

lemma send_eq:
  "send w m c =
     (if direct_write c
      then (if c_int w \<ge> 0
            then send_rest m (c_int w) (c_int (int (length m)) - c_int w) (kernel_write w m c)
            else Inr (kernel_write w m c))
      else send_rest m 0 (c_int (int (length m))) c)"
  unfolding send_def direct_write_def Let_def by (rule refl)

lemma send_ok:
  assumes inv: "stream_inv c acc" "open_inv c" and small: "length m < 2 ^ 31"
    and w: "write_ok w (length m) c"
  shows "\<exists>c'. send w m c = Inr c' \<and> open_inv c' \<and> conn_state c' = conn_state c \<and>
    stream_inv c' (acc @ (if direct_write c \<and> w < 0 then [] else m))"
proof -
  note reg = open_invD(1) [OF inv(2)]
  have len: "c_int (int (length m)) = int (length m)" using small by (rule c_int_nat)
  show ?thesis
  proof (cases "direct_write c")
    case False
    have send: "send w m c = send_rest m (int 0) (int (length m) - int 0) c"
      using False len unfolding send_eq by simp
    have ne: "content (outputBuffer c) \<noteq> []" using False direct_write_iff [OF inv] by simp
    obtain c' where c': "send_rest m (int 0) (int (length m) - int 0) c = Inr c'"
      "stream_inv c' (acc @ drop 0 m)" "socket c' = socket c" "conn_state c' = conn_state c"
      "loop_queue c' = loop_queue c" "content (outputBuffer c') = content (outputBuffer c) @ drop 0 m"
      "registered (content (outputBuffer c') \<noteq> []) c'"
      using send_rest_ok [OF inv(1) reg _ small, of 0] by blast
    have "open_inv c'"
      by (rule open_invI) (use c' ne open_invD(2,4) [OF inv(2)] in simp_all)
    then show ?thesis using send c' False by simp
  next
    case True
    then have empty: "content (outputBuffer c) = []" using direct_write_iff [OF inv] by simp
    have cw: "c_int w = w" using w small by (intro c_int_id) (simp_all add: write_ok_def)
    show ?thesis
    proof (cases "w < 0")
      case neg: True
      then have "send w m c = Inr c" using True cw unfolding send_eq by simp
      then show ?thesis using True neg inv by simp
    next
      case False
      let ?c1 = "kernel_write w m c"
      let ?k = "nat w"
      have k: "int ?k = w" "?k \<le> length m" and open_wr: "\<not> wr_shut (socket c)"
        using False w by (auto simp: write_ok_def)
      have "0 \<le> w" using False by simp
      then have send: "send w m c = send_rest m (int ?k) (int (length m) - int ?k) ?c1"
        using True len cw unfolding send_eq k(1) by simp
      have "stream_inv ?c1 (acc @ take ?k m)"
        using inv(1) empty by (simp add: stream_inv_def)
      from send_rest_ok [OF this _ k(2) small] reg
      obtain c' where c': "send_rest m (int ?k) (int (length m) - int ?k) ?c1 = Inr c'"
        "stream_inv c' ((acc @ take ?k m) @ drop ?k m)" "socket c' = socket ?c1"
        "conn_state c' = conn_state c" "loop_queue c' = loop_queue c"
        "content (outputBuffer c') = drop ?k m" "registered (content (outputBuffer c') \<noteq> []) c'"
        using empty by auto
      have "open_inv c'"
        by (rule open_invI) (use c' open_invD(3,4) [OF inv(2)] open_wr empty in simp_all)
      then show ?thesis using send c' False by simp
    qed
  qed
qed

lemma shutdownInloop_fields [simp]:
  "channel (shutdownInloop c) = channel c" "poller_of (shutdownInloop c) = poller_of c"
  "conn_state (shutdownInloop c) = conn_state c" "outputBuffer (shutdownInloop c) = outputBuffer c"
  "inputBuffer (shutdownInloop c) = inputBuffer c" "loop_queue (shutdownInloop c) = loop_queue c"
  "wire (socket (shutdownInloop c)) = wire (socket c)"
  "rd_shut (socket (shutdownInloop c)) = rd_shut (socket c)"
  "wr_shut (socket (shutdownInloop c)) \<longleftrightarrow> wr_shut (socket c) \<or> \<not> isWriting (channel c)"
  by (auto simp: shutdownInloop_def shutDownWrite_def)

lemma stream_inv_shutdownInloop [simp]: "stream_inv (shutdownInloop c) acc = stream_inv c acc"
  by (simp add: stream_inv_def)

lemma handleWrite_ok:
  assumes inv: "stream_inv c acc" "open_inv c" and w: "write_ok w (readableBytes (outputBuffer c)) c"
  shows "stream_inv (handleWrite w c) acc \<and> open_inv (handleWrite w c) \<and>
    conn_state (handleWrite w c) = conn_state c"
proof (cases "isWriting (channel c) \<and> w > 0")
  case False
  then have "handleWrite w c = c" by (auto simp: handleWrite_def writeFd_def Let_def)
  then show ?thesis using inv by simp
next
  case True
  let ?ob = "outputBuffer c"
  let ?c2 = "(kernel_write w (content ?ob) c)\<lparr>outputBuffer := retrieve (nat w) ?ob\<rparr>"
  have ob: "buf_inv ?ob" using inv(1) by (simp add: stream_inv_def)
  then have off: "seg (buffer ?ob) (peek ?ob) (peek ?ob + readableBytes ?ob) = content ?ob"
    by (simp add: content_def peek_def readableBytes_def buf_inv_def)
  have n: "writeFd (\<lambda>_. w) ?ob = w" by (simp add: writeFd_def)
  have ne: "content ?ob \<noteq> []" using True open_inv_writing [OF inv(2)] by simp
  then have reg: "registered True c" and open_wr: "\<not> wr_shut (socket c)"
    using open_invD(1,2) [OF inv(2)] by auto
  have out2: "content (outputBuffer ?c2) = drop (nat w) (content ?ob)" "buf_inv (outputBuffer ?c2)"
    using ob by (simp_all add: content_retrieve inv_rules)
  have st2: "stream_inv ?c2 acc" using inv(1) ob by (simp add: stream_inv_def content_retrieve inv_rules)
  have reg2: "registered True ?c2" using reg by simp
  show ?thesis
  proof (cases "content (outputBuffer ?c2) = []")
    case False
    then have "handleWrite w c = ?c2"
      using True n off readable_empty [OF out2(2)] unfolding handleWrite_def Let_def by simp
    moreover have "open_inv ?c2"
      by (rule open_invI) (use False reg2 open_wr open_invD(4) [OF inv(2)] in simp_all)
    ultimately show ?thesis using st2 by simp
  next
    case empty: True
    let ?c3 = "on_channel DisableWriting ?c2"
    let ?c4 = "if conn_state c = kDisConnecting then shutdownInloop ?c3 else ?c3"
    have eq: "handleWrite w c = ?c4"
      using True n off readable_empty [OF out2(2)] empty unfolding handleWrite_def Let_def by simp
    have reg3: "registered False ?c3" using reg2 by (rule registered_on_channel(3))
    then have "\<not> isWriting (channel ?c3)" by (simp add: registered_def)
    then have "open_inv ?c4"
      by (intro open_invI) (use reg3 empty open_wr open_invD(4) [OF inv(2)] in \<open>simp_all split: if_splits\<close>)
    moreover have "stream_inv ?c4 acc" using st2 by (simp add: stream_inv_def)
    ultimately show ?thesis unfolding eq by simp
  qed
qed

lemma shutdown_ok:
  assumes "stream_inv c acc" and "open_inv c" and "conn_state c = kConnected \<or> conn_state c = kDisConnecting"
  shows "stream_inv (shutdown t c) acc \<and> open_inv (shutdown t c) \<and> conn_state (shutdown t c) = kDisConnecting"
proof (cases "conn_state c = kConnected")
  case False
  then show ?thesis using assms by (auto simp: shutdown_def)
next
  case True
  let ?c1 = "c\<lparr>conn_state := kDisConnecting\<rparr>"
  have open_wr: "\<not> wr_shut (socket c)" using open_invD(2) [OF assms(2)] True by auto
  note reg = open_invD(1) [OF assms(2)] and wr = open_inv_writing [OF assms(2)]
  show ?thesis
  proof (cases t)
    case t: True
    have "open_inv (shutdownInloop ?c1)" by (rule open_invI) (use reg wr open_wr in simp_all)
    then show ?thesis using assms(1) True t by (simp add: shutdown_def stream_inv_def)
  next
    case False
    let ?c2 = "?c1\<lparr>loop_queue := queueInLoop t ShutdownInloop (loop_queue c)\<rparr>"
    have "open_inv ?c2" by (rule open_invI) (use reg open_wr in simp_all)
    then show ?thesis using assms(1) True False by (simp add: shutdown_def stream_inv_def)
  qed
qed

lemma fold_functors_fields:
  "stream_inv (fold run_conn_functor fs c) acc = stream_inv c acc"
  "channel (fold run_conn_functor fs c) = channel c" "poller_of (fold run_conn_functor fs c) = poller_of c"
  "conn_state (fold run_conn_functor fs c) = conn_state c"
  "outputBuffer (fold run_conn_functor fs c) = outputBuffer c"
  "loop_queue (fold run_conn_functor fs c) = loop_queue c"
  "rd_shut (socket (fold run_conn_functor fs c)) = rd_shut (socket c)"
  "wr_shut (socket (fold run_conn_functor fs c)) \<longleftrightarrow>
     wr_shut (socket c) \<or> fs \<noteq> [] \<and> \<not> isWriting (channel c)"
proof (induction fs arbitrary: c)
  case (Cons f fs)
  {
    case 1 then show ?case using Cons.IH by (cases f) simp
  next
    case 2 then show ?case using Cons.IH by (cases f) simp
  next
    case 3 then show ?case using Cons.IH by (cases f) simp
  next
    case 4 then show ?case using Cons.IH by (cases f) simp
  next
    case 5 then show ?case using Cons.IH by (cases f) simp
  next
    case 6 then show ?case using Cons.IH by (cases f) simp
  next
    case 7 then show ?case using Cons.IH by (cases f) simp
  next
    case 8 then show ?case using Cons.IH by (cases f) auto
  }
qed simp_all

lemma open_inv_input: "open_inv (c\<lparr>inputBuffer := b\<rparr>) = open_inv c"
  by (simp add: open_inv_def)

lemma stream_inv_on_channel [simp]: "stream_inv (on_channel op c) acc = stream_inv c acc"
  by (simp add: stream_inv_def)

lemma stream_inv_frame [simp]:
  "stream_inv (c\<lparr>conn_state := st\<rparr>) acc = stream_inv c acc"
  "stream_inv (c\<lparr>loop_queue := L\<rparr>) acc = stream_inv c acc"
  by (simp_all add: stream_inv_def)

lemma handleClose_quiet:
  "handleClose quiet quiet c = Inr (on_channel DisableAll (c\<lparr>conn_state := kdisConnected\<rparr>))"
  by (simp add: handleClose_def call_def)

lemma conn_handleRead_ok:
  assumes "stream_inv c acc" and "open_inv c"
    and "readv (readFd_capacity (inputBuffer c)) = (int (length data), data)"
    and "length data \<le> readFd_capacity (inputBuffer c)" and "length data < 2 ^ 64"
  shows "\<exists>c'. conn_handleRead readv n quiet quiet quiet c = Inr c' \<and> stream_inv c' acc \<and>
    content (inputBuffer c') = content (inputBuffer c) @ data \<and>
    (n \<noteq> 0 \<and> open_inv c' \<and> conn_state c' = conn_state c \<or> n = 0 \<and> conn_state c' = kdisConnected)"
proof -
  have "buf_inv (inputBuffer c)" using assms(1) by (simp add: stream_inv_def)
  from readFd_success [where readv = readv, OF this assms(3-5)] obtain b where b: "readFd readv (inputBuffer c) = Inr b"
    "buf_inv b" "content b = content (inputBuffer c) @ data" by blast
  have "stream_inv (c\<lparr>inputBuffer := b\<rparr>) acc" using assms(1) b(2) by (simp add: stream_inv_def)
  then show ?thesis using b assms(2)
    by (simp add: open_inv_input conn_handleRead_def Let_def handleClose_quiet call_def handleError_def)
qed

lemma run_queued_ok:
  assumes "stream_inv c acc"
  shows "stream_inv (run_queued c) acc" and "conn_state (run_queued c) = conn_state c"
    and "open_inv c \<Longrightarrow> open_inv (run_queued c)"
proof -
  let ?fs = "pendingFunctors (loop_queue c)"
  let ?L = "snd (begin_pending (loop_queue c))"
  let ?c1 = "fold run_conn_functor ?fs (c\<lparr>loop_queue := ?L\<rparr>)"
  let ?c2 = "?c1\<lparr>loop_queue := end_pending ?L\<rparr>"
  have eq: "run_queued c = ?c2"
    by (simp add: run_queued_def begin_pending_def Let_def fold_functors_fields)
  show "stream_inv (run_queued c) acc" and "conn_state (run_queued c) = conn_state c"
    using assms unfolding eq by (simp_all add: fold_functors_fields)
  have none: "pendingFunctors (loop_queue ?c2) = []" by (simp add: begin_pending_def end_pending_def)
  assume inv: "open_inv c"
  have reg: "registered (content (outputBuffer c) \<noteq> []) ?c2"
    using open_invD(1) [OF inv] by (simp add: registered_def conn_poll_def fold_functors_fields)
  show "open_inv (run_queued c)"
    unfolding eq
  proof (rule open_invI)
    show "registered (content (outputBuffer ?c2) \<noteq> []) ?c2" using reg by (simp add: fold_functors_fields)
  next
    assume "wr_shut (socket ?c2)"
    then have "wr_shut (socket c) \<or> ?fs \<noteq> [] \<and> content (outputBuffer c) = []"
      using open_inv_writing [OF inv] by (simp add: fold_functors_fields)
    then show "content (outputBuffer ?c2) = [] \<and> conn_state ?c2 = kDisConnecting"
      using open_invD(2,4) [OF inv] by (auto simp: fold_functors_fields)
  next
    assume "conn_state ?c2 = kDisConnecting" and "content (outputBuffer ?c2) = []"
      and "\<not> rd_shut (socket ?c2)"
    then show "wr_shut (socket ?c2)"
      using open_invD(3) [OF inv] open_inv_writing [OF inv] by (auto simp: fold_functors_fields)
  next
    assume "pendingFunctors (loop_queue ?c2) \<noteq> []"
    then show "conn_state ?c2 = kDisConnecting" using none by simp
  qed
qed

lemma establish_ok:
  assumes "stream_inv c acc" and "fresh_inv c"
  shows "\<exists>c'. connectEstablished quiet c = Inr c' \<and> stream_inv c' acc \<and> open_inv c' \<and> conn_state c' = kConnected"
proof -
  let ?c1 = "c\<lparr>conn_state := kConnected\<rparr>"
  have "registered False (on_channel EnableReading ?c1)"
    using assms(2) by (intro registered_on_channel(1)) (simp_all add: fresh_inv_def conn_poll_def)
  then have "open_inv (on_channel EnableReading ?c1)"
    by (intro open_invI) (use assms(2) in \<open>simp_all add: fresh_inv_def\<close>)
  then show ?thesis using assms(1) by (simp add: connectEstablished_def call_def)
qed

lemma shutdownRead_ok:
  assumes "stream_inv c acc" and "open_inv c"
  shows "stream_inv (shutdownRead c) acc" and "open_inv (shutdownRead c)"
proof -
  show "stream_inv (shutdownRead c) acc"
    using assms(1) by (simp add: shutdownRead_def stream_inv_def shutDownRead_def)
  show "open_inv (shutdownRead c)"
  proof (cases "conn_state c = kConnected")
    case True
    then show ?thesis
      by (intro open_invI) (use open_invD [OF assms(2)] in \<open>auto simp: shutdownRead_def shutDownRead_def\<close>)
  next
    case False
    then show ?thesis using assms(2) by (simp add: shutdownRead_def)
  qed
qed

lemma conn_step_inv [inv_rules]:
  assumes "conn_step S T" and "conn_inv S"
  shows "conn_inv T"
proof -
  have st: "stream_inv (conn S) (accepted S)" using assms(2) by (simp add: conn_inv_def)
  have op: "open_inv (conn S)" if "open_conn S" using assms(2) that by (simp add: conn_inv_def)
  have inv: "conn_inv T" if "stream_inv (conn T) (accepted T)" "open_inv (conn T)" "conn_state (conn T) \<noteq> kConnecting"
    using that by (simp add: conn_inv_def)
  have not_new: "conn_state (conn S) \<noteq> kConnecting" if "open_conn S" using that by (auto simp: open_conn_def)
  from assms(1) show ?thesis
  proof (cases rule: conn_step.cases)
    case (establish c)
    have "fresh_inv (conn S)" using assms(2) establish by (simp add: conn_inv_def)
    then show ?thesis using establish_ok [OF st] establish by (intro inv) auto
  next
    case (send m w c)
    then show ?thesis using send_ok [OF st op send(3,4)] not_new by (intro inv) auto
  next
    case (writable w)
    then show ?thesis using handleWrite_ok [OF st op writable(3)] not_new by (intro inv) auto
  next
    case (readable readv data n c)
    from conn_handleRead_ok [where readv = readv, OF st op [OF readable(2)] readable(3-5), of n]
    show ?thesis using readable not_new by (auto simp: conn_inv_def open_conn_def)
  next
    case (consume k)
    have "stream_inv (conn T) (accepted T)"
      using st consume(1) by (simp add: stream_inv_def buf_inv_retrieve)
    then show ?thesis using op not_new consume by (intro inv) (simp_all add: open_inv_input)
  next
    case (hangup c)
    then have "conn T = on_channel DisableAll ((conn S)\<lparr>conn_state := kdisConnected\<rparr>)"
      by (simp add: handleClose_quiet)
    then show ?thesis using st hangup by (simp add: conn_inv_def open_conn_def)
  next
    case (shutdown t)
    then show ?thesis using shutdown_ok [OF st op, of t] by (intro inv) (auto simp: open_conn_def)
  next
    case shutdown_read
    then show ?thesis using shutdownRead_ok [OF st op] not_new
      by (intro inv) (auto simp: shutdownRead_def)
  next
    case run_queue
    note rq = run_queued_ok [OF st]
    show ?thesis using run_queue rq op by (auto simp: conn_inv_def open_conn_def)
  next
    case (destroy c)
    then have "stream_inv c (accepted S)"
      using st by (auto simp: connectDestoryed_def call_def split: if_splits)
    then show ?thesis using destroy by (simp add: conn_inv_def open_conn_def)
  qed
qed

lemma reachable_conn_inv: "conn_reachable S \<Longrightarrow> conn_inv S"
proof (induction rule: conn_reachable.induct)
  case (start ep K f p t nm)
  let ?c = "new_TcpConnection p ep new_EventLoop t nm f"
  have "conn_poll ?c" using poll_inv_new [OF start] by (simp add: conn_poll_def new_TcpConnection_def)
  moreover have "\<not> isWriting (channel ?c)"
    by (simp add: new_TcpConnection_def isWriting_def new_Channel_def setCloseCallBack_def setErrorCallBack_def
        setWriteCallBack_def setReadCallBack_def)
  ultimately show ?case
    by (simp add: conn_inv_def stream_inv_def open_conn_def fresh_inv_def new_TcpConnection_def new_Socket_def new_EventLoop_def)
qed (rule conn_step_inv)

subsection \<open>Properties\<close>

text \<open>
  C3: The output of a connection is one byte stream: at every moment the bytes the kernel took,
  followed by those in the output buffer, are exactly the messages that \<open>send\<close> accepted, in the order of
  the calls, whatever partial writes, write events, reads, closings and shutdowns happened.
\<close>

theorem output_stream_intact:
  assumes "conn_reachable S"
  shows "wire (socket (conn S)) @ content (outputBuffer (conn S)) = accepted S"
  using reachable_conn_inv [OF assms] by (simp add: conn_inv_def stream_inv_def)

definition demo_new :: ConnSystem where
  "demo_new = \<lparr>conn = new_TcpConnection 5 new_Epoller new_EventLoop (TimeStamp 0) ''c'' 7,
     accepted = [], destroyed = False\<rparr>"

definition demo_open :: ConnSystem where
  "demo_open = demo_new\<lparr>conn := on_channel EnableReading ((conn demo_new)\<lparr>conn_state := kConnected\<rparr>)\<rparr>"

lemma demo_new_reachable: "conn_reachable demo_new"
  unfolding demo_new_def by (rule conn_reachable.start [of _ Map.empty]) (simp_all add: interest_def new_Epoller_def)

lemma demo_open_step: "conn_step demo_new demo_open"
  using establish [of demo_new "on_channel EnableReading ((conn demo_new)\<lparr>conn_state := kConnected\<rparr>)"]
  by (simp add: demo_new_def demo_open_def connectEstablished_def call_def new_TcpConnection_def)

lemma demo_open_reachable: "conn_reachable demo_open"
  using demo_new_reachable demo_open_step by (rule conn_reachable.step)

lemma demo_open_fields:
  "open_conn demo_open" "accepted demo_open = []" "wr_shut (socket (conn demo_open)) = False"
  "conn_state (conn demo_open) = kConnected" "wire (socket (conn demo_open)) = []"
  by (simp_all add: demo_open_def demo_new_def open_conn_def new_TcpConnection_def new_Socket_def)

definition demo_sent :: ConnSystem where
  "demo_sent = demo_open\<lparr>conn := (case send 2 ''hello'' (conn demo_open) of Inr c \<Rightarrow> c), accepted := ''hello''\<rparr>"

lemma demo_sent_reachable: "conn_reachable demo_sent"
proof -
  have inv: "stream_inv (conn demo_open) []" "open_inv (conn demo_open)"
    using reachable_conn_inv [OF demo_open_reachable] demo_open_fields by (simp_all add: conn_inv_def)
  have w: "write_ok 2 (length ''hello'') (conn demo_open)" by (simp add: write_ok_def demo_open_fields)
  obtain c where "send 2 ''hello'' (conn demo_open) = Inr c" using send_ok [OF inv _ w] by auto
  then have "conn_step demo_open demo_sent"
    using conn_step.send [OF demo_open_fields(1) _ w, of c] by (simp add: demo_sent_def demo_open_fields)
  then show ?thesis using demo_open_reachable by (rule conn_reachable.step [rotated])
qed

lemma output_stream_intact_witness:
  "wire (socket (conn demo_sent)) @ content (outputBuffer (conn demo_sent)) = ''hello''"
  using output_stream_intact [OF demo_sent_reachable] by (simp add: demo_sent_def)

text \<open>
  An open connection is registered with the kernel under its own channel, for read events always
  and for write events exactly while output waits: waiting output is always driven on by a write
  event, and an idle connection does not spin on one.
\<close>

theorem interest_follows_output:
  assumes "conn_reachable S" and "open_conn S"
  shows "\<exists>K m. interest (poller_of (conn S)) = Some K \<and>
    K (fd (channel (conn S))) = Some (m, this (channel (conn S))) \<and>
    (bit m 0 \<or> bit m 1) \<and> (bit m 2 \<longleftrightarrow> content (outputBuffer (conn S)) \<noteq> [])"
proof -
  have inv: "open_inv (conn S)" using reachable_conn_inv [OF assms(1)] assms(2) by (simp add: conn_inv_def)
  from open_invD(1) [OF this] obtain K where "interest (poller_of (conn S)) = Some K"
    "K (fd (channel (conn S))) = entry (channel (conn S))" "index (channel (conn S)) = kAdded"
    "isReading (channel (conn S))"
    by (auto simp: registered_def conn_poll_def poll_inv_def)
  then show ?thesis using open_inv_writing [OF inv]
    by (simp add: entry_def isReading_bit isWriting_bit)
qed

lemma interest_follows_output_witness:
  "\<exists>K m. interest (poller_of (conn demo_open)) = Some K \<and> K (fd (channel (conn demo_open))) = Some (m, this (channel (conn demo_open)))"
  using interest_follows_output [OF demo_open_reachable demo_open_fields(1)] by blast

text \<open>
  C19: Closing is graceful: the write side of an open connection is only ever shut after \<open>shutdown\<close> was
  called and when every accepted byte has been taken by the kernel; and it is shut as soon as that is
  so and no queued functor is still to run (unless the connection was closed by shutting its read side).
\<close>

theorem shutdown_is_graceful:
  assumes "conn_reachable S" and "open_conn S"
  shows "(wr_shut (socket (conn S)) \<longrightarrow>
      wire (socket (conn S)) = accepted S \<and> conn_state (conn S) = kDisConnecting) \<and>
    (conn_state (conn S) = kDisConnecting \<and> wire (socket (conn S)) = accepted S \<and>
      pendingFunctors (loop_queue (conn S)) = [] \<and> \<not> rd_shut (socket (conn S)) \<longrightarrow>
      wr_shut (socket (conn S)))"
proof -
  have inv: "open_inv (conn S)" "wire (socket (conn S)) @ content (outputBuffer (conn S)) = accepted S"
    using reachable_conn_inv [OF assms(1)] assms(2) by (simp_all add: conn_inv_def stream_inv_def)
  then have "wire (socket (conn S)) = accepted S \<longleftrightarrow> content (outputBuffer (conn S)) = []"
    by (metis append_self_conv)
  then show ?thesis using open_invD(2,3) [OF inv(1)] by blast
qed

definition demo_shut :: ConnSystem where
  "demo_shut = demo_open\<lparr>conn := shutdown True (conn demo_open)\<rparr>"

lemma demo_shut_ok:
  "conn_reachable demo_shut" "open_conn demo_shut" "conn_state (conn demo_shut) = kDisConnecting"
  "pendingFunctors (loop_queue (conn demo_shut)) = []" "\<not> rd_shut (socket (conn demo_shut))"
  "wire (socket (conn demo_shut)) = accepted demo_shut"
proof -
  show "conn_reachable demo_shut"
    using demo_open_reachable conn_step.shutdown [OF demo_open_fields(1), of True]
    unfolding demo_shut_def by (rule conn_reachable.step)
qed (simp_all add: demo_shut_def shutdown_def demo_open_fields open_conn_def,
     simp_all add: demo_open_def demo_new_def new_TcpConnection_def new_Socket_def new_EventLoop_def)

lemma shutdown_is_graceful_witness: "wr_shut (socket (conn demo_shut))"
  using shutdown_is_graceful [OF demo_shut_ok(1,2)] demo_shut_ok(3-6) by blast

text \<open>
  A message whose direct write fails is dropped without a trace, also when the reason is a full
  socket buffer (\<open>EWOULDBLOCK\<close>): nothing is queued, no write event is asked for, and later messages
  follow on the wire with a gap.
\<close>

theorem failed_direct_write_drops_message:
  assumes "\<not> isWriting (channel c)" and "readableBytes (outputBuffer c) = 0"
  shows "send (- 1) m c = Inr c"
  using assms by (simp add: send_def c_int_id)

lemma failed_direct_write_drops_message_witness: "send (- 1) ''lost'' (conn demo_open) = Inr (conn demo_open)"
proof -
  have "conn_inv demo_open" using demo_open_reachable by (rule reachable_conn_inv)
  then have "direct_write (conn demo_open)"
    using direct_write_iff [of "conn demo_open" "[]"] demo_open_fields by (simp add: conn_inv_def stream_inv_def)
  then show ?thesis by (intro failed_direct_write_drops_message) (simp_all add: direct_write_def)
qed

text \<open>
  \<open>send(const string&)\<close> does not look at the state of the connection: on a closed one, whose channel
  was already removed from the poller, a partial write registers the descriptor again, with the
  address of a channel that is about to be destroyed.
\<close>

theorem send_after_close_registers_again:
  assumes "conn_poll c" and "conn_state c = kdisConnected" and "index (channel c) = kNew"
    and "events (channel c) = kNoneEvent" and "readableBytes (outputBuffer c) = 0"
    and "0 \<le> w" and "w < int (length m)" and "length m < 2 ^ 31"
  shows "\<exists>c' K. send w m c = Inr c' \<and> interest (poller_of c') = Some K \<and>
    K (fd (channel c)) = Some (kWriteEvent, this (channel c))"
proof -
  let ?c1 = "kernel_write w m c"
  let ?c2 = "?c1\<lparr>outputBuffer := append_data (seg m (nat w) (nat w + nat (int (length m) - w))) (outputBuffer ?c1)\<rparr>"
  have quiet: "\<not> isWriting (channel c)" using assms(4) by (simp add: isWriting_def kNoneEvent_def)
  have "c_int w = w" using assms(6-8) by (intro c_int_id) simp_all
  moreover have "c_int (int (length m)) = int (length m)" using assms(8) by (rule c_int_nat)
  moreover have "to_size (int (length m) - w) \<le> length m"
    using assms(6-8) by (simp add: to_size_def nat_le_iff)
  ultimately have send: "send w m c = Inr (on_channel EnableWriting ?c2)"
    using quiet assms(5-7) by (simp add: send_def send_rest_def Let_def)
  obtain K where K: "interest (poller_of c) = Some K" "K (fd (channel c)) = None"
    using assms(1,3) by (auto simp: conn_poll_def poll_inv_def entry_def kNew_def kAdded_def)
  have "events (channel c) OR kWriteEvent = kWriteEvent" by (simp add: assms(4) kNoneEvent_def)
  then have "interest (poller_of (on_channel EnableWriting ?c2)) = Some (K(fd (channel c) \<mapsto> (kWriteEvent, this (channel c))))"
    using K assms(3)
    by (simp add: on_channel_def channel_step_def enableWriting_def updateChannel_def Let_def interest_update)
  then show ?thesis using send by auto
qed

definition demo_closed :: TcpConnection where
  "demo_closed = (new_TcpConnection 5 new_Epoller new_EventLoop (TimeStamp 0) ''c'' 7)\<lparr>conn_state := kdisConnected\<rparr>"

lemma send_after_close_registers_again_witness:
  "\<exists>c' K. send 1 ''abc'' demo_closed = Inr c' \<and> interest (poller_of c') = Some K \<and> K 7 = Some (kWriteEvent, 5)"
proof -
  have chan: "fd (channel demo_closed) = 7" "this (channel demo_closed) = 5" "index (channel demo_closed) = kNew"
    "events (channel demo_closed) = kNoneEvent"
    by (simp_all add: demo_closed_def new_TcpConnection_def new_Channel_def setCloseCallBack_def kNew_def
        setErrorCallBack_def setWriteCallBack_def setReadCallBack_def kNoneEvent_def)
  have poll: "poll_inv (channel demo_closed) (poller_of demo_closed)"
    unfolding demo_closed_def new_TcpConnection_def TcpConnection.simps
    by (rule poll_inv_new [of _ Map.empty]) (simp_all add: interest_def new_Epoller_def)
  have "readableBytes (outputBuffer demo_closed) = 0"
    by (simp add: demo_closed_def new_TcpConnection_def readableBytes_def new_Buffer_def)
  then show ?thesis
    using send_after_close_registers_again [of demo_closed 1 "''abc''"] chan poll
    by (simp add: conn_poll_def) (simp add: demo_closed_def)
qed

text \<open>
  \<open>send(Buffer*)\<close> on a connected connection accepts the whole content of the buffer and leaves the buffer
  empty; on any other it leaves connection and buffer as they are.
\<close>

theorem send_buffer_all_or_nothing:
  assumes "stream_inv c acc" and "open_inv c" and "buf_inv b" and "length (content b) < 2 ^ 31"
    and "write_ok w (length (content b)) c" and "0 \<le> w"
  shows "if connected c
    then \<exists>c'. send_buffer w b c = Inr (c', retrieveAll b) \<and> content (retrieveAll b) = [] \<and>
      wire (socket c') @ content (outputBuffer c') = acc @ content b
    else send_buffer w b c = Inr (c, b)"
proof -
  have "seg (buffer b) (peek b) (peek b + readableBytes b) = content b"
    using assms(3) by (simp add: content_def peek_def readableBytes_def buf_inv_def)
  then show ?thesis
    using send_ok [OF assms(1,2,4,5)] assms(6)
    by (auto simp: connected_def send_buffer_def stream_inv_def)
qed

lemma send_buffer_all_or_nothing_witness:
  "\<exists>c'. send_buffer 0 (append_data ''hey'' (new_Buffer 8)) (conn demo_open) =
     Inr (c', retrieveAll (append_data ''hey'' (new_Buffer 8)))"
proof -
  have "stream_inv (conn demo_open) []" "open_inv (conn demo_open)"
    using reachable_conn_inv [OF demo_open_reachable] demo_open_fields by (simp_all add: conn_inv_def)
  then show ?thesis
    using send_buffer_all_or_nothing [of "conn demo_open" "[]" "append_data ''hey'' (new_Buffer 8)" 0]
    by (auto simp: write_ok_def demo_open_fields connected_def inv_rules content_append)
qed

end
