(* ===== verification/Http_Response.thy ===== *)
theory Http_Response
  imports Http_Content
begin

text \<open>
  \<^verbatim>\<open>Http/httpResponse.h\<close>, \<^verbatim>\<open>Http/httpResponse.cc\<close>: the response object and its bytes.

  The constructor leaves \<open>status_code_\<close> unset (\<open>None\<close>); printing it then is a fault.
\<close>

datatype HttpStatusCode =
  k100Continue | k200OK | k400BadRequest | k403Forbidden | k404NotFound | k500InternalServerErrno

fun status_number :: "HttpStatusCode \<Rightarrow> nat" where
  "status_number k100Continue = 100"
| "status_number k200OK = 200"
| "status_number k400BadRequest = 400"
| "status_number k403Forbidden = 403"
| "status_number k404NotFound = 404"
| "status_number k500InternalServerErrno = 500"

record HttpResponse =
  status_code :: "HttpStatusCode option"
  status_message :: string
  response_headers :: string
  body :: string
  body_type :: string
  close_connection :: bool

definition new_HttpResponse :: "bool \<Rightarrow> HttpResponse" where
  "new_HttpResponse close0 =
     \<lparr>status_code = None, status_message = [], response_headers = [], body = [],
      body_type = ''text/html'', close_connection = close0\<rparr>"

definition setStatusCode :: "HttpStatusCode \<Rightarrow> HttpResponse \<Rightarrow> HttpResponse" where
  "setStatusCode code r = r\<lparr>status_code := Some code\<rparr>"

definition setStatusMessage :: "string \<Rightarrow> HttpResponse \<Rightarrow> HttpResponse" where
  "setStatusMessage msg r = r\<lparr>status_message := msg\<rparr>"

definition setCloseConnection :: "bool \<Rightarrow> HttpResponse \<Rightarrow> HttpResponse" where
  "setCloseConnection close0 r = r\<lparr>close_connection := close0\<rparr>"

definition setBodyType :: "string \<Rightarrow> HttpResponse \<Rightarrow> HttpResponse" where
  "setBodyType type0 r = r\<lparr>body_type := type0\<rparr>"

definition setBody :: "string \<Rightarrow> HttpResponse \<Rightarrow> HttpResponse" where
  "setBody b r = r\<lparr>body := b\<rparr>"

definition server_name :: string where
  "server_name = ''Bing_muduo''"

definition server_http_version :: string where
  "server_http_version = ''HTTP/1.1''"

definition response_message :: "HttpResponse \<Rightarrow> fault + bytes" where
  "response_message r =
     (case status_code r of
        None \<Rightarrow> Inl Indeterminate
      | Some code \<Rightarrow>
          (let message = server_http_version @ '' '' @ dec (status_number code) @ '' '' @
                 status_message r @ CRLF;
               message1 =
                 (if close_connection r then message @ ''Connection: close'' @ CRLF
                  else message @ ''Content_Length: '' @ dec (length (body r)) @ CRLF @
                       ''Connection: Keep-Alive'' @ CRLF @
                       ''Content_Type: '' @ body_type r @ CRLF @
                       ''Server: '' @ server_name @ CRLF)
           in Inr (message1 @ CRLF @ body r)))"

definition AppendToBuffer :: "HttpResponse \<Rightarrow> Buffer \<Rightarrow> fault + Buffer" where
  "AppendToBuffer r b =
     (case response_message r of Inl f \<Rightarrow> Inl f | Inr message \<Rightarrow> Inr (append_data message b))"

lemma response_message_close:
  "status_code r = Some code \<Longrightarrow> close_connection r \<Longrightarrow>
     response_message r = Inr (server_http_version @ '' '' @ dec (status_number code) @ '' '' @
       status_message r @ CRLF @ concat (map render_header [(''Connection'', ''close'')]) @ CRLF @ body r)"
  by (simp add: response_message_def render_header_def)

lemma response_message_keep:
  "status_code r = Some code \<Longrightarrow> \<not> close_connection r \<Longrightarrow>
     response_message r = Inr (server_http_version @ '' '' @ dec (status_number code) @ '' '' @
       status_message r @ CRLF @ concat (map render_header
         [(''Content_Length'', dec (length (body r))), (''Connection'', ''Keep-Alive''),
          (''Content_Type'', body_type r), (''Server'', server_name)]) @ CRLF @ body r)"
  by (simp add: response_message_def render_header_def)

subsection \<open>Properties\<close>

text \<open>
  A response is the status line, the header lines, an empty line and the body, appended to what
  the buffer held; but no response names the length of its body as \<open>Content-Length\<close>: a
  kept-alive one writes the length under a name with an underscore and a closing one none at all.
\<close>

theorem response_never_has_content_length:
  assumes "buf_inv b" and "status_code r = Some code"
  shows "\<exists>b' hs. AppendToBuffer r b = Inr b' \<and> buf_inv b' \<and>
    content b' = content b @ ''HTTP/1.1 '' @ dec (status_number code) @ '' '' @ status_message r @ CRLF @
      concat (map render_header hs) @ CRLF @ body r \<and>
    map_of hs ''Content-Length'' = None \<and>
    map_of hs ''Content_Length'' = (if close_connection r then None else Some (dec (length (body r)))) \<and>
    map_of hs ''Connection'' = Some (if close_connection r then ''close'' else ''Keep-Alive'')"
proof (cases "close_connection r")
  case True
  then have "AppendToBuffer r b = Inr (append_data (''HTTP/1.1 '' @ dec (status_number code) @ '' '' @
      status_message r @ CRLF @ concat (map render_header [(''Connection'', ''close'')]) @ CRLF @ body r) b)"
    using response_message_close [OF assms(2)] by (simp add: AppendToBuffer_def server_http_version_def)
  then show ?thesis using True assms(1)
    by (intro exI [of _ "append_data _ b"] exI [of _ "[(''Connection'', ''close'')]"])
      (simp add: inv_rules content_append)
next
  case False
  let ?hs = "[(''Content_Length'', dec (length (body r))), (''Connection'', ''Keep-Alive''),
    (''Content_Type'', body_type r), (''Server'', server_name)]"
  have "AppendToBuffer r b = Inr (append_data (''HTTP/1.1 '' @ dec (status_number code) @ '' '' @
      status_message r @ CRLF @ concat (map render_header ?hs) @ CRLF @ body r) b)"
    using response_message_keep [OF assms(2)] False by (simp add: AppendToBuffer_def server_http_version_def)
  then show ?thesis using False assms(1)
    by (intro exI [of _ "append_data _ b"] exI [of _ ?hs]) (simp add: inv_rules content_append)
qed

lemma response_never_has_content_length_witness:
  "\<exists>b' hs. AppendToBuffer (setStatusCode k200OK (new_HttpResponse False)) (new_Buffer 4) = Inr b' \<and>
     map_of hs ''Content-Length'' = None \<and> content b' = ''HTTP/1.1 200 '' @ CRLF @ concat (map render_header hs) @ CRLF"
proof -
  have "dec 200 = ''200''" by code_simp
  then show ?thesis
    using response_never_has_content_length [of "new_Buffer 4" "setStatusCode k200OK (new_HttpResponse False)" k200OK]
    by (auto simp: setStatusCode_def new_HttpResponse_def)
qed

end
