(* ===== verification/Http_Server.thy ===== *)
theory Http_Server
  imports Net_TcpConnection Http_Response
begin

text \<open>
  \<^verbatim>\<open>Http/httpServer.h\<close>, \<^verbatim>\<open>Http/httpServer.cc\<close>, \<^verbatim>\<open>Http/httpSourceFile.h\<close> and the response callback of
  \<^verbatim>\<open>Main.cc\<close>: what the HTTP server does with the bytes that arrive on a connection, and its idle timer.

  The handlers work on the connection of theory Net_TcpConnection. \<open>None\<close> is a handler that does not
  return (the parser's loop may not). \<open>w\<close> and \<open>w'\<close> are what \<open>write\<close> returns for the two messages a
  handler may send, \<open>cb\<close> is the response callback, \<open>t\<close> the current time.
\<close>

subsection \<open>Operations\<close>

definition kIdleConnectionTimeOut :: int where
  "kIdleConnectionTimeOut = 10"

definition HttpDefaultCallback :: "HttpRequest \<Rightarrow> HttpResponse \<Rightarrow> fault + HttpResponse" where
  "HttpDefaultCallback req r =
     Inr (setCloseConnection True (setStatusMessage ''Not Found'' (setStatusCode k404NotFound r)))"

definition Website :: string where
  \<open>Website =
   ''<p  align = "middle"><strong> <font color="#84C1FF">Sharing And Geting. I'm Always Here<'' @
   ''/font> </strong> </p><hr /><p  align = "middle"><strong> <font color="#84C1FF">Love 6's '' @
   ''Info</font> </strong> <br /><strong><font color="#AAAAFF">Love 6's School: Hogwarts Scho'' @
   ''ol </font></strong> <br /><strong><font color="#C1FFE4">Love 6's Year In Univ: Sophomore'' @
   '' </font></strong> <br /><strong><font color="#FFBFFF">Love 6's Interests: Gaming Coding '' @
   ''</font></strong> <br /><strong><font color="#A3D1D1">Love 6's Occupation: Sorcerer </fon'' @
   ''t></strong> <br /> <strong><font color="#A6FFA6">Love 6's QQ Wechat: Personal Secret </f'' @
   ''ont></strong> <br /> </p><hr /><p align = "middle"><strong><font color="#84C1FF"> Cat </'' @
   ''font><br /> </strong> </p><p align = "middle"><img src="https://img-blog.csdnimg.cn/6d28'' @
   ''d9f8ad2b4c79be7a90a33e552caf.GIF" alt="Cat" width="200" height="200"></p><hr /><p align '' @
   ''= "middle"><strong><font color="#84C1FF"> Love 6's Some Blogs - Keep Updating </font><br'' @
   '' /> </strong></p></hr ><strong><font color="#AAAAFF"> Touch Here -> </font></strong><a h'' @
   ''ref="https://love6.blog.csdn.net/article/details/119133589"> Operating system truth rest'' @
   ''ore self-made operating system whole process records from scratch </a><br /><strong><fon'' @
   ''t color="#FFBFFF"> Touch Here -> </font></strong><a href="https://love6.blog.csdn.net/ar'' @
   ''ticle/details/117517529"> Harbin Institute of technology operating system lab full exper'' @
   ''iment blog link </a><br /><strong><font color="#C1FFE4"> Touch Here -> </font></strong><'' @
   ''a href="https://love6.blog.csdn.net/article/details/120071337"> Computer network top-dow'' @
   ''n lab full experiment blog link </a><br /><strong><font color="#A3D1D1"> Touch Here -> <'' @
   ''/font></strong><a href="https://love6.blog.csdn.net/article/details/116152266"> CSAPP La'' @
   ''bs 1-6 Blog Link</a><hr /><p align = "middle"><strong><font color="#84C1FF"> Do good dee'' @
   ''ds Don't ask future </font><br /> </strong></p>''\<close>

definition HttpResponseCallBack :: "HttpRequest \<Rightarrow> HttpResponse \<Rightarrow> fault + HttpResponse" where
  "HttpResponseCallBack req r =
     (case http_method req of
        None \<Rightarrow> Inl Indeterminate
      | Some m \<Rightarrow>
          if m \<noteq> kGet
          then Inr (setCloseConnection True (setStatusMessage ''Bad Request'' (setStatusCode k400BadRequest r)))
          else if path req = ''/''
          then Inr (setBody Website (setBodyType ''text/html'' (setStatusCode k200OK r)))
          else Inr (setBody ''Not Found!!!!'' (setBodyType ''text/html'' (setStatusCode k404NotFound r))))"

text \<open>The decision of \<open>dealWithRequest\<close> whether the connection is closed after the response.\<close>

definition close_wanted :: "HttpRequest \<Rightarrow> fault + bool" where
  "close_wanted req =
     (let connection_state = GetHeader ''Connection'' req
      in if connection_state = ''Close'' then Inr True
         else (case http_version req of
                 None \<Rightarrow> Inl Indeterminate
               | Some v \<Rightarrow> Inr (v = kHttp10 \<and> connection_state \<noteq> ''Keep-Alive'')))"

definition dealWithRequest ::
  "(HttpRequest \<Rightarrow> HttpResponse \<Rightarrow> fault + HttpResponse) \<Rightarrow> int \<Rightarrow> HttpRequest \<Rightarrow> TcpConnection \<Rightarrow>
   fault + TcpConnection" where
  "dealWithRequest cb w req c =
     (case close_wanted req of
        Inl f \<Rightarrow> Inl f
      | Inr close0 \<Rightarrow>
          (case cb req (new_HttpResponse close0) of
             Inl f \<Rightarrow> Inl f
           | Inr r \<Rightarrow>
               (case AppendToBuffer r (new_Buffer kInitialSize) of
                  Inl f \<Rightarrow> Inl f
                | Inr b \<Rightarrow>
                    (case send_buffer w b c of
                       Inl f \<Rightarrow> Inl f
                     | Inr (c1, _) \<Rightarrow> Inr (if close_connection r then shutdown True c1 else c1)))))"

definition bad_request :: bytes where
  "bad_request = ''HTTP/1.1 400 Bad Request'' @ CRLF @ CRLF"

definition refuse :: "int \<Rightarrow> TcpConnection \<Rightarrow> fault + TcpConnection" where
  "refuse w c =
     (case send w bad_request c of Inl f \<Rightarrow> Inl f | Inr c1 \<Rightarrow> Inr (shutdown True c1))"

definition MessageCallback ::
  "(HttpRequest \<Rightarrow> HttpResponse \<Rightarrow> fault + HttpResponse) \<Rightarrow> bool \<Rightarrow> TimeStamp \<Rightarrow> int \<Rightarrow> int \<Rightarrow>
   TcpConnection \<Rightarrow> (fault + TcpConnection) option" where
  "MessageCallback cb auto_close t w w' c =
     (let c1 = (if auto_close then updateTimeStamp t c else c)
      in if IsShutdown c1 then Some (Inr c1)
         else (case ParseContent (http_content c1) (inputBuffer c1) of
                 None \<Rightarrow> None
               | Some (Inl f) \<Rightarrow> Some (Inl f)
               | Some (Inr (ok, hc, b)) \<Rightarrow>
                   (let c2 = c1\<lparr>http_content := hc, inputBuffer := b\<rparr>
                    in case (if ok then Inr c2 else refuse w c2) of
                         Inl f \<Rightarrow> Some (Inl f)
                       | Inr c3 \<Rightarrow>
                           if GetCompleteRequest (http_content c3)
                           then (case dealWithRequest cb w' (request (http_content c3)) c3 of
                                   Inl f \<Rightarrow> Some (Inl f)
                                 | Inr c4 \<Rightarrow>
                                     Some (Inr (c4\<lparr>http_content := ResetContentState (http_content c4)\<rparr>)))
                           else Some (Inr c3))))"

text \<open>
  The idle check: a connection that is gone is \<open>None\<close>. The second component is the delay after which
  the check runs again, if it does.
\<close>

definition HandleIdleConnection ::
  "TimeStamp \<Rightarrow> TcpConnection option \<Rightarrow> TcpConnection option \<times> real option" where
  "HandleIdleConnection t connection =
     (case connection of
        None \<Rightarrow> (None, None)
      | Some c \<Rightarrow>
          if AddTime (timestamp c) (real_of_int kIdleConnectionTimeOut) < t
          then (Some (shutdown False c), None)
          else (Some c, Some (real_of_int kIdleConnectionTimeOut)))"

definition ConnectionCallback :: "bool \<Rightarrow> TcpConnection \<Rightarrow> real option" where
  "ConnectionCallback auto_close c =
     (if connected c \<and> auto_close then Some (real_of_int kIdleConnectionTimeOut) else None)"

subsection \<open>What the handlers leave alone\<close>

lemma kernel_write_frame [simp]:
  "http_content (kernel_write w d c) = http_content c" "timestamp (kernel_write w d c) = timestamp c"
  by (simp_all add: kernel_write_def)

lemma send_frame:
  assumes "send w m c = Inr c'"
  shows "inputBuffer c' = inputBuffer c" and "http_content c' = http_content c"
    and "timestamp c' = timestamp c"
  using assms by (auto simp: send_eq send_rest_def Let_def split: if_splits)

lemma shutdown_frame [simp]:
  "inputBuffer (shutdown t c) = inputBuffer c" "http_content (shutdown t c) = http_content c"
  "timestamp (shutdown t c) = timestamp c"
  by (simp_all add: shutdown_def shutdownInloop_def Let_def)

lemma input_frame [simp]:
  "stream_inv (c\<lparr>http_content := hc\<rparr>) acc = stream_inv c acc"
  "open_inv (c\<lparr>http_content := hc\<rparr>) = open_inv c"
  "stream_inv (c\<lparr>timestamp := t\<rparr>) acc = stream_inv c acc" "open_inv (c\<lparr>timestamp := t\<rparr>) = open_inv c"
  by (simp_all add: stream_inv_def open_inv_def registered_def conn_poll_def)

lemma refuse_ok:
  assumes "stream_inv c acc" and "open_inv c" and "connected c"
    and "write_ok w (length bad_request) c" and "0 \<le> w"
  shows "\<exists>c'. refuse w c = Inr c' \<and> stream_inv c' (acc @ bad_request) \<and> open_inv c' \<and>
    conn_state c' = kDisConnecting \<and> http_content c' = http_content c \<and> inputBuffer c' = inputBuffer c"
proof -
  have "length bad_request < 2 ^ 31" by (simp add: bad_request_def CRLF_def)
  from send_ok [OF assms(1,2) this assms(4)] assms(5) obtain c1 where c1: "send w bad_request c = Inr c1"
    "open_inv c1" "conn_state c1 = conn_state c" "stream_inv c1 (acc @ bad_request)" by auto
  then show ?thesis
    using shutdown_ok [OF c1(4,2), of True] send_frame [OF c1(1)] assms(3)
    by (simp add: refuse_def connected_def)
qed

lemma dealWithRequest_ok:
  assumes "stream_inv c acc" and "open_inv c" and "connected c"
    and "close_wanted req = Inr cl" and "cb req (new_HttpResponse cl) = Inr r" and "response_message r = Inr msg"
    and "length msg < 2 ^ 31" and "write_ok w (length msg) c"
  shows "\<exists>c'. dealWithRequest cb w req c = Inr c' \<and> stream_inv c' (acc @ kept w c msg) \<and> open_inv c' \<and>
    conn_state c' = (if close_connection r then kDisConnecting else kConnected) \<and>
    http_content c' = http_content c \<and> inputBuffer c' = inputBuffer c"
proof -
  let ?b = "append_data msg (new_Buffer kInitialSize)"
  have b: "buf_inv ?b" "content ?b = msg"
    using content_append [OF buf_inv_new] by (simp_all add: inv_rules)
  then have off: "seg (buffer ?b) (peek ?b) (peek ?b + readableBytes ?b) = msg"
    by (simp add: content_def peek_def readableBytes_def buf_inv_def)
  obtain c1 where c1: "send w msg c = Inr c1" "open_inv c1" "conn_state c1 = kConnected" "stream_inv c1 (acc @ kept w c msg)"
    using send_ok [OF assms(1,2,7,8)] assms(3) by (auto simp: connected_def kept_def)
  have "dealWithRequest cb w req c = Inr (if close_connection r then shutdown True c1 else c1)"
    using assms(3-6) off c1(1) by (simp add: dealWithRequest_def AppendToBuffer_def send_buffer_def connected_def)
  then show ?thesis
    using shutdown_ok [OF c1(4,2), of True] c1 send_frame [OF c1(1)] by simp
qed

text \<open>The connection after the parser has consumed a complete request.\<close>

lemma MessageCallback_complete:
  assumes "connected c" and "buf_inv (inputBuffer c)" and "stream_inv c acc" and "open_inv c"
    and "ParseContent (http_content c) (inputBuffer c) = Some (Inr (True, hc, b))"
    and "GetCompleteRequest hc" and "buf_inv b"
  shows "\<exists>c2. stream_inv c2 acc \<and> open_inv c2 \<and> connected c2 \<and> http_content c2 = hc \<and> inputBuffer c2 = b \<and>
    socket c2 = socket c \<and> direct_write c2 = direct_write c \<and>
    MessageCallback cb auto_close t w w' c =
      (case dealWithRequest cb w' (request hc) c2 of
         Inl f \<Rightarrow> Some (Inl f)
       | Inr c4 \<Rightarrow> Some (Inr (c4\<lparr>http_content := ResetContentState (http_content c4)\<rparr>)))"
proof -
  let ?c1 = "if auto_close then updateTimeStamp t c else c"
  let ?c2 = "?c1\<lparr>http_content := hc, inputBuffer := b\<rparr>"
  have "stream_inv ?c2 acc" using assms(3,7) by (simp add: stream_inv_def updateTimeStamp_def)
  moreover have "open_inv ?c2" using assms(4) by (simp add: open_inv_input updateTimeStamp_def)
  moreover have "connected ?c2" using assms(1) by (simp add: connected_def updateTimeStamp_def)
  moreover have "MessageCallback cb auto_close t w w' c =
      (case dealWithRequest cb w' (request hc) ?c2 of
         Inl f \<Rightarrow> Some (Inl f)
       | Inr c4 \<Rightarrow> Some (Inr (c4\<lparr>http_content := ResetContentState (http_content c4)\<rparr>)))"
    using assms(1,5,6) by (simp add: MessageCallback_def Let_def IsShutdown_def connected_def updateTimeStamp_def)
  ultimately show ?thesis by (intro exI [of _ ?c2]) (simp add: updateTimeStamp_def direct_write_def)
qed

subsection \<open>Properties\<close>

definition closes :: "bool \<Rightarrow> HttpRequest \<Rightarrow> bool" where
  "closes is_11 req \<longleftrightarrow> GetHeader ''Connection'' req = ''Close'' \<or>
     \<not> is_11 \<and> GetHeader ''Connection'' req \<noteq> ''Keep-Alive''"

lemma close_wanted_requested:
  "close_wanted (add_headers hs (requested m p q v req)) = Inr (closes v (add_headers hs (requested m p q v req)))"
  by (simp add: close_wanted_def closes_def add_headers_def requested_def Let_def)

text \<open>What \<open>MessageCallback\<close> does once the parser reports a complete request.\<close>

lemma complete_is_answered:
  assumes "stream_inv c acc" and "open_inv c" and "connected c"
    and parse: "ParseContent (http_content c) (inputBuffer c) = Some (Inr (True, hc, b))" "GetCompleteRequest hc"
      "request hc = req" "buf_inv b" "content b = rest"
    and req: "req = add_headers hs (requested m p q v req0)"
    and "cb req (new_HttpResponse (closes v req)) = Inr r" and "response_message r = Inr msg"
    and "length msg < 2 ^ 31" and "write_ok w' (length msg) c"
  shows "\<exists>c'. MessageCallback cb auto_close t w w' c = Some (Inr c') \<and> stream_inv c' (acc @ kept w' c msg) \<and> open_inv c' \<and>
    content (inputBuffer c') = rest \<and> parse_state (http_content c') = kParseRequestLine \<and>
    conn_state c' = (if close_connection r then kDisConnecting else kConnected)"
proof -
  have inb: "buf_inv (inputBuffer c)" using assms(1) by (simp add: stream_inv_def)
  obtain c2 where c2: "stream_inv c2 acc" "open_inv c2" "connected c2" "http_content c2 = hc" "inputBuffer c2 = b"
    "socket c2 = socket c" "MessageCallback cb auto_close t w w' c =
      (case dealWithRequest cb w' (request hc) c2 of
         Inl f \<Rightarrow> Some (Inl f)
       | Inr c4 \<Rightarrow> Some (Inr (c4\<lparr>http_content := ResetContentState (http_content c4)\<rparr>)))"
    "direct_write c2 = direct_write c"
    using MessageCallback_complete [OF assms(3) inb assms(1,2) parse(1,2,4), of cb auto_close t w w'] by blast
  have "close_wanted req = Inr (closes v req)" unfolding req by (rule close_wanted_requested)
  moreover have "write_ok w' (length msg) c2" using assms(13) c2(6) by (simp add: write_ok_def)
  ultimately obtain c' where "dealWithRequest cb w' req c2 = Inr c'" "stream_inv c' (acc @ kept w' c2 msg)" "open_inv c'"
    "conn_state c' = (if close_connection r then kDisConnecting else kConnected)"
    "http_content c' = hc" "inputBuffer c' = b"
    using dealWithRequest_ok [where cb = cb, OF c2(1-3) _ assms(10-12)] c2(4,5) by auto
  then show ?thesis using c2(7,8) parse(3,5) by (simp add: ResetContentState_def kept_def)
qed

lemma request_is_answered_lemma:
  assumes "stream_inv c acc" and "open_inv c" and "connected c"
    and "parse_state (http_content c) = kParseRequestLine" and "length (buffer (inputBuffer c)) < 2 ^ 31"
    and "content (inputBuffer c) = render_request m p q v hs @ rest"
    and "target_ok p q" and "\<forall>h \<in> set hs. header_ok h"
    and "req = add_headers hs (requested m p q v (request (http_content c)))"
    and "cb req (new_HttpResponse (closes v req)) = Inr r" and "response_message r = Inr msg"
    and "length msg < 2 ^ 31" and "write_ok w' (length msg) c"
  shows "\<exists>c'. MessageCallback cb auto_close t w w' c = Some (Inr c') \<and> open_inv c' \<and>
    wire (socket c') @ content (outputBuffer c') = acc @ kept w' c msg \<and> content (inputBuffer c') = rest \<and>
    parse_state (http_content c') = kParseRequestLine \<and>
    conn_state c' = (if close_connection r then kDisConnecting else kConnected)"
proof -
  have inb: "buf_inv (inputBuffer c)" using assms(1) by (simp add: stream_inv_def)
  have "shows_outcome (http_content c) (inputBuffer c) (Inr (True, kParseGotCompleteRequest, req, rest)) res \<Longrightarrow>
      \<exists>hc b. res = Inr (True, hc, b) \<and> GetCompleteRequest hc \<and> request hc = req \<and> buf_inv b \<and> content b = rest" for res
    by (auto simp: GetCompleteRequest_def)
  then obtain hc b where parse: "ParseContent (http_content c) (inputBuffer c) = Some (Inr (True, hc, b))"
    "GetCompleteRequest hc" "request hc = req" "buf_inv b" "content b = rest"
    using ParseContent_refines_stream [OF inb assms(5), of "http_content c"] assms(4,6,9)
      parse_stream_request [OF assms(7,8), of "request (http_content c)" m v rest]
    by (auto simp: working_def)
  show ?thesis
    using complete_is_answered [where cb = cb, OF assms(1-3) parse assms(9-13), of auto_close t w] by (auto simp: stream_inv_def)
qed

text \<open>
  A complete request in the input buffer is answered: the response that the callback makes of
  the client's method, path, query, version and headers (added to what an earlier request left) joins the
  connection's output stream, behind everything accepted before, unless its direct write fails; the parser is ready for the next request; the connection goes into
  the closing state exactly when the response says so; and the bytes behind the request stay in the
  buffer, even if they are a second complete request, until the next read event.
\<close>

theorem request_is_answered:
  assumes "stream_inv c acc" and "open_inv c" and "connected c"
    and "parse_state (http_content c) = kParseRequestLine" and "length (buffer (inputBuffer c)) < 2 ^ 31"
    and "content (inputBuffer c) = render_request m p q v hs @ rest"
    and "target_ok p q" and "\<forall>h \<in> set hs. header_ok h"
    and "req = add_headers hs (requested m p q v (request (http_content c)))"
    and "cb req (new_HttpResponse (closes v req)) = Inr r" and "response_message r = Inr msg"
    and "length msg < 2 ^ 31" and "write_ok w' (length msg) c"
  shows "\<exists>c'. MessageCallback cb auto_close t w w' c = Some (Inr c') \<and> open_inv c' \<and>
    wire (socket c') @ content (outputBuffer c') = acc @ kept w' c msg \<and> content (inputBuffer c') = rest \<and>
    parse_state (http_content c') = kParseRequestLine \<and>
    conn_state c' = (if close_connection r then kDisConnecting else kConnected)"
  using assms by (rule request_is_answered_lemma)

text \<open>A connected connection with given input.\<close>

definition demo_with :: "bytes \<Rightarrow> TcpConnection" where
  "demo_with data = (conn demo_open)\<lparr>inputBuffer := buffer_of data\<rparr>"

lemma demo_with_ok:
  "stream_inv (demo_with d) []" "open_inv (demo_with d)" "connected (demo_with d)"
  "parse_state (http_content (demo_with d)) = kParseRequestLine"
  "inputBuffer (demo_with d) = buffer_of d" "\<not> wr_shut (socket (demo_with d))"
proof -
  have inv: "stream_inv (conn demo_open) []" "open_inv (conn demo_open)"
    using reachable_conn_inv [OF demo_open_reachable] demo_open_fields by (simp_all add: conn_inv_def)
  then show "stream_inv (demo_with d) []" "open_inv (demo_with d)"
    by (simp_all add: demo_with_def open_inv_input) (simp add: stream_inv_def buffer_of_ok)
  show "connected (demo_with d)" "\<not> wr_shut (socket (demo_with d))" "inputBuffer (demo_with d) = buffer_of d"
    using demo_open_fields by (simp_all add: demo_with_def connected_def)
  show "parse_state (http_content (demo_with d)) = kParseRequestLine"
    by (simp add: demo_with_def demo_open_def demo_new_def new_TcpConnection_def)
qed

lemma request_is_answered_witness:
  "\<exists>c'. MessageCallback HttpDefaultCallback True (TimeStamp 5) 0 0
       (demo_with (render_request kGet ''/a'' None True [] @ ''GET'')) = Some (Inr c') \<and>
     wire (socket c') @ content (outputBuffer c') =
       ''HTTP/1.1 404 Not Found'' @ CRLF @ ''Connection: close'' @ CRLF @ CRLF \<and> content (inputBuffer c') = ''GET''"
proof -
  let ?d = "render_request kGet ''/a'' None True [] @ ''GET''"
  let ?c = "demo_with ?d"
  let ?req = "add_headers [] (requested kGet ''/a'' None True (request (http_content ?c)))"
  have "length ?d = 22" by code_simp
  then have small: "length (buffer (buffer_of ?d)) < 2 ^ 31" by (simp add: buffer_of_ok(3))
  let ?r = "setCloseConnection True (setStatusMessage ''Not Found'' (setStatusCode k404NotFound
    (new_HttpResponse (closes True ?req))))"
  let ?msg = "''HTTP/1.1 404 Not Found'' @ CRLF @ ''Connection: close'' @ CRLF @ CRLF"
  have "dec 404 = ''404''" by code_simp
  then have msg: "response_message ?r = Inr ?msg"
    by (simp add: response_message_def setStatusCode_def setStatusMessage_def
        setCloseConnection_def new_HttpResponse_def server_http_version_def)
  have cb: "HttpDefaultCallback ?req (new_HttpResponse (closes True ?req)) = Inr ?r"
    by (simp add: HttpDefaultCallback_def)
  show ?thesis
    using request_is_answered [OF demo_with_ok(1-4), of ?d kGet "''/a''" None True "[]" "''GET''" ?req
        HttpDefaultCallback ?r ?msg 0 True "TimeStamp 5" 0] cb msg small
    by (force simp: demo_with_ok(5,6) buffer_of_ok(1,2) target_ok_def CR_def CRLF_def write_ok_def kept_def
        simp del: append.simps)
qed

text \<open>
  A first line that is not a request line is refused: the reply 400 joins the output stream, the
  connection goes into the closing state, and further messages on it are ignored.
\<close>

theorem malformed_line_is_refused:
  assumes "stream_inv c acc" and "open_inv c" and "connected c"
    and "parse_state (http_content c) = kParseRequestLine" and "length (buffer (inputBuffer c)) < 2 ^ 31"
    and "content (inputBuffer c) = l @ CRLF @ rest" and "CR \<notin> set l"
    and "parse_line l (request (http_content c)) = Inr (False, req)"
    and "write_ok w (length bad_request) c" and "0 \<le> w"
  shows "\<exists>c'. MessageCallback cb auto_close t w w' c = Some (Inr c') \<and> open_inv c' \<and>
    wire (socket c') @ content (outputBuffer c') = acc @ bad_request \<and> conn_state c' = kDisConnecting \<and>
    (\<forall>cb t w w'. MessageCallback cb False t w w' c' = Some (Inr c'))"
proof -
  have inb: "buf_inv (inputBuffer c)" using assms(1) by (simp add: stream_inv_def)
  have "parse_stream kParseRequestLine (request (http_content c)) (content (inputBuffer c)) =
      Inr (False, kParseRequestLine, req, rest)"
    using split_crlf_line [OF assms(7), of rest] assms(6,8) by (subst parse_stream.simps) simp
  then obtain b where parse: "ParseContent (http_content c) (inputBuffer c) =
      Some (Inr (False, (http_content c)\<lparr>request := req, parse_state := kParseRequestLine\<rparr>, b))" "buf_inv b"
    using ParseContent_refines_stream [OF inb assms(5), of "http_content c"] assms(4)
    by (auto simp: working_def)
  let ?hc = "(http_content c)\<lparr>request := req, parse_state := kParseRequestLine\<rparr>"
  let ?c1 = "if auto_close then updateTimeStamp t c else c"
  let ?c2 = "?c1\<lparr>http_content := ?hc, inputBuffer := b\<rparr>"
  have "stream_inv ?c2 acc" using assms(1) parse(2) by (simp add: stream_inv_def updateTimeStamp_def)
  moreover have "open_inv ?c2" using assms(2) by (simp add: open_inv_input updateTimeStamp_def)
  moreover have "connected ?c2" using assms(3) by (simp add: connected_def updateTimeStamp_def)
  moreover have "write_ok w (length bad_request) ?c2" using assms(9) by (simp add: write_ok_def updateTimeStamp_def)
  ultimately obtain c' where c': "refuse w ?c2 = Inr c'" "stream_inv c' (acc @ bad_request)" "open_inv c'"
    "conn_state c' = kDisConnecting" "http_content c' = ?hc"
    using refuse_ok [of ?c2 acc w] assms(10) by auto
  have "MessageCallback cb auto_close t w w' c = Some (Inr c')"
    using assms(3) parse(1) c'(1,5)
    by (cases auto_close)
      (simp_all add: MessageCallback_def Let_def IsShutdown_def connected_def updateTimeStamp_def GetCompleteRequest_def)
  moreover have "MessageCallback cb False t w w' c' = Some (Inr c')" for cb t w w'
    using c'(4) by (simp add: MessageCallback_def IsShutdown_def)
  ultimately show ?thesis using c' by (simp add: stream_inv_def)
qed

lemma malformed_line_is_refused_witness:
  "\<exists>c'. MessageCallback HttpDefaultCallback False (TimeStamp 5) 0 0 (demo_with (''nonsense'' @ CRLF)) = Some (Inr c') \<and>
     wire (socket c') @ content (outputBuffer c') = bad_request"
proof -
  have "length (''nonsense'' @ CRLF) = 10" by (simp add: CRLF_def)
  then have "length (buffer (buffer_of (''nonsense'' @ CRLF))) < 2 ^ 31" by (simp add: buffer_of_ok(3))
  moreover have "parse_line ''nonsense'' req = Inr (False, req)" for req by (simp add: parse_line_def)
  ultimately show ?thesis
    using malformed_line_is_refused [OF demo_with_ok(1-4), of "''nonsense'' @ CRLF" "''nonsense''" "[]" _ 0
        HttpDefaultCallback False "TimeStamp 5" 0]
    by (force simp: demo_with_ok(5,6) buffer_of_ok CR_def write_ok_def)
qed

text \<open>The reply of \<open>Main.cc\<close> to a GET request.\<close>

lemma length_Website: "length Website < 4000"
  unfolding Website_def by simp

lemma response_message_bounded:
  assumes "status_code r = Some code" and "length (status_message r) < 1000" and "length (body r) < 4000"
    and "length (body_type r) < 1000"
  shows "\<exists>msg. response_message r = Inr msg \<and> length msg < 2 ^ 31"
proof -
  have "length (dec (length (body r))) \<le> 4" using assms(3) by (intro length_dec) simp_all
  moreover have "length (dec (status_number code)) \<le> 4" by (cases code) (auto intro!: length_dec)
  ultimately show ?thesis using assms
    by (simp add: response_message_def Let_def server_http_version_def server_name_def CRLF_def)
qed

text \<open>The bytes of the reply: the page for the path \<open>/\<close>, the not-found text for any other.\<close>

definition page_text :: "bool \<Rightarrow> string \<Rightarrow> bytes" where
  "page_text cl p =
     (let b = (if p = ''/'' then Website else ''Not Found!!!!'')
      in ''HTTP/1.1 '' @ (if p = ''/'' then ''200'' else ''404'') @ '' '' @ CRLF @
         (if cl then ''Connection: close'' @ CRLF
          else ''Content_Length: '' @ dec (length b) @ CRLF @ ''Connection: Keep-Alive'' @ CRLF @
               ''Content_Type: text/html'' @ CRLF @ ''Server: Bing_muduo'' @ CRLF) @ CRLF @ b)"

lemma main_get_reply:
  assumes "http_method req = Some kGet"
  shows "\<exists>r msg. HttpResponseCallBack req (new_HttpResponse cl) = Inr r \<and> close_connection r = cl \<and>
    response_message r = Inr msg \<and> length msg < 2 ^ 31 \<and> msg = page_text cl (path req)"
proof -
  let ?found = "setBody Website (setBodyType ''text/html'' (setStatusCode k200OK (new_HttpResponse cl)))"
  let ?missing = "setBody ''Not Found!!!!'' (setBodyType ''text/html'' (setStatusCode k404NotFound (new_HttpResponse cl)))"
  have "dec 200 = ''200''" "dec 404 = ''404''" by code_simp+
  then have "response_message ?found = Inr (page_text cl ''/'')"
    "p \<noteq> ''/'' \<Longrightarrow> response_message ?missing = Inr (page_text cl p)" for p
    by (simp_all add: response_message_def page_text_def Let_def setBody_def setBodyType_def setStatusCode_def
        new_HttpResponse_def server_http_version_def server_name_def)
  moreover have "\<exists>msg. response_message ?found = Inr msg \<and> length msg < 2 ^ 31"
    using length_Website
    by (intro response_message_bounded) (simp_all add: setBody_def setBodyType_def setStatusCode_def new_HttpResponse_def)
  moreover have "\<exists>msg. response_message ?missing = Inr msg \<and> length msg < 2 ^ 31"
    by (intro response_message_bounded) (simp_all add: setBody_def setBodyType_def setStatusCode_def new_HttpResponse_def)
  moreover have "close_connection ?found = cl" "close_connection ?missing = cl"
    by (simp_all add: setBody_def setBodyType_def setStatusCode_def new_HttpResponse_def)
  moreover have "HttpResponseCallBack req (new_HttpResponse cl) = Inr (if path req = ''/'' then ?found else ?missing)"
    using assms by (simp add: HttpResponseCallBack_def)
  ultimately show ?thesis by (cases "path req = ''/''") auto
qed

text \<open>
  The header \<open>Connection: close\<close> as clients write it is not recognised: the code compares with
  \<open>Close\<close>. Main's server answers such an HTTP/1.1 request and keeps the connection open.
\<close>

theorem lowercase_close_is_ignored:
  assumes "stream_inv c acc" and "open_inv c" and "connected c"
    and "parse_state (http_content c) = kParseRequestLine" and "length (buffer (inputBuffer c)) < 2 ^ 31"
    and "content (inputBuffer c) = render_request kGet p None True [(''Connection'', ''close'')]"
    and "target_ok p None" and "\<forall>n < 2 ^ 31. write_ok w' n c" and "0 \<le> w'"
  shows "\<exists>c'. MessageCallback HttpResponseCallBack auto_close t w w' c = Some (Inr c') \<and> connected c'"
proof -
  let ?req = "add_headers [(''Connection'', ''close'')] (requested kGet p None True (request (http_content c)))"
  have keep: "\<not> closes True ?req" by (simp add: closes_def add_headers_def GetHeader_def requested_def)
  obtain r msg where r: "HttpResponseCallBack ?req (new_HttpResponse (closes True ?req)) = Inr r"
    "close_connection r = closes True ?req" "response_message r = Inr msg" "length msg < 2 ^ 31"
    using main_get_reply [of ?req "closes True ?req"] by (auto simp: add_headers_def requested_def)
  show ?thesis
    using request_is_answered_lemma [OF assms(1-5), of kGet p None True "[(''Connection'', ''close'')]" "[]" ?req
        HttpResponseCallBack r msg w' auto_close t w] assms(6,7,8,9) r keep
    by (auto simp: connected_def header_ok_def CR_def)
qed

lemma lowercase_close_is_ignored_witness:
  "\<exists>c'. MessageCallback HttpResponseCallBack False (TimeStamp 5) 0 0
     (demo_with (render_request kGet ''/x'' None True [(''Connection'', ''close'')])) = Some (Inr c') \<and> connected c'"
proof -
  let ?d = "render_request kGet ''/x'' None True [(''Connection'', ''close'')]"
  have "length ?d = 38" by code_simp
  then have "length (buffer (buffer_of ?d)) < 2 ^ 31" by (simp add: buffer_of_ok(3))
  then show ?thesis
    using lowercase_close_is_ignored [OF demo_with_ok(1-4), of ?d "''/x''" 0 False "TimeStamp 5" 0]
    by (simp add: demo_with_ok(5,6) buffer_of_ok(1,2) target_ok_def CR_def write_ok_def)
qed

text \<open>
  The idle check closes a connection only if its last message is more than ten seconds old, and
  otherwise asks to be run again in ten seconds; so a connected connection that stays silent after a
  check is closed by the next one: it lives at most twenty seconds (and the timer's delay) longer.
\<close>

theorem idle_connection_is_closed:
  assumes "connected c" and "timestamp c \<le> t1" and "AddTime t1 10 < t2"
  shows "if microSecond (timestamp c) + 10000000 < microSecond t1
    then HandleIdleConnection t1 (Some c) = (Some (shutdown False c), None) \<and> IsShutdown (shutdown False c)
    else HandleIdleConnection t1 (Some c) = (Some c, Some 10) \<and>
      HandleIdleConnection t2 (Some c) = (Some (shutdown False c), None) \<and> IsShutdown (shutdown False c)"
  using assms
  by (simp add: HandleIdleConnection_def kIdleConnectionTimeOut_def TimeStamp_order AddTime_micro
      IsShutdown_def shutdown_def connected_def)

lemma idle_connection_is_closed_witness:
  "HandleIdleConnection (TimeStamp 20000001) (Some (demo_with [])) =
     (Some (shutdown False (demo_with [])), None)"
proof -
  have "timestamp (demo_with []) = TimeStamp 0"
    by (simp add: demo_with_def demo_open_def demo_new_def new_TcpConnection_def)
  then show ?thesis
    using idle_connection_is_closed [OF demo_with_ok(3), of "[]" "TimeStamp 20000001" "TimeStamp 40000001"]
    by (simp add: TimeStamp_order AddTime_micro)
qed

end
