(* ===== verification/Http_Legacy.thy ===== *)
theory Http_Legacy
  imports Http_Request
begin

text \<open>
  \<^verbatim>\<open>Http/httpRequest.cc\<close>, lines 77 to 157: the older overloads of \<open>ParseRequestLine\<close> and \<open>ParseHeaders\<close>
  that report through a state argument, compared with the ones in use. Two of their error branches
  write \<open>state == kParseErrno\<close>, a comparison; the model keeps the state there. Where the code reads
  behind its range the model reads the buffer and faults behind its end.
\<close>

subsection \<open>The request line\<close>

definition legacy_target ::
  "bytes \<Rightarrow> nat \<Rightarrow> nat \<Rightarrow> nat \<Rightarrow> HttpRequest \<Rightarrow> fault + HttpRequest" where
  "legacy_target mem start space end0 req =
     (let wenhao = std_find mem start end0 (CHR ''?'')
      in if wenhao = end0 then Inr (req\<lparr>path := seg mem start space\<rparr>)
         else (let req1 = req\<lparr>path := seg mem start wenhao\<rparr>
               in case assign mem (wenhao + 1) space of
                    Inl f \<Rightarrow> Inl f
                  | Inr q \<Rightarrow> Inr (req1\<lparr>query := q\<rparr>)))"

definition legacy_version ::
  "bytes \<Rightarrow> nat \<Rightarrow> nat \<Rightarrow> HttpRequestParseState \<Rightarrow> HttpRequest \<Rightarrow>
   fault + (HttpRequestParseState \<times> HttpRequest)" where
  "legacy_version mem start end0 state req =
     (let httpLen = length http;
          httpindex = std_search mem start end0 http
      in if httpindex = end0 then Inr (kParseErrno, req)
         else if httpindex + httpLen < length mem
         then (let chr = mem ! (httpindex + httpLen)
               in if httpindex + httpLen + 1 = end0 \<and> (chr = CHR ''1'' \<or> chr = CHR ''0'')
                  then Inr (kParseRequestHeader,
                         req\<lparr>http_version := Some (if chr = CHR ''0'' then kHttp10 else kHttp11)\<rparr>)
                  else Inr (state, req))
         else Inl OutOfBounds)"

definition legacy_ParseRequestLine ::
  "bytes \<Rightarrow> nat \<Rightarrow> nat \<Rightarrow> HttpRequestParseState \<Rightarrow> HttpRequest \<Rightarrow>
   fault + (HttpRequestParseState \<times> HttpRequest)" where
  "legacy_ParseRequestLine mem start end0 state req =
     (let space1 = std_find mem start end0 (CHR '' '')
      in if space1 = end0 then Inr (kParseErrno, req)
         else (let (ok, req1) = ParseRequestMethod mem start space1 req
               in if \<not> ok then Inr (kParseErrno, req1)
                  else (let start1 = space1 + 1;
                            space = std_find mem start1 end0 (CHR '' '')
                        in if space = end0 then Inr (state, req1)
                           else (case legacy_target mem start1 space end0 req1 of
                                   Inl f \<Rightarrow> Inl f
                                 | Inr req2 \<Rightarrow> legacy_version mem (space + 1) end0 state req2))))"

subsection \<open>A header line\<close>

text \<open>\<open>while (*(edge++) != ' ') {}\<close>: the position behind the next space.\<close>

function skip_to_space :: "bytes \<Rightarrow> nat \<Rightarrow> nat option" where
  "skip_to_space mem edge =
     (if edge < length mem
      then (if mem ! edge \<noteq> CHR '' '' then skip_to_space mem (edge + 1) else Some (edge + 1))
      else None)"
  by pat_completeness auto
termination
  by (relation "measure (\<lambda>(mem, edge). length mem - edge)") auto

declare skip_to_space.simps [simp del]

definition legacy_ParseHeaders ::
  "bytes \<Rightarrow> nat \<Rightarrow> nat \<Rightarrow> HttpRequestParseState \<Rightarrow> HttpRequest \<Rightarrow>
   fault + (HttpRequestParseState \<times> HttpRequest)" where
  "legacy_ParseHeaders mem start end0 state req =
     (if start = end0 \<and> (length mem \<le> start \<or> mem ! start = CR \<and> length mem \<le> start + 1)
      then Inl OutOfBounds
      else if start = end0 \<and> mem ! start = CR \<and> mem ! (start + 1) = LF
      then Inr (kParseGotCompleteRequest, req)
      else (let colon = std_find mem start end0 (CHR '':'')
            in if colon = end0 then Inr (kParseErrno, req)
               else (case skip_to_space mem (colon + 1) of
                       None \<Rightarrow> Inl OutOfBounds
                     | Some edge \<Rightarrow>
                         Inr (state, req\<lparr>hearders := (hearders req)(seg mem start colon \<mapsto> seg mem (colon + 1) edge)\<rparr>))))"

definition legacy_ParseBody :: "HttpRequestParseState \<Rightarrow> HttpRequest \<Rightarrow> HttpRequestParseState \<times> HttpRequest" where
  "legacy_ParseBody state req = (state, req)"

subsection \<open>Comparison with the parsers in use\<close>

lemma legacy_target_eq:
  assumes "s \<le> e" and "e \<le> length mem" and "s \<le> sp" and "ParseTarget mem s sp e req = Inr r"
  shows "legacy_target mem s sp e req = Inr r"
proof -
  have "s \<le> std_find mem s e (CHR ''?'')" using std_find_le [OF assms(1,2)] by simp
  then show ?thesis using assms(3,4)
    by (auto simp: ParseTarget_def legacy_target_def assign_def Let_def split: if_splits)
qed

lemma legacy_version_eq:
  assumes "s \<le> e" and "e < length mem" and "ParseVersion mem s e req = (True, r)"
  shows "legacy_version mem s e state req = Inr (kParseRequestHeader, r)"
proof -
  have v: "s + 8 = e" "seg mem s (e - 1) = http" "mem ! (e - 1) = CHR ''0'' \<or> mem ! (e - 1) = CHR ''1''"
    using assms(3) by (auto simp: ParseVersion_def Let_def split: if_splits)
  have len: "length http = 7" by (simp add: http_def)
  have s7: "e - 1 = s + 7" using v(1) by simp
  have "seg mem s (s + 7) = http" using v(2) unfolding s7 by simp
  then have "std_search mem s e http = s" using v(1) len by (subst std_search.simps) simp
  then show ?thesis using assms v len s7
    by (auto simp: legacy_version_def ParseVersion_def Let_def split: if_splits)
qed

text \<open>
  Every request line that the parser in use accepts is accepted by the older one, with the same
  request.
\<close>

lemma legacy_line_agrees:
  assumes "s \<le> e" and "e < length mem" and "ParseRequestLine mem s e req = Inr (True, r)"
  shows "legacy_ParseRequestLine mem s e state req = Inr (kParseRequestHeader, r)"
proof -
  let ?sp = "std_find mem s e (CHR '' '')"
  let ?sp1 = "std_find mem (Suc ?sp) e (CHR '' '')"
  have e: "e \<le> length mem" using assms(2) by simp
  obtain req1 where m: "?sp \<noteq> e" "ParseRequestMethod mem s ?sp req = (True, req1)" "?sp1 \<noteq> e"
    using assms(3) by (auto simp: ParseRequestLine_def Let_def split: prod.splits if_splits)
  have sp: "s \<le> ?sp" "?sp < e" using std_find_le [OF assms(1) e, of "CHR '' ''"] m(1) by simp_all
  then have sp1: "Suc ?sp \<le> ?sp1" "?sp1 < e" using std_find_le [of "Suc ?sp" e mem "CHR '' ''"] m(3) e by simp_all
  obtain req2 where t: "ParseTarget mem (Suc ?sp) ?sp1 e req1 = Inr req2"
    "ParseVersion mem (Suc ?sp1) e req2 = (True, r)"
    using assms(3) m by (auto simp: ParseRequestLine_def Let_def split: sum.splits)
  have "legacy_target mem (Suc ?sp) ?sp1 e req1 = Inr req2"
    using sp sp1 e by (intro legacy_target_eq t(1)) simp_all
  moreover have "legacy_version mem (Suc ?sp1) e state req2 = Inr (kParseRequestHeader, r)"
    using sp1(2) assms(2) by (intro legacy_version_eq t(2)) simp_all
  ultimately show ?thesis using m by (simp add: legacy_ParseRequestLine_def Let_def)
qed

text \<open>The two comparisons in place of assignments: a line without a version and one with a wrong one.\<close>

lemma legacy_errors_ignored:
  "legacy_ParseRequestLine (''GET /'' @ CRLF) 0 5 kParseRequestLine new_HttpRequest =
     Inr (kParseRequestLine, new_HttpRequest\<lparr>http_method := Some kGet\<rparr>)"
  "legacy_ParseRequestLine (''GET / HTTP/1.5'' @ CRLF) 0 14 kParseRequestLine new_HttpRequest =
     Inr (kParseRequestLine, new_HttpRequest\<lparr>http_method := Some kGet, path := ''/''\<rparr>)"
  by (simp_all add: legacy_ParseRequestLine_def legacy_target_def legacy_version_def ParseRequestMethod_def
      std_find.simps std_search.simps seg_def http_def CRLF_def CR_def LF_def new_HttpRequest_def)

text \<open>Something in front of the version is overlooked by the older parser only.\<close>

lemma legacy_accepts_more:
  "\<exists>r. legacy_ParseRequestLine (''GET / xHTTP/1.1'' @ CRLF) 0 15 kParseRequestLine new_HttpRequest =
     Inr (kParseRequestHeader, r)"
  "\<exists>r. ParseRequestLine (''GET / xHTTP/1.1'' @ CRLF) 0 15 new_HttpRequest = Inr (False, r)"
  by (simp_all add: legacy_ParseRequestLine_def legacy_target_def legacy_version_def ParseRequestMethod_def
      ParseRequestLine_def ParseTarget_def ParseVersion_def assign_def
      std_find.simps std_search.simps seg_def http_def CRLF_def CR_def LF_def new_HttpRequest_def)

text \<open>The value of a header is what lies before its first space.\<close>

lemma skip_to_space_first:
  "i \<le> j \<Longrightarrow> j < length mem \<Longrightarrow> mem ! j = CHR '' '' \<Longrightarrow> (\<And>k. i \<le> k \<Longrightarrow> k < j \<Longrightarrow> mem ! k \<noteq> CHR '' '') \<Longrightarrow>
    skip_to_space mem i = Some (j + 1)"
proof (induction mem i rule: skip_to_space.induct)
  case (1 mem i)
  show ?case
  proof (cases "i = j")
    case True
    then show ?thesis using 1(3,4) by (subst skip_to_space.simps) simp
  next
    case False
    then have lt: "i < j" using 1(2) by simp
    then have "mem ! i \<noteq> CHR '' ''" using 1(5) by simp
    moreover have "skip_to_space mem (i + 1) = Some (j + 1)"
      using 1(1) [OF _ \<open>mem ! i \<noteq> CHR '' ''\<close>] lt 1(3-5) by simp
    ultimately show ?thesis using lt 1(3) by (subst skip_to_space.simps) simp
  qed
qed

text \<open>
  The older header parser loses every value written in the usual way: for \<open>name: value\<close> it stores a
  single space, where the parser in use stores the value.
\<close>

theorem legacy_header_value_is_a_space:
  assumes "CHR '':'' \<notin> set name" and "mem = pre @ name @ '': '' @ v @ CRLF @ post" and "s = length pre"
    and "e = s + length name + 2 + length v"
  shows "legacy_ParseHeaders mem s e state req = Inr (state, req\<lparr>hearders := (hearders req)(name \<mapsto> '' '')\<rparr>)"
proof -
  have e: "e < length mem" "s \<le> e" using assms by (simp_all add: CRLF_def)
  have "seg mem s e = name @ CHR '':'' # '' '' @ v"
    using assms seg_of_append [of pre s e "name @ '': '' @ v" "CRLF @ post"] by simp
  then have sp: "split_at (CHR '':'') (seg mem s e) = Some (name, '' '' @ v)"
    using split_at_append [OF assms(1), of "'' '' @ v"] by simp
  note f = std_find_split [OF e(2) _ sp]
  let ?c = "std_find mem s e (CHR '':'')"
  have name: "?c < e" "seg mem s ?c = name" "s \<le> ?c" using f e(1) by simp_all
  then have c: "?c = s + length name" using length_seg [of ?c mem s] e(1) by simp
  have sc: "mem ! Suc ?c = CHR '' ''" using assms(2,3) c by (simp add: nth_append)
  have "skip_to_space mem (Suc ?c) = Some (Suc ?c + 1)"
    by (rule skip_to_space_first) (use sc name(1) e(1) in auto)
  moreover have "seg mem (Suc ?c) (Suc ?c + 1) = '' ''"
    using sc name(1) e(1) by (simp add: seg_Cons)
  ultimately show ?thesis using name by (simp add: legacy_ParseHeaders_def Let_def)
qed

lemma legacy_header_value_is_a_space_witness:
  "legacy_ParseHeaders (''Host: a'' @ CRLF) 0 7 kParseRequestHeader new_HttpRequest =
     Inr (kParseRequestHeader, new_HttpRequest\<lparr>hearders := [''Host'' \<mapsto> '' '']\<rparr>)"
  using legacy_header_value_is_a_space [of "''Host''" "''Host: a'' @ CRLF" "[]" "''a''" "[]" 0 7]
  by (simp add: new_HttpRequest_def)

end
