(* ===== verification/Net_Accepter.thy ===== *)
theory Net_Accepter
  imports Net_TcpConnection
begin

text \<open>
  \<^verbatim>\<open>Net/InetAddress.h\<close>, \<^verbatim>\<open>Net/InetAddress.cc\<close>, \<^verbatim>\<open>Net/Accepter.h\<close>, \<^verbatim>\<open>Net/Accepter.cc\<close>,
  \<^verbatim>\<open>Net/EventLoopThreadPool.h\<close>, \<^verbatim>\<open>Net/EventLoopThreadPool.cc\<close>: what a server is made of.

  \<open>inet_pton\<close>, \<open>inet_ntop\<close> and the results of \<open>accept\<close> are arguments; ports are 16-bit words, and
  \<open>htons\<close> is the byte swap of a little-endian machine. An \<open>EventLoop*\<close> is an address.
\<close>

subsection \<open>Addresses\<close>

record InetAddress =
  sin_port :: "16 word"
  s_addr :: "32 word"

definition htons :: "16 word \<Rightarrow> 16 word" where
  "htons x = push_bit 8 x OR drop_bit 8 x"

definition new_InetAddress :: "(string \<Rightarrow> 32 word option) \<Rightarrow> 16 word \<Rightarrow> string \<Rightarrow> InetAddress" where
  "new_InetAddress inet_pton p ip =
     \<lparr>sin_port = htons p, s_addr = (case inet_pton ip of None \<Rightarrow> 0 | Some a \<Rightarrow> a)\<rparr>"

definition toIp :: "(32 word \<Rightarrow> string) \<Rightarrow> InetAddress \<Rightarrow> string" where
  "toIp inet_ntop a = inet_ntop (s_addr a)"

definition port :: "InetAddress \<Rightarrow> 16 word" where
  "port a = htons (sin_port a)"

definition toIpPort :: "(32 word \<Rightarrow> string) \<Rightarrow> InetAddress \<Rightarrow> string" where
  "toIpPort inet_ntop a = inet_ntop (s_addr a) @ '':'' @ dec (unat (port a))"

lemma htons_htons [simp]: "htons (htons x) = x"
proof (rule bit_word_eqI)
  fix n assume "n < LENGTH(16)"
  then have "n < 16" by simp
  then show "bit (htons (htons x)) n = bit x n"
    by (auto simp: htons_def bit_or_iff bit_push_bit_iff bit_drop_bit_eq bit_imp_le_length
        dest: bit_imp_le_length)
qed

lemma port_new [simp]: "port (new_InetAddress inet_pton p ip) = p"
  by (simp add: port_def new_InetAddress_def)

text \<open>What \<open>toIpPort\<close> prints determines the address and the port, for an injective \<open>inet_ntop\<close>.\<close>

lemma dec_no_colon: "CHR '':'' \<notin> set (dec n)"
proof (induction n rule: dec.induct)
  case (1 n)
  have d: "digit k \<noteq> CHR '':''" if "k < 10" for k
  proof
    assume "digit k = CHR '':''"
    then have "(of_char (digit k) :: nat) = of_char (CHR '':'')" by simp
    then show False using that by (simp add: digit_def)
  qed
  show ?case using 1 d [of n] d [of "n mod 10"] by (subst dec.simps) auto
qed

lemma toIpPort_inj:
  assumes "toIpPort ntop a = toIpPort ntop b" and "inj ntop"
    and "CHR '':'' \<notin> set (ntop (s_addr a))" and "CHR '':'' \<notin> set (ntop (s_addr b))"
  shows "a = b"
proof -
  have "split_at (CHR '':'') (toIpPort ntop a) = split_at (CHR '':'') (toIpPort ntop b)"
    using assms(1) by simp
  then have "ntop (s_addr a) = ntop (s_addr b) \<and> dec (unat (port a)) = dec (unat (port b))"
    using assms(3,4) by (simp add: toIpPort_def)
  then have "s_addr a = s_addr b" and "unat (port a) = unat (port b)"
    using inj_eq [OF assms(2)] by (simp_all add: dec_inj)
  then have "port a = port b" by (simp only: word_unat_eq_iff)
  then have "htons (port a) = htons (port b)" by simp
  then have "sin_port a = sin_port b" by (simp add: port_def)
  with \<open>s_addr a = s_addr b\<close> show ?thesis by simp
qed

subsection \<open>The thread pool\<close>

record EventLoopThreadPool =
  baseLoop :: nat
  pool_started :: bool
  numThreads :: int
  next_loop :: nat
  threads :: "string list"
  loops :: "nat list"

definition new_EventLoopThreadPool :: "nat \<Rightarrow> EventLoopThreadPool" where
  "new_EventLoopThreadPool base =
     \<lparr>baseLoop = base, pool_started = False, numThreads = 0, next_loop = 0, threads = [], loops = []\<rparr>"

definition setThreaadNum :: "int \<Rightarrow> EventLoopThreadPool \<Rightarrow> EventLoopThreadPool" where
  "setThreaadNum n p = p\<lparr>numThreads := n\<rparr>"

text \<open>\<open>startLoop i\<close> is the loop that the i-th new \<open>EventLoopThread\<close> reports when it runs.\<close>

definition pool_start_one :: "(nat \<Rightarrow> nat) \<Rightarrow> nat \<Rightarrow> EventLoopThreadPool \<Rightarrow> EventLoopThreadPool" where
  "pool_start_one startLoop i p =
     p\<lparr>threads := threads p @ [''EventLoopThread''], loops := loops p @ [startLoop i]\<rparr>"

definition pool_start :: "(nat \<Rightarrow> nat) \<Rightarrow> EventLoopThreadPool \<Rightarrow> EventLoopThreadPool" where
  "pool_start startLoop p =
     fold (pool_start_one startLoop) [0..<nat (numThreads p)] (p\<lparr>pool_started := True\<rparr>)"

definition getNextLoop :: "EventLoopThreadPool \<Rightarrow> fault + (nat \<times> EventLoopThreadPool)" where
  "getNextLoop p =
     (if loops p \<noteq> []
      then (if next_loop p < length (loops p)
            then (let loop0 = loops p ! next_loop p;
                      p1 = p\<lparr>next_loop := next_loop p + 1\<rparr>
                  in Inr (loop0, if next_loop p1 \<ge> length (loops p1) then p1\<lparr>next_loop := 0\<rparr> else p1))
            else Inl OutOfBounds)
      else Inr (baseLoop p, p))"

definition pool_inv :: "EventLoopThreadPool \<Rightarrow> bool" where
  "pool_inv p \<longleftrightarrow> (if loops p = [] then next_loop p = 0 else next_loop p < length (loops p))"

lemma pool_start_one_fields:
  "baseLoop (fold (pool_start_one f) is p) = baseLoop p" "numThreads (fold (pool_start_one f) is p) = numThreads p"
  "next_loop (fold (pool_start_one f) is p) = next_loop p"
  "loops (fold (pool_start_one f) is p) = loops p @ map f is"
  by (induction "is" arbitrary: p) (simp_all add: pool_start_one_def)

lemma pool_start_loops [simp]:
  "loops (pool_start f p) = loops p @ map f [0..<nat (numThreads p)]"
  "next_loop (pool_start f p) = next_loop p" "baseLoop (pool_start f p) = baseLoop p"
  by (simp_all add: pool_start_def pool_start_one_fields)

lemma pool_inv_start [inv_rules]: "pool_inv p \<Longrightarrow> pool_inv (pool_start f p)"
  by (auto simp: pool_inv_def split: if_splits)

text \<open>The loop that serves the k-th request after the index \<open>next_loop\<close>, round robin.\<close>

definition robin :: "EventLoopThreadPool \<Rightarrow> nat \<Rightarrow> nat" where
  "robin p k = (if loops p = [] then baseLoop p else loops p ! ((next_loop p + k) mod length (loops p)))"

lemma getNextLoop_ok:
  assumes "pool_inv p"
  shows "\<exists>p'. getNextLoop p = Inr (robin p 0, p') \<and> pool_inv p' \<and> loops p' = loops p \<and>
    baseLoop p' = baseLoop p \<and> (\<forall>k. robin p' k = robin p (Suc k))"
proof (cases "loops p = []")
  case True
  then show ?thesis using assms by (simp add: getNextLoop_def robin_def)
next
  case False
  let ?n = "length (loops p)"
  have lt: "next_loop p < ?n" using assms False by (simp add: pool_inv_def)
  let ?p' = "if next_loop p + 1 \<ge> ?n then p\<lparr>next_loop := 0\<rparr> else p\<lparr>next_loop := next_loop p + 1\<rparr>"
  have nx: "next_loop ?p' = (next_loop p + 1) mod ?n"
    using lt by (cases "next_loop p + 1 = ?n") simp_all
  have "(next_loop p + Suc k) mod ?n = ((next_loop p + 1) mod ?n + k) mod ?n" for k
    by (simp only: mod_add_left_eq) simp
  moreover have "loops ?p' = loops p" by simp
  ultimately have "robin ?p' k = robin p (Suc k)" for k
    using False unfolding robin_def by (simp only: nx if_False)
  moreover have "pool_inv ?p'" using lt by (auto simp: pool_inv_def)
  moreover have "getNextLoop p = Inr (robin p 0, ?p')"
    using False lt by (simp add: getNextLoop_def robin_def Let_def)
  ultimately show ?thesis by (intro exI [of _ ?p']) simp
qed

text \<open>The loops that a number of connections get, one after the other.\<close>

fun assign_loops :: "nat \<Rightarrow> EventLoopThreadPool \<Rightarrow> fault + nat list" where
  "assign_loops 0 p = Inr []"
| "assign_loops (Suc n) p =
     (case getNextLoop p of
        Inl f \<Rightarrow> Inl f
      | Inr (l, p1) \<Rightarrow> (case assign_loops n p1 of Inl f \<Rightarrow> Inl f | Inr ls \<Rightarrow> Inr (l # ls)))"

lemma assign_loops_robin: "pool_inv p \<Longrightarrow> assign_loops n p = Inr (map (robin p) [0..<n])"
proof (induction n arbitrary: p)
  case 0
  then show ?case by simp
next
  case (Suc n)
  obtain p' where p': "getNextLoop p = Inr (robin p 0, p')" "pool_inv p'" "\<forall>k. robin p' k = robin p (Suc k)"
    using getNextLoop_ok [OF Suc.prems] by blast
  have "map (robin p) [0..<Suc n] = robin p 0 # map (\<lambda>k. robin p (Suc k)) [0..<n]"
    by (simp add: map_upt_Suc del: upt_Suc)
  then show ?case using p' Suc.IH [OF p'(2)] by (simp del: upt_Suc)
qed

text \<open>
  A started pool of n threads serves connections round robin: whatever number of connections comes,
  the k-th gets the loop of thread k mod n; with no threads every connection gets the base loop.
\<close>

theorem pool_is_round_robin:
  assumes "0 \<le> n"
  shows "assign_loops m (pool_start startLoop (setThreaadNum n (new_EventLoopThreadPool base))) =
    Inr (map (\<lambda>k. if n = 0 then base else startLoop (k mod nat n)) [0..<m])"
proof -
  let ?p = "pool_start startLoop (setThreaadNum n (new_EventLoopThreadPool base))"
  have f: "loops ?p = map startLoop [0..<nat n]" "next_loop ?p = 0" "baseLoop ?p = base"
    by (simp_all add: setThreaadNum_def new_EventLoopThreadPool_def)
  have inv: "pool_inv ?p"
    by (intro inv_rules) (simp add: pool_inv_def setThreaadNum_def new_EventLoopThreadPool_def)
  have "robin ?p k = (if n = 0 then base else startLoop (k mod nat n))" for k
  proof (cases "n = 0")
    case False
    then have "0 < nat n" using assms by simp
    then have "k mod nat n < nat n" by simp
    then show ?thesis using False f assms unfolding robin_def by simp
  qed (use f in \<open>simp add: robin_def\<close>)
  then show ?thesis by (simp add: assign_loops_robin [OF inv])
qed

lemma pool_is_round_robin_witness:
  "assign_loops 5 (pool_start (\<lambda>i. 100 + i) (setThreaadNum 3 (new_EventLoopThreadPool 1))) =
    Inr [100, 101, 102, 100, 101]"
  by (subst pool_is_round_robin) (simp_all add: upt_rec)

subsection \<open>The acceptor\<close>

datatype accept_cb = NewConnectionCb

record Accepter =
  acceptChannel :: "accept_cb Channel"
  acceptSocket :: int
  listening :: bool

text \<open>The channel member at address \<open>p\<close> and the listening socket \<open>f\<close>.\<close>

definition new_Accepter :: "nat \<Rightarrow> int \<Rightarrow> Accepter" where
  "new_Accepter p f =
     \<lparr>acceptChannel = setReadCallBack NewConnectionCb (Init f (new_Channel p (- 1))),
      acceptSocket = f, listening = False\<rparr>"

definition accepter_listen :: "Accepter \<Rightarrow> Epoller \<Rightarrow> Accepter \<times> Epoller" where
  "accepter_listen a ep =
     (let a1 = a\<lparr>listening := True\<rparr>;
          (ch, ep1) = enableReading (acceptChannel a1) ep
      in (a1\<lparr>acceptChannel := ch\<rparr>, ep1))"

definition accepter_destroy :: "Accepter \<Rightarrow> Epoller \<Rightarrow> Accepter \<times> Epoller" where
  "accepter_destroy a ep =
     (let (ch, ep1) = disableAll (acceptChannel a) ep;
          (ch2, ep2) = remove ch ep1
      in (a\<lparr>acceptChannel := ch2\<rparr>, ep2))"

text \<open>\<open>Socket::accept\<close> for the result of the system call.\<close>

definition socket_accept :: "int \<times> InetAddress \<Rightarrow> InetAddress \<Rightarrow> int \<times> InetAddress" where
  "socket_accept r peeraddr = (fst r, if fst r \<ge> 0 then snd r else peeraddr)"

text \<open>The callback and \<open>close\<close> act on the state \<open>w\<close> of whoever owns the acceptor.\<close>

definition NewConnection ::
  "(int \<Rightarrow> InetAddress \<Rightarrow> 'w \<Rightarrow> fault + 'w) option \<Rightarrow> (int \<Rightarrow> 'w \<Rightarrow> 'w) \<Rightarrow>
   int \<times> InetAddress \<Rightarrow> InetAddress \<Rightarrow> 'w \<Rightarrow> fault + 'w" where
  "NewConnection newConnectioncb close r clientAddr w =
     (let (connfd, clientAddr1) = socket_accept r clientAddr
      in if connfd \<ge> 0
         then (case newConnectioncb of
                 Some cb \<Rightarrow> cb connfd clientAddr1 w
               | None \<Rightarrow> Inr (close connfd w))
         else Inr w)"

text \<open>A listening acceptor is registered for reading; a destroyed one is out of the kernel's list.\<close>

lemma accepter_listen_registers:
  assumes "interest ep = Some K" and "K f = None" and "accepter_listen (new_Accepter p f) ep = (a, ep')"
  shows "listening a \<and> interest ep' = Some (K(f \<mapsto> (kReadEvent, p)))"
proof -
  let ?ch = "acceptChannel (new_Accepter p f)"
  obtain ch where ch: "channel_step EnableReading ?ch ep = (ch, ep')" "acceptChannel a = ch" "listening a"
    using assms(3) by (auto simp: accepter_listen_def Let_def channel_step_def new_Accepter_def split: prod.splits)
  have reg: "registered_as K ?ch"
    using assms(2) by (simp add: registered_as_def entry_def valid_index_def new_Accepter_def Init_def
        new_Channel_def setReadCallBack_def kNew_def kAdded_def)
  from netpoll.op_law [OF assms(1) this ch(1) [unfolded channel_step_run_op]]
  have law: "interest ep' = Some (K(fd ?ch := entry ch))" "fd ch = fd ?ch" "this ch = this ?ch"
    "events ch = events (set_events EnableReading ?ch)" by simp_all
  have "index ch = kAdded"
  proof -
    have "isReading (set_events EnableReading ?ch)"
      by (simp add: isReading_def new_Accepter_def Init_def new_Channel_def
          setReadCallBack_def kReadEvent_def EPOLLIN_def EPOLLPRI_def)
    moreover have "updateChannel (set_events EnableReading ?ch) ep = (ch, ep')"
      using ch(1) by (simp add: channel_step_run_op run_op_def)
    moreover have "valid_index (set_events EnableReading ?ch)"
      using reg by (auto simp: registered_as_def valid_index_def)
    ultimately show ?thesis using updateChannel_added reading_not_none by blast
  qed
  then show ?thesis using law ch(3)
    by (simp add: entry_def new_Accepter_def Init_def new_Channel_def setReadCallBack_def)
qed

end
