(* ===== verification/Net_TcpServer.thy ===== *)
theory Net_TcpServer
  imports Net_Accepter
begin

text \<open>
  \<^verbatim>\<open>Net/TcpServer.h\<close>, \<^verbatim>\<open>Net/TcpServer.cc\<close>: the server, its connections and the event loops they run
  on. A \<open>TcpConnectionPtr\<close> is a position in \<open>objs\<close>, the objects in the order of their creation; the
  functors that the code binds are the constructors of \<open>server_functor\<close>. Every loop has its queue
  (\<open>evloops\<close>) and its poller (\<open>pollers\<close>); \<open>me\<close> is the loop whose thread runs the code.

  \<open>server_step\<close> interleaves the threads: the acceptor reports a connection, a loop calls the first
  functor of its queue, a connection is closed in its own loop. \<open>released\<close> marks an object whose
  \<open>connectDestoryed\<close> has run: the functor held the last pointer.
\<close>

subsection \<open>State\<close>

datatype server_functor =
  ListenFn | ConnectEstablishedFn nat | RemoveConnectionFn nat | ConnectDestoryedFn nat

record ServerConn =
  tcp :: TcpConnection
  ioLoop :: nat
  released :: bool

record TcpServer =
  srv_loop :: nat
  srv_name :: string
  accepter :: Accepter
  threadPool :: EventLoopThreadPool
  srv_started :: bool
  nextConnId :: int
  connections :: "string \<rightharpoonup> nat"

record World =
  server :: TcpServer
  objs :: "ServerConn list"
  evloops :: "nat \<Rightarrow> server_functor EventLoop"
  pollers :: "nat \<Rightarrow> Epoller"
  closed_fds :: "int list"

definition new_TcpServer :: "nat \<Rightarrow> Accepter \<Rightarrow> string \<Rightarrow> TcpServer" where
  "new_TcpServer l acc nameArg =
     \<lparr>srv_loop = l, srv_name = nameArg, accepter = acc, threadPool = new_EventLoopThreadPool l,
      srv_started = False, nextConnId = 1, connections = Map.empty\<rparr>"

definition setThreadNum :: "int \<Rightarrow> TcpServer \<Rightarrow> fault + TcpServer" where
  "setThreadNum n s =
     (if n \<ge> 0 then Inr (s\<lparr>threadPool := setThreaadNum n (threadPool s)\<rparr>) else Inl AssertFailed)"

subsection \<open>Calls into a loop and into a connection\<close>

definition queue_on :: "nat \<Rightarrow> nat \<Rightarrow> server_functor \<Rightarrow> World \<Rightarrow> World" where
  "queue_on me l f W = W\<lparr>evloops := (evloops W)(l := queueInLoop (me = l) f (evloops W l))\<rparr>"

text \<open>A member function of connection \<open>h\<close>, on the poller of its loop.\<close>

definition on_conn :: "(TcpConnection \<Rightarrow> fault + TcpConnection) \<Rightarrow> nat \<Rightarrow> World \<Rightarrow> fault + World" where
  "on_conn f h W =
     (let obj = objs W ! h
      in case f ((tcp obj)\<lparr>poller_of := pollers W (ioLoop obj)\<rparr>) of
           Inl e \<Rightarrow> Inl e
         | Inr c \<Rightarrow> Inr (W\<lparr>objs := (objs W)[h := obj\<lparr>tcp := c\<rparr>],
                          pollers := (pollers W)(ioLoop obj := poller_of c)\<rparr>))"

definition release :: "nat \<Rightarrow> World \<Rightarrow> World" where
  "release h W = W\<lparr>objs := (objs W)[h := (objs W ! h)\<lparr>released := True\<rparr>]\<rparr>"

definition removeConnectionInLoop :: "nat \<Rightarrow> World \<Rightarrow> World" where
  "removeConnectionInLoop h W =
     (let obj = objs W ! h;
          W1 = W\<lparr>server := (server W)\<lparr>connections := (connections (server W))(conn_name (tcp obj) := None)\<rparr>\<rparr>
      in queue_on (srv_loop (server W)) (ioLoop obj) (ConnectDestoryedFn h) W1)"

definition listen_in_loop :: "World \<Rightarrow> World" where
  "listen_in_loop W =
     (let l = srv_loop (server W);
          (a, ep) = accepter_listen (accepter (server W)) (pollers W l)
      in W\<lparr>server := (server W)\<lparr>accepter := a\<rparr>, pollers := (pollers W)(l := ep)\<rparr>)"

text \<open>What calling a queued functor does; \<open>ucb\<close> is the user's connection callback.\<close>

fun run_server_functor :: "conn_cb \<Rightarrow> server_functor \<Rightarrow> World \<Rightarrow> fault + World" where
  "run_server_functor ucb ListenFn W = Inr (listen_in_loop W)"
| "run_server_functor ucb (ConnectEstablishedFn h) W = on_conn (connectEstablished ucb) h W"
| "run_server_functor ucb (RemoveConnectionFn h) W = Inr (removeConnectionInLoop h W)"
| "run_server_functor ucb (ConnectDestoryedFn h) W =
     (case on_conn (connectDestoryed ucb) h W of Inl e \<Rightarrow> Inl e | Inr W1 \<Rightarrow> Inr (release h W1))"

text \<open>\<open>runInLoop\<close>, as \<open>EventLoop::runInLoop\<close> does it.\<close>

definition run_in_loop :: "conn_cb \<Rightarrow> nat \<Rightarrow> nat \<Rightarrow> server_functor \<Rightarrow> World \<Rightarrow> fault + World" where
  "run_in_loop ucb me l f W =
     (if me = l then run_server_functor ucb f W else Inr (queue_on me l f W))"

subsection \<open>The server's operations\<close>

definition server_start :: "conn_cb \<Rightarrow> (nat \<Rightarrow> nat) \<Rightarrow> nat \<Rightarrow> World \<Rightarrow> fault + World" where
  "server_start ucb startLoop me W =
     (let s = server W;
          s1 = (if \<not> srv_started s
                then s\<lparr>srv_started := True, threadPool := pool_start startLoop (threadPool s)\<rparr> else s);
          W1 = W\<lparr>server := s1\<rparr>
      in if \<not> listening (accepter s1) then run_in_loop ucb me (srv_loop s1) ListenFn W1 else Inr W1)"

definition removeConnection :: "conn_cb \<Rightarrow> nat \<Rightarrow> nat \<Rightarrow> World \<Rightarrow> fault + World" where
  "removeConnection ucb me h W = run_in_loop ucb me (srv_loop (server W)) (RemoveConnectionFn h) W"

text \<open>\<open>handleClose\<close> of connection \<open>h\<close>; its close callback, the last thing it calls, is \<open>removeConnection\<close>.\<close>

definition close_conn :: "conn_cb \<Rightarrow> nat \<Rightarrow> World \<Rightarrow> fault + World" where
  "close_conn ucb h W =
     (case on_conn (handleClose ucb (Some Inr)) h W of
        Inl e \<Rightarrow> Inl e
      | Inr W1 \<Rightarrow> removeConnection ucb (ioLoop (objs W ! h)) h W1)"

definition conn_name_of :: "TcpServer \<Rightarrow> string" where
  "conn_name_of s = srv_name s @ take 31 (''#'' @ fmt_int (nextConnId s))"

text \<open>The new object gets its position as the address of its channel; \<open>t\<close> is its time stamp.\<close>

definition newConnection ::
  "conn_cb \<Rightarrow> TimeStamp \<Rightarrow> int \<Rightarrow> InetAddress \<Rightarrow> World \<Rightarrow> fault + World" where
  "newConnection ucb t connfd peerAddr W =
     (case getNextLoop (threadPool (server W)) of
        Inl e \<Rightarrow> Inl e
      | Inr (l, pool) \<Rightarrow>
          (let s = (server W)\<lparr>threadPool := pool\<rparr>;
               connName = conn_name_of s;
               s1 = s\<lparr>nextConnId := c_int (nextConnId s + 1)\<rparr>;
               h = length (objs W);
               obj = \<lparr>tcp = new_TcpConnection h (pollers W l) new_EventLoop t connName connfd,
                      ioLoop = l, released = False\<rparr>;
               W1 = W\<lparr>server := s1\<lparr>connections := (connections s1)(connName \<mapsto> h)\<rparr>,
                      objs := objs W @ [obj]\<rparr>
           in run_in_loop ucb (srv_loop s) l (ConnectEstablishedFn h) W1))"

definition close_fd :: "int \<Rightarrow> World \<Rightarrow> World" where
  "close_fd f W = W\<lparr>closed_fds := closed_fds W @ [f]\<rparr>"

text \<open>The read event of the acceptor, whose callback the constructor bound to \<open>newConnection\<close>.\<close>

definition accept_event :: "conn_cb \<Rightarrow> TimeStamp \<Rightarrow> int \<times> InetAddress \<Rightarrow> World \<Rightarrow> fault + World" where
  "accept_event ucb t r W =
     NewConnection (Some (newConnection ucb t)) close_fd r \<lparr>sin_port = 0, s_addr = 0x0100007F\<rparr> W"

subsection \<open>The threads\<close>

text \<open>Loop \<open>l\<close> takes the first functor of its queue; \<open>fs\<close> are the others.\<close>

definition popped :: "nat \<Rightarrow> server_functor list \<Rightarrow> World \<Rightarrow> World" where
  "popped l fs W = W\<lparr>evloops := (evloops W)(l := (evloops W l)\<lparr>pendingFunctors := fs\<rparr>)\<rparr>"

definition runs :: "World \<Rightarrow> World \<Rightarrow> bool" where
  "runs W W' \<longleftrightarrow> (\<exists>l f fs. pendingFunctors (evloops W l) = f # fs \<and>
     run_server_functor (Some Inr) f (popped l fs W) = Inr W')"

inductive server_step :: "(nat \<Rightarrow> nat) \<Rightarrow> World \<Rightarrow> World \<Rightarrow> bool" for startLoop where
  start: "server_start (Some Inr) startLoop me W = Inr W' \<Longrightarrow> server_step startLoop W W'"
| accept: "listening (accepter (server W)) \<Longrightarrow> nextConnId (server W) < 2 ^ 31 - 1 \<Longrightarrow>
    accept_event (Some Inr) t r W = Inr W' \<Longrightarrow> server_step startLoop W W'"
| run: "runs W W' \<Longrightarrow> server_step startLoop W W'"
| close: "h < length (objs W) \<Longrightarrow> conn_state (tcp (objs W ! h)) \<in> {kConnected, kDisConnecting} \<Longrightarrow>
    close_conn (Some Inr) h W = Inr W' \<Longrightarrow> server_step startLoop W W'"
| shutdown: "h < length (objs W) \<Longrightarrow>
    on_conn (\<lambda>c. Inr (Net_TcpConnection.shutdown inThread c)) h W = Inr W' \<Longrightarrow> server_step startLoop W W'"

definition init_World :: "TcpServer \<Rightarrow> World" where
  "init_World s = \<lparr>server = s, objs = [], evloops = (\<lambda>_. new_EventLoop), pollers = (\<lambda>_. new_Epoller),
     closed_fds = []\<rparr>"

inductive server_reachable :: "(nat \<Rightarrow> nat) \<Rightarrow> World \<Rightarrow> bool" for startLoop where
  init: "setThreadNum n (new_TcpServer l acc nm) = Inr s \<Longrightarrow> server_reachable startLoop (init_World s)"
| step: "server_reachable startLoop W \<Longrightarrow> server_step startLoop W W' \<Longrightarrow> server_reachable startLoop W'"

subsection \<open>The life of a connection\<close>

datatype stage = Establishing | Opened | Closing | Removed | Released

definition obj_stage :: "(string \<rightharpoonup> nat) \<Rightarrow> nat \<Rightarrow> ServerConn \<Rightarrow> stage" where
  "obj_stage m h obj =
     (if released obj then Released
      else (case conn_state (tcp obj) of
              kConnecting \<Rightarrow> Establishing
            | kdisConnected \<Rightarrow> (if m (conn_name (tcp obj)) = Some h then Closing else Removed)
            | _ \<Rightarrow> Opened))"

definition stage_of :: "World \<Rightarrow> nat \<Rightarrow> stage" where
  "stage_of W h = obj_stage (connections (server W)) h (objs W ! h)"

text \<open>The functor that takes a connection out of a stage, and the loop it is queued on.\<close>

fun due :: "nat \<Rightarrow> nat \<Rightarrow> stage \<Rightarrow> nat \<Rightarrow> (nat \<times> server_functor) option" where
  "due base l Establishing h = Some (l, ConnectEstablishedFn h)"
| "due base l Closing h = Some (base, RemoveConnectionFn h)"
| "due base l Removed h = Some (l, ConnectDestoryedFn h)"
| "due base l _ h = None"

definition is_conn_fn :: "server_functor \<Rightarrow> bool" where
  "is_conn_fn f \<longleftrightarrow> f \<noteq> ListenFn"

definition pending :: "World \<Rightarrow> nat \<Rightarrow> server_functor \<Rightarrow> nat" where
  "pending W l f = count_list (pendingFunctors (evloops W l)) f"

fun about :: "server_functor \<Rightarrow> nat option" where
  "about ListenFn = None"
| "about (ConnectEstablishedFn h) = Some h"
| "about (RemoveConnectionFn h) = Some h"
| "about (ConnectDestoryedFn h) = Some h"

definition queue_inv :: "World \<Rightarrow> bool" where
  "queue_inv W \<longleftrightarrow> (\<forall>l f h. about f = Some h \<longrightarrow>
     pending W l f = (if h < length (objs W) \<and>
       due (srv_loop (server W)) (ioLoop (objs W ! h)) (stage_of W h) h = Some (l, f) then 1 else 0))"

definition map_inv :: "World \<Rightarrow> bool" where
  "map_inv W \<longleftrightarrow> (\<forall>nm h. connections (server W) nm = Some h \<longleftrightarrow>
     h < length (objs W) \<and> conn_name (tcp (objs W ! h)) = nm \<and>
     stage_of W h \<in> {Establishing, Opened, Closing})"

definition name_inv :: "World \<Rightarrow> bool" where
  "name_inv W \<longleftrightarrow> nextConnId (server W) = int (length (objs W)) + 1 \<and> length (objs W) < 2 ^ 31 - 1 \<and>
     (\<forall>h < length (objs W). conn_name (tcp (objs W ! h)) = srv_name (server W) @ ''#'' @ dec (Suc h))"

definition server_inv :: "World \<Rightarrow> bool" where
  "server_inv W \<longleftrightarrow> pool_inv (threadPool (server W)) \<and> name_inv W \<and> map_inv W \<and> queue_inv W \<and>
     (\<forall>l. pending W l ListenFn \<noteq> 0 \<longrightarrow> l = srv_loop (server W)) \<and>
     (\<forall>h < length (objs W). stage_of W h = Released \<longrightarrow> conn_state (tcp (objs W ! h)) = kdisConnected)"

subsection \<open>Moving one connection to another stage\<close>

lemma name_distinct:
  "name_inv W \<Longrightarrow> h < length (objs W) \<Longrightarrow> k < length (objs W) \<Longrightarrow>
    conn_name (tcp (objs W ! h)) = conn_name (tcp (objs W ! k)) \<longleftrightarrow> h = k"
  by (simp add: name_inv_def dec_inj)

lemma map_inv_stage:
  assumes "map_inv W" and "name_inv W" and "h < length (objs W)"
  shows "connections (server W) (conn_name (tcp (objs W ! h))) =
    (if stage_of W h \<in> {Establishing, Opened, Closing} then Some h else None)"
proof (cases "stage_of W h \<in> {Establishing, Opened, Closing}")
  case True
  then show ?thesis using assms unfolding map_inv_def by simp
next
  case False
  have "connections (server W) (conn_name (tcp (objs W ! h))) \<noteq> Some k" for k
    using assms False name_distinct [OF assms(2)] unfolding map_inv_def by metis
  then show ?thesis using False by (simp only: if_False) blast
qed

text \<open>\<open>move h b W W'\<close>: connection \<open>h\<close> goes to stage \<open>b\<close>, nothing else changes.\<close>

definition move :: "nat \<Rightarrow> stage \<Rightarrow> World \<Rightarrow> World \<Rightarrow> bool" where
  "move h b W W' \<longleftrightarrow>
     (\<exists>obj. objs W' = (objs W)[h := obj] \<and> ioLoop obj = ioLoop (objs W ! h) \<and>
        conn_name (tcp obj) = conn_name (tcp (objs W ! h)) \<and>
        obj_stage (connections (server W')) h obj = b \<and>
        (b = Released \<longrightarrow> conn_state (tcp obj) = kdisConnected)) \<and>
     srv_loop (server W') = srv_loop (server W) \<and> srv_name (server W') = srv_name (server W) \<and>
     nextConnId (server W') = nextConnId (server W) \<and> threadPool (server W') = threadPool (server W) \<and>
     connections (server W') = (connections (server W))(conn_name (tcp (objs W ! h)) :=
       (if b \<in> {Establishing, Opened, Closing} then Some h else None)) \<and>
     (\<forall>l f. pending W' l f =
        (if about f = Some h
         then (if due (srv_loop (server W)) (ioLoop (objs W ! h)) b h = Some (l, f) then 1 else 0)
         else pending W l f))"

lemma move_stage:
  assumes "move h b W W'" and "server_inv W" and "h < length (objs W)" and "k < length (objs W)"
  shows "stage_of W' k = (if k = h then b else stage_of W k)"
proof -
  have inv: "name_inv W" using assms(2) by (simp add: server_inv_def)
  obtain obj where obj: "objs W' = (objs W)[h := obj]" "obj_stage (connections (server W')) h obj = b"
    and m: "connections (server W') = (connections (server W))(conn_name (tcp (objs W ! h)) :=
       (if b \<in> {Establishing, Opened, Closing} then Some h else None))"
    using assms(1) unfolding move_def by blast
  show ?thesis
  proof (cases "k = h")
    case True
    then show ?thesis using obj assms(3) by (simp add: stage_of_def)
  next
    case False
    then have "conn_name (tcp (objs W ! k)) \<noteq> conn_name (tcp (objs W ! h))"
      using name_distinct [OF inv] assms(3,4) by simp
    then show ?thesis using False obj(1) by (simp add: stage_of_def obj_stage_def m split: ConnState.split)
  qed
qed

lemma move_inv [inv_rules]:
  assumes "move h b W W'" and "server_inv W" and "h < length (objs W)"
  shows "server_inv W'"
proof -
  have inv: "name_inv W" "map_inv W" "queue_inv W" "pool_inv (threadPool (server W))"
    "\<forall>k < length (objs W). stage_of W k = Released \<longrightarrow> conn_state (tcp (objs W ! k)) = kdisConnected"
    "\<forall>l. pending W l ListenFn \<noteq> 0 \<longrightarrow> l = srv_loop (server W)"
    using assms(2) by (simp_all add: server_inv_def)
  note st = move_stage [OF assms]
  obtain obj where obj: "objs W' = (objs W)[h := obj]" "ioLoop obj = ioLoop (objs W ! h)"
    "conn_name (tcp obj) = conn_name (tcp (objs W ! h))" "b = Released \<longrightarrow> conn_state (tcp obj) = kdisConnected"
    and fr: "srv_loop (server W') = srv_loop (server W)" "srv_name (server W') = srv_name (server W)"
      "nextConnId (server W') = nextConnId (server W)" "threadPool (server W') = threadPool (server W)"
    and m: "connections (server W') = (connections (server W))(conn_name (tcp (objs W ! h)) :=
       (if b \<in> {Establishing, Opened, Closing} then Some h else None))"
    and pend: "\<And>l f. pending W' l f = (if about f = Some h
         then (if due (srv_loop (server W)) (ioLoop (objs W ! h)) b h = Some (l, f) then 1 else 0)
         else pending W l f)"
    using assms(1) unfolding move_def by blast
  have len: "length (objs W') = length (objs W)" using obj(1) by simp
  have frame: "conn_name (tcp (objs W' ! k)) = conn_name (tcp (objs W ! k))"
    "ioLoop (objs W' ! k) = ioLoop (objs W ! k)" if "k < length (objs W)" for k
    using obj that by (cases "k = h"; simp)+
  have "name_inv W'" using inv(1) frame(1) by (simp add: name_inv_def fr len)
  moreover have "map_inv W'"
    unfolding map_inv_def
  proof (intro allI)
    fix nm k
    show "connections (server W') nm = Some k \<longleftrightarrow> k < length (objs W') \<and>
      conn_name (tcp (objs W' ! k)) = nm \<and> stage_of W' k \<in> {Establishing, Opened, Closing}"
    proof (cases "nm = conn_name (tcp (objs W ! h))")
      case True
      then show ?thesis using st assms(3) frame len name_distinct [OF inv(1)] m by auto
    next
      case False
      then have "connections (server W') nm = connections (server W) nm" by (simp add: m)
      then show ?thesis using inv(2) False frame len st unfolding map_inv_def
        by (cases "k = h") auto
    qed
  qed
  moreover have "queue_inv W'"
    unfolding queue_inv_def
  proof (intro allI impI)
    fix l f k assume k: "about f = Some k"
    show "pending W' l f = (if k < length (objs W') \<and>
       due (srv_loop (server W')) (ioLoop (objs W' ! k)) (stage_of W' k) k = Some (l, f) then 1 else 0)"
    proof (cases "k = h")
      case True
      then show ?thesis using k assms(3) st frame pend fr len by simp
    next
      case False
      then have "pending W' l f = pending W l f" using k pend by simp
      then show ?thesis using k inv(3) False st frame fr len unfolding queue_inv_def
        by (cases "k < length (objs W)") auto
    qed
  qed
  moreover have "\<forall>k < length (objs W'). stage_of W' k = Released \<longrightarrow> conn_state (tcp (objs W' ! k)) = kdisConnected"
    using inv(5) st obj(1,4) assms(3) len by (auto simp: nth_list_update)
  moreover have "pending W' l ListenFn = pending W l ListenFn" for l by (simp add: pend)
  ultimately show ?thesis using inv(4,6) by (simp add: server_inv_def fr)
qed

lemma move_same:
  assumes "server_inv W" and "h < length (objs W)"
    and "objs W' = (objs W)[h := (objs W ! h)\<lparr>tcp := c\<rparr>]" and "server W' = server W" and "evloops W' = evloops W"
    and "conn_name c = conn_name (tcp (objs W ! h))"
    and "obj_stage (connections (server W)) h ((objs W ! h)\<lparr>tcp := c\<rparr>) = stage_of W h"
    and "stage_of W h = Released \<Longrightarrow> conn_state c = kdisConnected"
  shows "move h (stage_of W h) W W'"
proof -
  have inv: "name_inv W" "map_inv W" "queue_inv W" using assms(1) by (simp_all add: server_inv_def)
  have "pending W' l f = pending W l f" for l f using assms(5) by (simp add: pending_def)
  then show ?thesis using assms map_inv_stage [OF inv(2,1) assms(2)] inv(3)
    by (auto simp: move_def queue_inv_def intro!: exI [of _ "(objs W ! h)\<lparr>tcp := c\<rparr>"])
qed

lemma server_inv_frame:
  assumes "server_inv W" and "objs W' = objs W" and "\<And>l f. about f \<noteq> None \<Longrightarrow> pending W' l f = pending W l f"
    and "srv_loop (server W') = srv_loop (server W)" "srv_name (server W') = srv_name (server W)"
      "nextConnId (server W') = nextConnId (server W)" "connections (server W') = connections (server W)"
    and "pool_inv (threadPool (server W'))"
    and "\<And>l. pending W' l ListenFn \<noteq> 0 \<Longrightarrow> l = srv_loop (server W)"
  shows "server_inv W'"
proof -
  have st: "stage_of W' = stage_of W" using assms(2,7) by (auto simp: stage_of_def)
  then show ?thesis using assms
    by (auto simp: server_inv_def name_inv_def map_inv_def queue_inv_def)
qed

subsection \<open>What the operations do to a connection\<close>

lemma on_conn_eq:
  "f ((tcp (objs W ! h))\<lparr>poller_of := pollers W (ioLoop (objs W ! h))\<rparr>) = Inr c \<Longrightarrow>
    on_conn f h W = Inr (W\<lparr>objs := (objs W)[h := (objs W ! h)\<lparr>tcp := c\<rparr>],
      pollers := (pollers W)(ioLoop (objs W ! h) := poller_of c)\<rparr>)"
  by (simp add: on_conn_def Let_def)

lemma quiet_calls:
  "connectEstablished quiet c = Inr (on_channel EnableReading (c\<lparr>conn_state := kConnected\<rparr>))"
  "handleClose quiet quiet c = Inr (on_channel DisableAll (c\<lparr>conn_state := kdisConnected\<rparr>))"
  "conn_state c = kdisConnected \<Longrightarrow> connectDestoryed quiet c = Inr (on_channel Remove c)"
  by (simp_all add: connectEstablished_def handleClose_def connectDestoryed_def call_def)

lemma shutdown_names:
  "conn_name (Net_TcpConnection.shutdown t c) = conn_name c"
  "conn_state (Net_TcpConnection.shutdown t c) =
    (if conn_state c = kConnected then kDisConnecting else conn_state c)"
  by (simp_all add: Net_TcpConnection.shutdown_def shutdownInloop_def Let_def)

lemma pending_queue_on [simp]:
  "pending (queue_on me l f W) l' f' = pending W l' f' + (if l' = l \<and> f' = f then 1 else 0)"
  by (simp add: pending_def queue_on_def)

lemma queue_on_fields [simp]:
  "server (queue_on me l f W) = server W" "objs (queue_on me l f W) = objs W"
  by (simp_all add: queue_on_def)

lemma pending_frame [simp]:
  "pending (W\<lparr>objs := os\<rparr>) = pending W" "pending (W\<lparr>pollers := ps\<rparr>) = pending W"
  "pending (W\<lparr>server := s\<rparr>) = pending W" "pending (W\<lparr>closed_fds := cs\<rparr>) = pending W"
  by (simp_all add: pending_def fun_eq_iff)

lemma stage_cases:
  "stage_of W h = Establishing \<longleftrightarrow> \<not> released (objs W ! h) \<and> conn_state (tcp (objs W ! h)) = kConnecting"
  "stage_of W h = Opened \<longleftrightarrow> \<not> released (objs W ! h) \<and> conn_state (tcp (objs W ! h)) \<in> {kConnected, kDisConnecting}"
  "stage_of W h \<in> {Closing, Removed} \<longleftrightarrow> \<not> released (objs W ! h) \<and> conn_state (tcp (objs W ! h)) = kdisConnected"
  by (auto simp: stage_of_def obj_stage_def split: ConnState.splits)

lemma queued_once:
  assumes "server_inv W" and "about f = Some h" and "pending W l f \<noteq> 0"
  shows "h < length (objs W)" and "due (srv_loop (server W)) (ioLoop (objs W ! h)) (stage_of W h) h = Some (l, f)"
    and "pending W l f = 1"
proof -
  have "pending W l f = (if h < length (objs W) \<and>
      due (srv_loop (server W)) (ioLoop (objs W ! h)) (stage_of W h) h = Some (l, f) then 1 else 0)"
    using assms(1,2) unfolding server_inv_def queue_inv_def by blast
  then show "h < length (objs W)" "due (srv_loop (server W)) (ioLoop (objs W ! h)) (stage_of W h) h = Some (l, f)"
    "pending W l f = 1" using assms(3) by (simp_all split: if_splits)
qed

text \<open>Pending functors of connection \<open>h\<close> in terms of its stage.\<close>

lemma pending_due:
  "server_inv W \<Longrightarrow> h < length (objs W) \<Longrightarrow> about f = Some h \<Longrightarrow> pending W l f =
    (if due (srv_loop (server W)) (ioLoop (objs W ! h)) (stage_of W h) h = Some (l, f) then 1 else 0)"
  by (simp add: server_inv_def queue_inv_def)

lemma due_about: "due b l st h = Some (l', f) \<Longrightarrow> about f = Some h"
  by (cases st) auto

lemma pending_popped:
  "pendingFunctors (evloops W l) = f # fs \<Longrightarrow>
    pending W l' f' = pending (popped l fs W) l' f' + (if l' = l \<and> f' = f then 1 else 0)"
  by (simp add: pending_def popped_def)

lemma popped_fields [simp]:
  "objs (popped l fs W) = objs W" "server (popped l fs W) = server W" "pollers (popped l fs W) = pollers W"
  by (simp_all add: popped_def)

lemma run_functor_move:
  assumes inv: "server_inv W" and q: "pendingFunctors (evloops W l) = f # fs" and f: "about f = Some h"
  shows "\<exists>W' b. run_server_functor (Some Inr) f (popped l fs W) = Inr W' \<and> move h b W W' \<and>
    h < length (objs W) \<and> (stage_of W h, b) \<in> {(Establishing, Opened), (Closing, Removed), (Removed, Released)}"
proof -
  let ?obj = "objs W ! h" and ?base = "srv_loop (server W)"
  have "pending W l f \<noteq> 0" using q by (simp add: pending_def)
  note h = queued_once [OF inv f this]
  have map: "connections (server W) (conn_name (tcp ?obj)) =
      (if stage_of W h \<in> {Establishing, Opened, Closing} then Some h else None)"
    using inv h(1) by (intro map_inv_stage) (simp_all add: server_inv_def)
  have rest: "pending (popped l fs W) l' f' = (if about f' = Some h then 0 else pending W l' f')" for l' f'
    using pending_popped [OF q, of l' f'] pending_due [OF inv h(1), of f' l'] h(2) f by auto
  consider (est) "stage_of W h = Establishing" "f = ConnectEstablishedFn h" "l = ioLoop ?obj"
    | (rem) "stage_of W h = Closing" "f = RemoveConnectionFn h" "l = ?base"
    | (des) "stage_of W h = Removed" "f = ConnectDestoryedFn h" "l = ioLoop ?obj"
    using h(2) by (cases "stage_of W h") auto
  then show ?thesis
  proof cases
    case est
    let ?c = "on_channel EnableReading ((tcp ?obj)\<lparr>poller_of := pollers W (ioLoop ?obj), conn_state := kConnected\<rparr>)"
    let ?W' = "(popped l fs W)\<lparr>objs := (objs W)[h := ?obj\<lparr>tcp := ?c\<rparr>],
      pollers := (pollers W)(ioLoop ?obj := poller_of ?c)\<rparr>"
    have "on_conn (connectEstablished quiet) h (popped l fs W) = Inr ?W'"
      by (subst on_conn_eq [where c = ?c]) (simp_all add: quiet_calls)
    moreover have "move h Opened W ?W'"
      using est(1) map rest h(1) unfolding move_def
      by (auto simp: stage_cases obj_stage_def fun_upd_idem
          intro!: exI [of _ "?obj\<lparr>tcp := ?c\<rparr>"])
    ultimately show ?thesis using est h(1) by auto
  next
    case rem
    let ?W' = "removeConnectionInLoop h (popped l fs W)"
    have st: "\<not> released ?obj" "conn_state (tcp ?obj) = kdisConnected" using rem(1) stage_cases(3) [of W h] by simp_all
    have "move h Removed W ?W'"
      using rem(1) map rest h(1) st unfolding move_def
      by (auto simp: removeConnectionInLoop_def Let_def obj_stage_def 
          intro!: exI [of _ ?obj])
    then show ?thesis using rem h(1) by auto
  next
    case des
    let ?c = "on_channel Remove ((tcp ?obj)\<lparr>poller_of := pollers W (ioLoop ?obj)\<rparr>)"
    let ?W1 = "(popped l fs W)\<lparr>objs := (objs W)[h := ?obj\<lparr>tcp := ?c\<rparr>],
      pollers := (pollers W)(ioLoop ?obj := poller_of ?c)\<rparr>"
    have st: "\<not> released ?obj" "conn_state (tcp ?obj) = kdisConnected" using des(1) stage_cases(3) [of W h] by simp_all
    have "on_conn (connectDestoryed quiet) h (popped l fs W) = Inr ?W1"
      by (subst on_conn_eq [where c = ?c]) (simp_all add: quiet_calls st)
    moreover have "move h Released W (release h ?W1)"
      using des(1) map rest h(1) st unfolding move_def
      by (auto simp: release_def obj_stage_def
          intro!: exI [of _ "?obj\<lparr>tcp := ?c, released := True\<rparr>"])
    ultimately show ?thesis using des h(1) by auto
  qed
qed

lemma listen_in_loop_fields [simp]:
  "objs (listen_in_loop W) = objs W" "pending (listen_in_loop W) = pending W"
  "srv_loop (server (listen_in_loop W)) = srv_loop (server W)"
  "srv_name (server (listen_in_loop W)) = srv_name (server W)"
  "nextConnId (server (listen_in_loop W)) = nextConnId (server W)"
  "connections (server (listen_in_loop W)) = connections (server W)"
  "threadPool (server (listen_in_loop W)) = threadPool (server W)"
  by (simp_all add: listen_in_loop_def Let_def pending_def fun_eq_iff split: prod.split)

lemma listen_in_loop_inv [inv_rules]: "server_inv W \<Longrightarrow> server_inv (listen_in_loop W)"
  by (rule server_inv_frame) (auto simp: server_inv_def)

lemma runs_cases:
  assumes "runs W W'" and inv: "server_inv W"
  obtains (conn) h b where "move h b W W'" "h < length (objs W)"
      "(stage_of W h, b) \<in> {(Establishing, Opened), (Closing, Removed), (Removed, Released)}"
    | (listen) l fs where "pendingFunctors (evloops W l) = ListenFn # fs" "W' = listen_in_loop (popped l fs W)"
proof -
  obtain l f fs where q: "pendingFunctors (evloops W l) = f # fs"
    and W': "run_server_functor (Some Inr) f (popped l fs W) = Inr W'"
    using assms(1) unfolding runs_def by blast
  show thesis
  proof (cases "about f")
    case None
    then have "f = ListenFn" by (cases f) auto
    then show ?thesis using q W' listen by simp
  next
    case (Some h)
    then show ?thesis using run_functor_move [OF inv q Some] W' conn by auto
  qed
qed

lemma popped_inv:
  assumes "server_inv W" and "pendingFunctors (evloops W l) = ListenFn # fs"
  shows "server_inv (popped l fs W)"
proof (rule server_inv_frame [OF assms(1)])
  fix l' f
  show "about f \<noteq> None \<Longrightarrow> pending (popped l fs W) l' f = pending W l' f"
    using pending_popped [OF assms(2), of l' f] by (cases f) auto
  show "pending (popped l fs W) l' ListenFn \<noteq> 0 \<Longrightarrow> l' = srv_loop (server W)"
    using pending_popped [OF assms(2), of l' ListenFn] assms(1) unfolding server_inv_def by (metis add_is_0)
qed (use assms(1) in \<open>simp_all add: server_inv_def\<close>)

lemma runs_inv [inv_rules]: "runs W W' \<Longrightarrow> server_inv W \<Longrightarrow> server_inv W'"
  by (erule runs_cases) (auto intro: move_inv listen_in_loop_inv popped_inv)

lemma close_conn_move:
  assumes inv: "server_inv W" and h: "h < length (objs W)" and st: "stage_of W h = Opened"
  shows "\<exists>W' b. close_conn (Some Inr) h W = Inr W' \<and> move h b W W' \<and> b \<in> {Closing, Removed}"
proof -
  let ?obj = "objs W ! h" and ?base = "srv_loop (server W)"
  let ?c = "on_channel DisableAll ((tcp ?obj)\<lparr>poller_of := pollers W (ioLoop ?obj), conn_state := kdisConnected\<rparr>)"
  let ?W1 = "W\<lparr>objs := (objs W)[h := ?obj\<lparr>tcp := ?c\<rparr>], pollers := (pollers W)(ioLoop ?obj := poller_of ?c)\<rparr>"
  have st': "\<not> released ?obj" using st stage_cases(2) [of W h] by simp
  have map: "connections (server W) (conn_name (tcp ?obj)) = Some h"
    using inv h st map_inv_stage [of W h] by (simp add: server_inv_def)
  have pend: "about f = Some h \<Longrightarrow> pending W l f = 0" for l f
    using pending_due [OF inv h, of f l] st by simp
  have cl: "on_conn (handleClose quiet (Some Inr)) h W = Inr ?W1"
    by (subst on_conn_eq [where c = ?c]) (simp_all add: quiet_calls)
  show ?thesis
  proof (cases "ioLoop ?obj = ?base")
    case True
    let ?W' = "removeConnectionInLoop h ?W1"
    have "move h Removed W ?W'"
      using map pend h st' True unfolding move_def
      by (auto simp: removeConnectionInLoop_def Let_def obj_stage_def intro!: exI [of _ "?obj\<lparr>tcp := ?c\<rparr>"])
    moreover have "close_conn (Some Inr) h W = Inr ?W'"
      using cl True by (simp add: close_conn_def removeConnection_def run_in_loop_def)
    ultimately show ?thesis by blast
  next
    case False
    let ?W' = "queue_on (ioLoop ?obj) ?base (RemoveConnectionFn h) ?W1"
    have "move h Closing W ?W'"
      using map pend h st' unfolding move_def
      by (auto simp: obj_stage_def fun_upd_idem intro!: exI [of _ "?obj\<lparr>tcp := ?c\<rparr>"])
    moreover have "close_conn (Some Inr) h W = Inr ?W'"
      using cl False by (simp add: close_conn_def removeConnection_def run_in_loop_def)
    ultimately show ?thesis by blast
  qed
qed

lemma shutdown_move:
  assumes inv: "server_inv W" and h: "h < length (objs W)"
    and W': "on_conn (\<lambda>c. Inr (Net_TcpConnection.shutdown t c)) h W = Inr W'"
  shows "move h (stage_of W h) W W'"
proof -
  let ?obj = "objs W ! h"
  let ?c = "Net_TcpConnection.shutdown t ((tcp ?obj)\<lparr>poller_of := pollers W (ioLoop ?obj)\<rparr>)"
  have W': "W' = W\<lparr>objs := (objs W)[h := ?obj\<lparr>tcp := ?c\<rparr>], pollers := (pollers W)(ioLoop ?obj := poller_of ?c)\<rparr>"
    using W' by (simp add: on_conn_def Let_def)
  have st: "obj_stage (connections (server W)) h (?obj\<lparr>tcp := ?c\<rparr>) = stage_of W h"
    by (simp add: stage_of_def obj_stage_def shutdown_names split: ConnState.split)
  have rel: "stage_of W h = Released \<Longrightarrow> conn_state ?c = kdisConnected"
    using inv h by (simp add: server_inv_def shutdown_names)
  show ?thesis by (rule move_same [OF inv h _ _ _ _ st rel]) (simp_all add: W' shutdown_names)
qed

subsection \<open>A new connection\<close>

lemma conn_name_of_eq:
  assumes "nextConnId s = int n + 1" and "n < 2 ^ 31 - 1"
  shows "conn_name_of s = srv_name s @ ''#'' @ dec (Suc n)"
proof -
  have "Suc n < 10 ^ 10" using assms(2) by simp
  then have "length (dec (Suc n)) \<le> 10" by (rule length_dec) simp
  moreover have "nat (int n + 1) = Suc n" by simp
  ultimately show ?thesis using assms(1) by (simp add: conn_name_of_def fmt_int_def)
qed

definition fresh_conn :: "nat \<Rightarrow> nat \<Rightarrow> TimeStamp \<Rightarrow> string \<Rightarrow> int \<Rightarrow> Epoller \<Rightarrow> ServerConn" where
  "fresh_conn h l t nm f ep =
     \<lparr>tcp = new_TcpConnection h ep new_EventLoop t nm f, ioLoop = l, released = False\<rparr>"

lemma fresh_conn_fields [simp]:
  "ioLoop (fresh_conn h l t nm f ep) = l" "conn_name (tcp (fresh_conn h l t nm f ep)) = nm"
  "conn_state (tcp (fresh_conn h l t nm f ep)) = kConnecting" "\<not> released (fresh_conn h l t nm f ep)"
  by (simp_all add: fresh_conn_def new_TcpConnection_def)

text \<open>The world with the new object in the map, before its \<open>connectEstablished\<close>.\<close>

lemma new_conn_stage:
  assumes inv: "server_inv W" and "objs W1 = objs W @ [obj]" and "conn_name (tcp obj) = nm"
    and "connections (server W1) = (connections (server W))(nm \<mapsto> length (objs W))"
    and "nm = srv_name (server W) @ ''#'' @ dec (Suc (length (objs W)))"
  shows "h < length (objs W) \<Longrightarrow> stage_of W1 h = stage_of W h"
    and "\<not> released obj \<Longrightarrow> conn_state (tcp obj) = kConnecting \<Longrightarrow> stage_of W1 (length (objs W)) = Establishing"
    and "\<not> released obj \<Longrightarrow> conn_state (tcp obj) = kConnected \<Longrightarrow> stage_of W1 (length (objs W)) = Opened"
proof -
  assume h: "h < length (objs W)"
  then have "conn_name (tcp (objs W ! h)) \<noteq> nm"
    using inv assms(5) by (simp add: server_inv_def name_inv_def dec_inj)
  then show "stage_of W1 h = stage_of W h"
    using assms(2,4) h by (simp add: stage_of_def obj_stage_def nth_append split: ConnState.split)
qed (use assms(2) in \<open>simp_all add: stage_of_def obj_stage_def\<close>)

lemma new_conn_inv:
  assumes inv: "server_inv W" and o: "objs W1 = objs W @ [obj]" and nm: "conn_name (tcp obj) = nm"
    and m: "connections (server W1) = (connections (server W))(nm \<mapsto> length (objs W))"
    and nm': "nm = srv_name (server W) @ ''#'' @ dec (Suc (length (objs W)))"
    and fr: "srv_loop (server W1) = srv_loop (server W)" "srv_name (server W1) = srv_name (server W)"
    and id: "nextConnId (server W1) = int (length (objs W)) + 2" "length (objs W) < 2 ^ 31 - 2"
    and pool: "pool_inv (threadPool (server W1))"
    and st: "stage_of W1 (length (objs W)) \<in> {Establishing, Opened}"
    and pend: "\<And>l f. pending W1 l f = (if about f = Some (length (objs W))
         then (if due (srv_loop (server W)) (ioLoop obj) (stage_of W1 (length (objs W))) (length (objs W)) = Some (l, f)
               then 1 else 0)
         else pending W l f)"
  shows "server_inv W1"
proof -
  let ?n = "length (objs W)"
  have i: "name_inv W" "map_inv W" "queue_inv W"
    "\<forall>h < ?n. stage_of W h = Released \<longrightarrow> conn_state (tcp (objs W ! h)) = kdisConnected"
    "\<forall>l. pending W l ListenFn \<noteq> 0 \<longrightarrow> l = srv_loop (server W)"
    using inv by (simp_all add: server_inv_def)
  note old = new_conn_stage(1) [OF inv o nm m nm']
  have fresh: "conn_name (tcp (objs W ! h)) \<noteq> nm" if "h < ?n" for h
    using i(1) that nm' by (simp add: name_inv_def dec_inj)
  have "name_inv W1" using i(1) id fr nm nm' by (auto simp: name_inv_def o nth_append less_Suc_eq)
  moreover have "map_inv W1"
    unfolding map_inv_def
  proof (intro allI)
    fix a k
    show "connections (server W1) a = Some k \<longleftrightarrow> k < length (objs W1) \<and>
      conn_name (tcp (objs W1 ! k)) = a \<and> stage_of W1 k \<in> {Establishing, Opened, Closing}"
    proof (cases "k < ?n")
      case True
      then show ?thesis using i(2) fresh [OF True] old [OF True] m unfolding map_inv_def
        by (auto simp: o nth_append)
    next
      case False
      then have "connections (server W) a \<noteq> Some k" using i(2) unfolding map_inv_def by blast
      then show ?thesis using False st nm m by (auto simp: o nth_append less_Suc_eq)
    qed
  qed
  moreover have "queue_inv W1"
    unfolding queue_inv_def
  proof (intro allI impI)
    fix l f k assume k: "about f = Some k"
    show "pending W1 l f = (if k < length (objs W1) \<and>
       due (srv_loop (server W1)) (ioLoop (objs W1 ! k)) (stage_of W1 k) k = Some (l, f) then 1 else 0)"
    proof (cases "k = ?n")
      case True
      then show ?thesis using k pend [of l f] fr by (simp add: o)
    next
      case False
      then have "pending W1 l f = pending W l f" using k pend by simp
      then show ?thesis using k i(3) False old fr unfolding queue_inv_def
        by (cases "k < ?n") (auto simp: o nth_append)
    qed
  qed
  moreover have "\<forall>h < length (objs W1). stage_of W1 h = Released \<longrightarrow> conn_state (tcp (objs W1 ! h)) = kdisConnected"
    using i(4) st old by (auto simp: o nth_append less_Suc_eq)
  moreover have "pending W1 l ListenFn = pending W l ListenFn" for l by (simp add: pend)
  ultimately show ?thesis using pool i(5) by (simp add: server_inv_def fr)
qed

lemma newConnection_ok:
  assumes inv: "server_inv W" and id: "nextConnId (server W) < 2 ^ 31 - 1"
  shows "\<exists>W'. newConnection (Some Inr) t f peer W = Inr W' \<and> server_inv W' \<and>
    length (objs W') = Suc (length (objs W)) \<and> ioLoop (objs W' ! length (objs W)) = robin (threadPool (server W)) 0 \<and>
    stage_of W' (length (objs W)) =
      (if robin (threadPool (server W)) 0 = srv_loop (server W) then Opened else Establishing) \<and>
    (\<forall>h < length (objs W). stage_of W' h = stage_of W h \<and> ioLoop (objs W' ! h) = ioLoop (objs W ! h))"
proof -
  let ?s = "server W" and ?n = "length (objs W)"
  have n: "nextConnId ?s = int ?n + 1" using inv by (simp add: server_inv_def name_inv_def)
  then have lt: "?n < 2 ^ 31 - 2" using id by simp
  obtain pool where pool: "getNextLoop (threadPool ?s) = Inr (robin (threadPool ?s) 0, pool)" "pool_inv pool"
    using getNextLoop_ok inv unfolding server_inv_def by blast
  define l where "l = robin (threadPool ?s) 0"
  let ?nm = "conn_name_of (?s\<lparr>threadPool := pool\<rparr>)"
  have nm: "?nm = srv_name ?s @ ''#'' @ dec (Suc ?n)"
    using conn_name_of_eq [of "?s\<lparr>threadPool := pool\<rparr>" ?n] n lt by simp
  define obj where "obj = fresh_conn ?n l t ?nm f (pollers W l)"
  define W1 where "W1 = W\<lparr>server := ?s\<lparr>threadPool := pool, nextConnId := int ?n + 2,
      connections := (connections ?s)(?nm \<mapsto> ?n)\<rparr>, objs := objs W @ [obj]\<rparr>"
  have ci: "c_int (nextConnId ?s + 1) = int ?n + 2" using n lt by (subst c_int_id) simp_all
  have run: "newConnection (Some Inr) t f peer W = run_in_loop (Some Inr) (srv_loop ?s) l (ConnectEstablishedFn ?n) W1"
    using pool ci
    by (simp add: newConnection_def Let_def l_def [symmetric] W1_def obj_def fresh_conn_def)
  have zero: "pending W l' f' = 0" if "about f' = Some ?n" for l' f'
    using inv that by (simp add: server_inv_def queue_inv_def)
  have W1: "objs W1 = objs W @ [obj]" "connections (server W1) = (connections ?s)(?nm \<mapsto> ?n)"
    "srv_loop (server W1) = srv_loop ?s" "srv_name (server W1) = srv_name ?s"
    "nextConnId (server W1) = int ?n + 2" "threadPool (server W1) = pool" "pending W1 = pending W"
    by (simp_all add: W1_def)
  have obj: "conn_name (tcp obj) = ?nm" "ioLoop obj = l" "\<not> released obj" "conn_state (tcp obj) = kConnecting"
    by (simp_all add: obj_def)
  show ?thesis
  proof (cases "srv_loop ?s = l")
    case False
    let ?W' = "queue_on (srv_loop ?s) l (ConnectEstablishedFn ?n) W1"
    have st: "stage_of ?W' ?n = Establishing"
      by (rule new_conn_stage(2) [OF inv _ obj(1) _ nm obj(3,4)]) (simp_all add: W1)
    have "server_inv ?W'"
      by (rule new_conn_inv [OF inv _ obj(1) _ nm, of ?W']) (use st pool(2) zero lt in \<open>auto simp: W1 obj(2)\<close>)
    moreover have "\<forall>h < ?n. stage_of ?W' h = stage_of W h"
      using new_conn_stage(1) [OF inv _ obj(1) _ nm, of ?W'] by (simp add: W1)
    ultimately show ?thesis using False run obj(2) st by (simp add: run_in_loop_def W1 l_def nth_append)
  next
    case True
    let ?c = "on_channel EnableReading ((tcp obj)\<lparr>poller_of := pollers W1 l, conn_state := kConnected\<rparr>)"
    let ?W' = "W1\<lparr>objs := objs W @ [obj\<lparr>tcp := ?c\<rparr>], pollers := (pollers W1)(l := poller_of ?c)\<rparr>"
    have "on_conn (connectEstablished quiet) ?n W1 = Inr ?W'"
      by (subst on_conn_eq [where c = ?c]) (simp_all add: quiet_calls W1 obj(2) list_update_append)
    moreover have st: "stage_of ?W' ?n = Opened"
      by (rule new_conn_stage(3) [OF inv, of ?W' "obj\<lparr>tcp := ?c\<rparr>" ?nm]) (simp_all add: W1 obj nm)
    moreover have "server_inv ?W'"
      by (rule new_conn_inv [OF inv, of ?W' "obj\<lparr>tcp := ?c\<rparr>" ?nm])
        (use st pool(2) zero lt nm in \<open>auto simp: W1 obj(1,2)\<close>)
    moreover have "\<forall>h < ?n. stage_of ?W' h = stage_of W h"
      using new_conn_stage(1) [OF inv, of ?W' "obj\<lparr>tcp := ?c\<rparr>" ?nm] by (simp add: W1 obj(1) nm)
    ultimately show ?thesis using True run obj(2) st by (simp add: run_in_loop_def l_def nth_append)
  qed
qed

lemma accept_event_inv:
  assumes "server_inv W" and "nextConnId (server W) < 2 ^ 31 - 1" and "accept_event (Some Inr) t r W = Inr W'"
  shows "server_inv W'"
proof (cases "fst r \<ge> 0")
  case True
  then have "newConnection (Some Inr) t (fst r) (snd r) W = Inr W'"
    using assms(3) by (simp add: accept_event_def NewConnection_def socket_accept_def split: prod.splits)
  then show ?thesis using newConnection_ok [OF assms(1,2), of t "fst r" "snd r"] by auto
next
  case False
  then show ?thesis using assms by (simp add: accept_event_def NewConnection_def socket_accept_def split: prod.splits)
qed

lemma server_start_inv:
  assumes inv: "server_inv W" and "server_start (Some Inr) startLoop me W = Inr W'"
  shows "server_inv W'"
proof -
  define s1 where "s1 = (if \<not> srv_started (server W)
    then (server W)\<lparr>srv_started := True, threadPool := pool_start startLoop (threadPool (server W))\<rparr> else server W)"
  have s1: "srv_loop s1 = srv_loop (server W)" "srv_name s1 = srv_name (server W)"
    "nextConnId s1 = nextConnId (server W)" "connections s1 = connections (server W)" "pool_inv (threadPool s1)"
    using inv by (simp_all add: s1_def server_inv_def inv_rules)
  have W1: "server_inv (W\<lparr>server := s1\<rparr>)"
    by (rule server_inv_frame [OF inv]) (use s1 inv in \<open>auto simp: server_inv_def\<close>)
  have q: "server_inv (queue_on me (srv_loop s1) ListenFn (W\<lparr>server := s1\<rparr>))"
    by (rule server_inv_frame [OF W1]) (use W1 in \<open>auto simp: server_inv_def split: if_splits\<close>)
  show ?thesis using assms(2) W1 q
    by (auto simp: server_start_def Let_def s1_def [symmetric] run_in_loop_def inv_rules split: if_splits)
qed

lemma server_step_inv [inv_rules]: "server_step startLoop W W' \<Longrightarrow> server_inv W \<Longrightarrow> server_inv W'"
proof (erule server_step.cases)
  fix h V V'
  assume h: "W = V" "W' = V'" "h < length (objs V)" "conn_state (tcp (objs V ! h)) \<in> {kConnected, kDisConnecting}"
    and c: "close_conn (Some Inr) h V = Inr V'" and inv: "server_inv W"
  have "stage_of V h \<noteq> Released" using h inv unfolding server_inv_def by auto
  then have "stage_of V h = Opened" using h(4) stage_cases(2) [of V h]
    by (auto simp: stage_of_def obj_stage_def split: if_splits)
  then show "server_inv W'" using close_conn_move [of V h] c h inv move_inv by auto
qed (auto intro: server_start_inv accept_event_inv runs_inv move_inv shutdown_move)

lemma reachable_server_inv: "server_reachable startLoop W \<Longrightarrow> server_inv W"
proof (induction rule: server_reachable.induct)
  case (init n l acc nm s)
  then show ?case
    by (auto simp: setThreadNum_def new_TcpServer_def init_World_def server_inv_def pool_inv_def
        setThreaadNum_def new_EventLoopThreadPool_def name_inv_def map_inv_def queue_inv_def pending_def
        new_EventLoop_def split: if_splits)
qed (rule server_step_inv)

subsection \<open>Properties\<close>

text \<open>
  C5: At every moment, whatever the threads do, the map of the server holds exactly the connections that are
  not yet removed, each under its own unique name, and each connection that waits for a call has exactly
  one functor for it queued: \<open>connectEstablished\<close> and \<open>connectDestoryed\<close> on its own loop,
  \<open>removeConnectionInLoop\<close> on the server's loop.
\<close>

theorem server_tracks_connections:
  assumes "server_reachable startLoop W"
  shows "(connections (server W) nm = Some h \<longleftrightarrow> h < length (objs W) \<and> conn_name (tcp (objs W ! h)) = nm \<and>
      stage_of W h \<in> {Establishing, Opened, Closing}) \<and>
    distinct (map (\<lambda>obj. conn_name (tcp obj)) (objs W)) \<and>
    (about f = Some h \<longrightarrow> pending W l f = (if h < length (objs W) \<and>
      due (srv_loop (server W)) (ioLoop (objs W ! h)) (stage_of W h) h = Some (l, f) then 1 else 0))"
proof -
  have inv: "map_inv W" "name_inv W" "queue_inv W"
    using reachable_server_inv [OF assms] by (simp_all add: server_inv_def)
  have "distinct (map (\<lambda>obj. conn_name (tcp obj)) (objs W))"
    using name_distinct [OF inv(2)] by (simp add: distinct_conv_nth)
  then show ?thesis using inv(1,3) unfolding map_inv_def queue_inv_def by blast
qed

lemma move_progress:
  "move h b W W' \<Longrightarrow> server_inv W \<Longrightarrow> h < length (objs W) \<Longrightarrow> k < length (objs W) \<Longrightarrow>
    length (objs W') = length (objs W) \<and> ioLoop (objs W' ! k) = ioLoop (objs W ! k) \<and>
    stage_of W' k = (if k = h then b else stage_of W k)"
proof -
  assume m: "move h b W W'" and h: "server_inv W" "h < length (objs W)" "k < length (objs W)"
  obtain obj where "objs W' = (objs W)[h := obj]" "ioLoop obj = ioLoop (objs W ! h)"
    using m unfolding move_def by blast
  then show ?thesis using move_stage [OF m h] h by (cases "k = h") simp_all
qed

text \<open>The order of the stages of a connection.\<close>

definition next_stages :: "(stage \<times> stage) set" where
  "next_stages = {(Establishing, Opened), (Opened, Closing), (Opened, Removed), (Closing, Removed), (Removed, Released)}"

lemma listen_stage: "stage_of (listen_in_loop W) h = stage_of W h"
  by (simp add: stage_of_def)

lemma runs_progress:
  assumes "runs W W'" and "server_inv W" and "h < length (objs W)"
  shows "h < length (objs W') \<and> ioLoop (objs W' ! h) = ioLoop (objs W ! h) \<and>
    (stage_of W' h = stage_of W h \<or>
     (stage_of W h, stage_of W' h) \<in> {(Establishing, Opened), (Closing, Removed), (Removed, Released)})"
  using assms(1,2)
proof (cases rule: runs_cases)
  case (conn k b)
  then show ?thesis using move_progress [OF conn(1) assms(2) conn(2) assms(3)] assms(3) by auto
next
  case (listen l fs)
  then show ?thesis using assms(3) by (simp add: listen_stage) (simp add: stage_of_def)
qed

text \<open>
  C18: A connection never leaves its loop and goes through its life in order: established once, closed,
  taken out of the map, destroyed once; no step of any thread skips a stage or goes back.
\<close>

theorem connection_lifecycle:
  assumes "server_reachable startLoop W" and "server_step startLoop W W'" and "h < length (objs W)"
  shows "h < length (objs W') \<and> ioLoop (objs W' ! h) = ioLoop (objs W ! h) \<and>
    (stage_of W' h = stage_of W h \<or> (stage_of W h, stage_of W' h) \<in> next_stages)"
proof -
  have inv: "server_inv W" using assms(1) by (rule reachable_server_inv)
  from assms(2) show ?thesis
  proof cases
    case (start me)
    then have "objs W' = objs W" "connections (server W') = connections (server W)"
      by (auto simp: server_start_def Let_def run_in_loop_def split: if_splits)
    then show ?thesis using assms(3) by (simp add: stage_of_def)
  next
    case (accept t r)
    then show ?thesis
      using newConnection_ok [OF inv accept(2), of t "fst r" "snd r"] assms(3)
      by (auto simp: accept_event_def NewConnection_def socket_accept_def split: prod.splits if_splits)
  next
    case run
    then show ?thesis using runs_progress [OF _ inv assms(3)] by (auto simp: next_stages_def)
  next
    case (close k)
    have "stage_of W k = Opened"
      using close(1,2) inv by (auto simp: stage_cases(2) server_inv_def stage_of_def obj_stage_def split: if_splits)
    then obtain b where "move k b W W'" "b \<in> {Closing, Removed}"
      using close_conn_move [OF inv close(1)] close(3) by auto
    then show ?thesis using move_progress [OF _ inv close(1) assms(3)] \<open>stage_of W k = Opened\<close> assms(3)
      by (auto simp: next_stages_def)
  next
    case (shutdown k t)
    then show ?thesis
      using move_progress [OF shutdown_move [OF inv shutdown(1,2)] inv shutdown(1) assms(3)] assms(3) by auto
  qed
qed

subsection \<open>Every closed connection is released\<close>

fun weight :: "stage \<Rightarrow> nat" where
  "weight Establishing = 1"
| "weight Opened = 0"
| "weight Closing = 2"
| "weight Removed = 1"
| "weight Released = 0"

text \<open>The functors that are queued or will still be queued by those.\<close>

definition work :: "World \<Rightarrow> nat" where
  "work W = (\<Sum>h<length (objs W). weight (stage_of W h)) + pending W (srv_loop (server W)) ListenFn"

definition settled :: "stage \<Rightarrow> stage" where
  "settled st = (if st \<in> {Establishing, Opened} then Opened else Released)"

lemma runs_work:
  assumes "runs W W'" and "server_inv W"
  shows "work W' < work W \<and> length (objs W') = length (objs W) \<and>
    (\<forall>h < length (objs W). settled (stage_of W' h) = settled (stage_of W h))"
  using assms
proof (cases rule: runs_cases)
  case (conn h b)
  have len: "length (objs W') = length (objs W)" and
    st: "\<And>k. k < length (objs W) \<Longrightarrow> stage_of W' k = (if k = h then b else stage_of W k)"
    using move_progress [OF conn(1) assms(2) conn(2)] conn(2) by blast+
  have "(\<Sum>k<length (objs W). weight (stage_of W' k)) < (\<Sum>k<length (objs W). weight (stage_of W k))"
    by (rule sum_strict_mono_ex1) (use conn(2,3) st in auto)
  moreover have "pending W' (srv_loop (server W')) ListenFn = pending W (srv_loop (server W)) ListenFn"
    using conn(1) by (simp add: move_def)
  ultimately show ?thesis using len st conn(3) by (auto simp: work_def settled_def)
next
  case (listen l fs)
  have "l = srv_loop (server W)"
    using assms(2) listen(1) unfolding server_inv_def by (auto simp: pending_def)
  moreover have "stage_of W' = stage_of W" using listen(2) by (auto simp: listen_stage stage_of_def)
  ultimately show ?thesis
    using listen(2) pending_popped [OF listen(1), of "srv_loop (server W)" ListenFn] by (simp add: work_def)
qed

lemma functor_runs:
  assumes "server_inv W" and "pendingFunctors (evloops W l) \<noteq> []"
  shows "\<exists>W'. runs W W'"
proof -
  obtain f fs where q: "pendingFunctors (evloops W l) = f # fs" using assms(2) by (cases "pendingFunctors (evloops W l)") auto
  show ?thesis
  proof (cases "about f")
    case None
    then have "f = ListenFn" by (cases f) auto
    then show ?thesis using q unfolding runs_def by (auto intro!: exI [of _ l])
  next
    case (Some h)
    then show ?thesis using run_functor_move [OF assms(1) q Some] q unfolding runs_def by blast
  qed
qed

lemma all_settle:
  "server_inv W \<Longrightarrow> \<exists>W'. runs\<^sup>*\<^sup>* W W' \<and> server_inv W' \<and> (\<forall>l. pendingFunctors (evloops W' l) = []) \<and>
    length (objs W') = length (objs W) \<and> (\<forall>h < length (objs W). settled (stage_of W' h) = settled (stage_of W h))"
proof (induction "work W" arbitrary: W rule: less_induct)
  case less
  show ?case
  proof (cases "\<forall>l. pendingFunctors (evloops W l) = []")
    case True
    then show ?thesis using less.prems by blast
  next
    case False
    then obtain W1 where W1: "runs W W1" using functor_runs [OF less.prems] by blast
    note d = runs_work [OF W1 less.prems]
    obtain W' where "runs\<^sup>*\<^sup>* W1 W'" "server_inv W'" "\<forall>l. pendingFunctors (evloops W' l) = []"
      "length (objs W') = length (objs W1)" "\<forall>h < length (objs W1). settled (stage_of W' h) = settled (stage_of W1 h)"
      using less.hyps [of W1] d runs_inv [OF W1 less.prems] by blast
    then show ?thesis using d W1 by (intro exI [of _ W']) (auto intro: converse_rtranclp_into_rtranclp)
  qed
qed

lemma idle_settled:
  assumes "server_inv W" and "\<forall>l. pendingFunctors (evloops W l) = []" and "h < length (objs W)"
  shows "stage_of W h = settled (stage_of W h)"
proof -
  have z: "pending W l f = 0" for l f using assms(2) by (simp add: pending_def)
  have "due (srv_loop (server W)) (ioLoop (objs W ! h)) (stage_of W h) h \<noteq> Some (l, f)" for l f
    using pending_due [OF assms(1,3), of f l] z [of l f] due_about [of "srv_loop (server W)" "ioLoop (objs W ! h)" "stage_of W h" h l f]
    by auto
  then show ?thesis by (cases "stage_of W h") (auto simp: settled_def)
qed

text \<open>
  From every reachable state the loops, by running nothing but what is queued, come to rest after finitely
  many functors; then every connection that had been closed is destroyed and out of the map, and every
  other one is established: no connection is forgotten in a queue and none stays behind.
\<close>

theorem closed_connections_are_released:
  assumes "server_reachable startLoop W"
  shows "\<exists>W'. runs\<^sup>*\<^sup>* W W' \<and> (\<forall>l. pendingFunctors (evloops W' l) = []) \<and>
    (\<forall>h < length (objs W). stage_of W' h =
       (if stage_of W h \<in> {Establishing, Opened} then Opened else Released)) \<and>
    dom (connections (server W')) =
      (\<lambda>h. conn_name (tcp (objs W' ! h))) ` {h. h < length (objs W) \<and> stage_of W h \<in> {Establishing, Opened}}"
proof -
  obtain W' where W': "runs\<^sup>*\<^sup>* W W'" "server_inv W'" "\<forall>l. pendingFunctors (evloops W' l) = []"
    "length (objs W') = length (objs W)" "\<forall>h < length (objs W). settled (stage_of W' h) = settled (stage_of W h)"
    using all_settle [OF reachable_server_inv [OF assms]] by blast
  have st: "stage_of W' h = settled (stage_of W h)" if "h < length (objs W)" for h
    using idle_settled [OF W'(2,3)] W'(4,5) that by simp
  have "connections (server W') nm = Some h \<longleftrightarrow> h < length (objs W) \<and> conn_name (tcp (objs W' ! h)) = nm \<and>
      stage_of W h \<in> {Establishing, Opened}" for nm h
    using W'(2,4) st [of h] unfolding server_inv_def map_inv_def
    by (auto simp: settled_def split: if_splits)
  then have "dom (connections (server W')) =
      (\<lambda>h. conn_name (tcp (objs W' ! h))) ` {h. h < length (objs W) \<and> stage_of W h \<in> {Establishing, Opened}}"
    by (auto simp: dom_def)
  then show ?thesis using W'(1,3) st by (auto simp: settled_def)
qed

subsection \<open>Witnesses\<close>

text \<open>A server with one sub-loop, started, after its first connection.\<close>

definition demo_server :: TcpServer where
  "demo_server = (new_TcpServer 0 (new_Accepter 3 3) ''web'')
     \<lparr>threadPool := setThreaadNum 1 (new_EventLoopThreadPool 0)\<rparr>"

definition demo_threads :: "nat \<Rightarrow> nat" where
  "demo_threads i = 7 + i"

lemma demo_connected:
  "\<exists>W. server_reachable demo_threads W \<and> length (objs W) = 1 \<and> stage_of W 0 = Establishing \<and> ioLoop (objs W ! 0) = 7"
proof -
  have "setThreadNum 1 (new_TcpServer 0 (new_Accepter 3 3) ''web'') = Inr demo_server"
    by (simp add: setThreadNum_def demo_server_def new_TcpServer_def)
  then have r0: "server_reachable demo_threads (init_World demo_server)" by (rule server_reachable.init)
  let ?s1 = "demo_server\<lparr>srv_started := True, threadPool := pool_start demo_threads (threadPool demo_server)\<rparr>"
  let ?W1 = "listen_in_loop (init_World ?s1)"
  have s: "srv_loop demo_server = 0" "\<not> srv_started demo_server" "nextConnId demo_server = 1"
    "\<not> listening (accepter demo_server)" "loops (threadPool ?s1) = [7]" "next_loop (threadPool ?s1) = 0"
    by (simp_all add: demo_server_def new_TcpServer_def new_Accepter_def setThreaadNum_def
        new_EventLoopThreadPool_def demo_threads_def)
  have "server_start (Some Inr) demo_threads 0 (init_World demo_server) = Inr ?W1"
    using s by (simp add: server_start_def init_World_def Let_def run_in_loop_def)
  then have r1: "server_reachable demo_threads ?W1"
    using r0 by (blast intro: server_reachable.step server_step.start)
  have f: "nextConnId (server ?W1) = 1" "objs ?W1 = []" "robin (threadPool (server ?W1)) 0 = 7"
    "srv_loop (server ?W1) = 0"
    using s by (simp_all add: init_World_def robin_def)
  have l: "listening (accepter (server ?W1))"
    by (simp add: listen_in_loop_def accepter_listen_def Let_def split: prod.split)
  obtain W2 where W2: "newConnection (Some Inr) (TimeStamp 0) 5 \<lparr>sin_port = 0, s_addr = 0\<rparr> ?W1 = Inr W2"
    "length (objs W2) = 1" "ioLoop (objs W2 ! 0) = 7" "stage_of W2 0 = Establishing"
    using newConnection_ok [OF reachable_server_inv [OF r1], of "TimeStamp 0" 5 "\<lparr>sin_port = 0, s_addr = 0\<rparr>"] f by auto
  have "accept_event (Some Inr) (TimeStamp 0) (5, \<lparr>sin_port = 0, s_addr = 0\<rparr>) ?W1 = Inr W2"
    using W2(1) by (simp add: accept_event_def NewConnection_def socket_accept_def)
  then have "server_step demo_threads ?W1 W2" using l f(1) by (intro server_step.accept) simp_all
  then show ?thesis using r1 W2 by (blast intro: server_reachable.step)
qed

lemma server_tracks_connections_witness:
  "\<exists>W nm. connections (server W) nm = Some 0 \<and> conn_name (tcp (objs W ! 0)) = nm \<and>
    pending W 7 (ConnectEstablishedFn 0) = 1"
proof -
  obtain W where W: "server_reachable demo_threads W" "length (objs W) = 1" "stage_of W 0 = Establishing"
    "ioLoop (objs W ! 0) = 7" using demo_connected by blast
  show ?thesis
    using server_tracks_connections [OF W(1), of "conn_name (tcp (objs W ! 0))" 0 "ConnectEstablishedFn 0" 7] W
    by auto
qed

lemma closed_connections_are_released_witness:
  "\<exists>W W'. runs\<^sup>*\<^sup>* W W' \<and> stage_of W 0 = Establishing \<and> stage_of W' 0 = Opened"
proof -
  obtain W where W: "server_reachable demo_threads W" "length (objs W) = 1" "stage_of W 0 = Establishing"
    using demo_connected by blast
  show ?thesis using closed_connections_are_released [OF W(1)] W(2,3) by fastforce
qed

lemma connection_lifecycle_witness:
  "\<exists>W W'. server_step demo_threads W W' \<and> length (objs W) = 1 \<and> ioLoop (objs W' ! 0) = 7"
proof -
  obtain W where W: "server_reachable demo_threads W" "length (objs W) = 1" "ioLoop (objs W ! 0) = 7"
    using demo_connected by blast
  have "0 < length (objs W)" using W(2) by simp
  moreover obtain W' where "on_conn (\<lambda>c. Inr (Net_TcpConnection.shutdown True c)) 0 W = Inr W'"
    by (simp add: on_conn_def Let_def)
  ultimately have s: "server_step demo_threads W W'" by (rule server_step.shutdown)
  show ?thesis using connection_lifecycle [OF W(1) s \<open>0 < length (objs W)\<close>] s W(2,3) by auto
qed

end
