(* ===== verification/Base_Sync.thy ===== *)
theory Base_Sync
  imports Prelude
begin

text \<open>
  \<^verbatim>\<open>Base/Mutex.h\<close>, \<^verbatim>\<open>Base/Condition.h\<close>, \<^verbatim>\<open>Base/CountDownLatch.h\<close>, \<^verbatim>\<open>Base/CountDownLatch.cc\<close>,
  \<^verbatim>\<open>Base/Thread.h\<close>, \<^verbatim>\<open>Base/Thread.cc\<close>, \<^verbatim>\<open>Base/CurrentThread.h\<close>: the latch and the threads.

  A critical section is one step. A thread in \<open>Condition::wait\<close> has given the mutex back and is
  \<open>Blocked\<close>; a notification makes it \<open>Woken\<close>, and it goes on when it gets the mutex. As POSIX allows,
  a blocked thread may also wake up by itself.
\<close>

subsection \<open>The latch\<close>

record CountDownLatch =
  latch_count :: int

definition new_CountDownLatch :: "int \<Rightarrow> CountDownLatch" where
  "new_CountDownLatch n = \<lparr>latch_count = n\<rparr>"

definition getCount :: "CountDownLatch \<Rightarrow> int" where
  "getCount l = latch_count l"

datatype wait_state = Outside | Blocked | Woken | Passed

text \<open>What the loop test of \<open>wait\<close> decides for the thread that holds the mutex.\<close>

definition latch_test :: "CountDownLatch \<Rightarrow> wait_state" where
  "latch_test l = (if latch_count l > 0 then Blocked else Passed)"

definition wake_all :: "('t \<Rightarrow> wait_state) \<Rightarrow> 't \<Rightarrow> wait_state" where
  "wake_all ws = (\<lambda>t. if ws t = Blocked then Woken else ws t)"

text \<open>\<open>countDown\<close>: the counter is an \<open>int\<close>; \<open>notifyAll\<close> exactly when it becomes zero.\<close>

definition countDown :: "CountDownLatch \<times> ('t \<Rightarrow> wait_state) \<Rightarrow> CountDownLatch \<times> ('t \<Rightarrow> wait_state)" where
  "countDown s =
     (let l1 = (fst s)\<lparr>latch_count := c_int (latch_count (fst s) - 1)\<rparr>
      in (l1, if latch_count l1 = 0 then wake_all (snd s) else snd s))"

text \<open>At most \<open>2\<^sup>3\<^sup>1\<close> steps below zero: the counter does not wrap around.\<close>

inductive latch_step :: "CountDownLatch \<times> ('t \<Rightarrow> wait_state) \<Rightarrow> CountDownLatch \<times> ('t \<Rightarrow> wait_state) \<Rightarrow> bool" where
  wait: "ws t = Outside \<Longrightarrow> latch_step (l, ws) (l, ws(t := latch_test l))"
| go_on: "ws t = Woken \<Longrightarrow> latch_step (l, ws) (l, ws(t := latch_test l))"
| spurious: "ws t = Blocked \<Longrightarrow> latch_step (l, ws) (l, ws(t := Woken))"
| count_down: "latch_count l > - (2 ^ 31) \<Longrightarrow> latch_step (l, ws) (countDown (l, ws))"

inductive latch_reachable :: "int \<Rightarrow> CountDownLatch \<times> ('t \<Rightarrow> wait_state) \<Rightarrow> bool" for n where
  init: "latch_reachable n (new_CountDownLatch n, \<lambda>_. Outside)"
| step: "latch_reachable n s \<Longrightarrow> latch_step s s' \<Longrightarrow> latch_reachable n s'"

definition latch_inv :: "int \<Rightarrow> CountDownLatch \<times> ('t \<Rightarrow> wait_state) \<Rightarrow> bool" where
  "latch_inv n s \<longleftrightarrow> latch_count (fst s) \<le> n \<and> - (2 ^ 31) \<le> latch_count (fst s) \<and>
     (\<forall>t. (snd s t = Blocked \<longrightarrow> latch_count (fst s) > 0) \<and> (snd s t = Passed \<longrightarrow> latch_count (fst s) \<le> 0))"

lemma countDown_inv:
  assumes "latch_inv n s" and "n < 2 ^ 31" and "latch_count (fst s) > - (2 ^ 31)"
  shows "latch_inv n (countDown s) \<and> latch_count (fst (countDown s)) = latch_count (fst s) - 1"
proof -
  have "c_int (latch_count (fst s) - 1) = latch_count (fst s) - 1"
    using assms by (intro c_int_id) (auto simp: latch_inv_def)
  then show ?thesis using assms by (auto simp: latch_inv_def countDown_def Let_def wake_all_def)
qed

lemma latch_step_inv [inv_rules]:
  "latch_step s s' \<Longrightarrow> latch_inv n s \<Longrightarrow> n < 2 ^ 31 \<Longrightarrow> latch_inv n s'"
proof (induction rule: latch_step.induct)
  case (count_down l ws)
  then show ?case using countDown_inv [of n "(l, ws)"] by simp
qed (auto simp: latch_inv_def latch_test_def)

lemma reachable_latch_inv:
  "latch_reachable n s \<Longrightarrow> - (2 ^ 31) \<le> n \<Longrightarrow> n < 2 ^ 31 \<Longrightarrow> latch_inv n s"
proof (induction rule: latch_reachable.induct)
  case init
  then show ?case by (simp add: latch_inv_def new_CountDownLatch_def)
qed (rule latch_step_inv)

text \<open>
  A latch never lets a thread through before its count is used up and never leaves one behind: in every
  reachable state a thread that has passed \<open>wait\<close> sees a count of at most zero, and once the count is
  zero or less no thread is blocked, and any thread in \<open>wait\<close> passes with its next step.
\<close>

theorem latch_opens_exactly_at_zero:
  assumes "latch_reachable n s" and "- (2 ^ 31) \<le> n" and "n < 2 ^ 31"
  shows "(snd s t = Passed \<longrightarrow> getCount (fst s) \<le> 0) \<and>
    (getCount (fst s) \<le> 0 \<longrightarrow> snd s t \<noteq> Blocked \<and>
       (snd s t = Woken \<or> snd s t = Outside \<longrightarrow> latch_step s (fst s, (snd s)(t := Passed))))"
proof -
  have inv: "latch_inv n s" using assms by (rule reachable_latch_inv)
  have "latch_step s (fst s, (snd s)(t := Passed))"
    if "getCount (fst s) \<le> 0" and "snd s t = Woken \<or> snd s t = Outside"
  proof -
    have "latch_test (fst s) = Passed" using that(1) by (simp add: latch_test_def getCount_def)
    then show ?thesis
      using that(2) latch_step.wait [of "snd s" t "fst s"] latch_step.go_on [of "snd s" t "fst s"] by auto
  qed
  then show ?thesis using inv by (auto simp: latch_inv_def getCount_def)
qed

lemma latch_opens_exactly_at_zero_witness:
  "latch_step (countDown (new_CountDownLatch 1, (\<lambda>_. Outside)(0 :: nat := Blocked)))
     (\<lparr>latch_count = 0\<rparr>, (\<lambda>_. Outside)(0 := Passed))"
proof -
  let ?s1 = "(new_CountDownLatch 1, (\<lambda>_. Outside)(0 := Blocked)) :: CountDownLatch \<times> (nat \<Rightarrow> wait_state)"
  have "latch_reachable 1 ?s1"
    using latch_reachable.step [OF latch_reachable.init latch_step.wait [of "\<lambda>_. Outside" "0 :: nat"], of 1]
    by (simp add: latch_test_def new_CountDownLatch_def)
  then have "latch_reachable 1 (countDown ?s1)"
    by (rule latch_reachable.step) (rule latch_step.count_down, simp add: new_CountDownLatch_def)
  from latch_opens_exactly_at_zero [OF this, of 0]
  show ?thesis
    by (auto simp: countDown_def new_CountDownLatch_def getCount_def wake_all_def c_int_def Let_def fun_upd_def if_distrib cong: if_cong)
qed

subsection \<open>Threads\<close>

text \<open>\<open>tid()\<close> of the calling thread: \<open>cached\<close> is its \<open>cachedTid_\<close>, \<open>gettid\<close> what the system call returns.\<close>

definition cacheTid :: "int \<Rightarrow> int \<Rightarrow> int" where
  "cacheTid gettid cached = (if cached = 0 then c_int gettid else cached)"

definition current_tid :: "int \<Rightarrow> int \<Rightarrow> int \<times> int" where
  "current_tid gettid cached =
     (let cached1 = (if cached = 0 then cacheTid gettid cached else cached) in (cached1, cached1))"

record Thread =
  thr_running :: bool
  thr_joined :: bool
  thr_tid :: int
  thr_name :: string
  thr_latch :: CountDownLatch

definition setDefaultName :: "Thread \<Rightarrow> Thread" where
  "setDefaultName t = (if thr_name t = [] then t\<lparr>thr_name := ''Thread''\<rparr> else t)"

definition new_Thread :: "string \<Rightarrow> Thread" where
  "new_Thread name =
     setDefaultName \<lparr>thr_running = False, thr_joined = False, thr_tid = 0, thr_name = name,
       thr_latch = new_CountDownLatch 1\<rparr>"

text \<open>
  \<open>start\<close> up to its \<open>wait\<close>, the body of the new thread up to the call of \<open>func_\<close>, and \<open>join\<close> up to
  the wait for the thread's end.
\<close>

definition thread_start :: "Thread \<Rightarrow> Thread" where
  "thread_start t = t\<lparr>thr_running := True\<rparr>"

definition thread_set_tid :: "int \<Rightarrow> Thread \<Rightarrow> Thread" where
  "thread_set_tid gettid t = t\<lparr>thr_tid := snd (current_tid gettid 0)\<rparr>"

definition thread_join :: "Thread \<Rightarrow> fault + Thread" where
  "thread_join t =
     (if \<not> thr_running t then Inl AssertFailed
      else if thr_joined t then Inl AssertFailed
      else Inr (t\<lparr>thr_joined := True\<rparr>))"

text \<open>Whether the destructor detaches the thread.\<close>

definition thread_detaches :: "Thread \<Rightarrow> bool" where
  "thread_detaches t \<longleftrightarrow> thr_running t \<and> \<not> thr_joined t"

datatype child = NoChild | Spawned | HasTid | InFunc | Ended

record ThreadSystem =
  thr :: Thread
  owner :: wait_state
  child :: child

definition init_ThreadSystem :: "string \<Rightarrow> ThreadSystem" where
  "init_ThreadSystem nm = \<lparr>thr = new_Thread nm, owner = Outside, child = NoChild\<rparr>"

definition count_and_notify :: "ThreadSystem \<Rightarrow> ThreadSystem" where
  "count_and_notify S =
     (let (l, ws) = countDown (thr_latch (thr S), (\<lambda>_ :: unit. owner S))
      in S\<lparr>thr := (thr S)\<lparr>thr_latch := l\<rparr>, owner := ws ()\<rparr>)"

text \<open>
  \<open>start\<close> is called once. \<open>thread_prog\<close> has the steps of the program, \<open>thread_step\<close> also the wakeups without a
  notification.
\<close>

inductive thread_prog :: "ThreadSystem \<Rightarrow> ThreadSystem \<Rightarrow> bool" where
  start: "\<not> thr_running (thr S) \<Longrightarrow> thread_prog S (S\<lparr>thr := thread_start (thr S), child := Spawned\<rparr>)"
| set_tid: "child S = Spawned \<Longrightarrow> 0 < gettid \<Longrightarrow> gettid < 2 ^ 31 \<Longrightarrow>
    thread_prog S (S\<lparr>thr := thread_set_tid gettid (thr S), child := HasTid\<rparr>)"
| count: "child S = HasTid \<Longrightarrow> thread_prog S ((count_and_notify S)\<lparr>child := InFunc\<rparr>)"
| return: "child S = InFunc \<Longrightarrow> thread_prog S (S\<lparr>child := Ended\<rparr>)"
| wait: "thr_running (thr S) \<Longrightarrow> owner S = Outside \<or> owner S = Woken \<Longrightarrow>
    thread_prog S (S\<lparr>owner := latch_test (thr_latch (thr S))\<rparr>)"
| join: "owner S = Passed \<Longrightarrow> thread_join (thr S) = Inr t \<Longrightarrow> thread_prog S (S\<lparr>thr := t\<rparr>)"

inductive thread_step :: "ThreadSystem \<Rightarrow> ThreadSystem \<Rightarrow> bool" where
  prog: "thread_prog S T \<Longrightarrow> thread_step S T"
| spurious: "owner S = Blocked \<Longrightarrow> thread_step S (S\<lparr>owner := Woken\<rparr>)"

inductive thread_reachable :: "ThreadSystem \<Rightarrow> bool" where
  init: "thread_reachable (init_ThreadSystem nm)"
| step: "thread_reachable S \<Longrightarrow> thread_step S T \<Longrightarrow> thread_reachable T"

definition thread_inv :: "ThreadSystem \<Rightarrow> bool" where
  "thread_inv S \<longleftrightarrow>
     (thr_running (thr S) \<longleftrightarrow> child S \<noteq> NoChild) \<and>
     (child S \<in> {NoChild, Spawned, HasTid} \<longleftrightarrow> latch_count (thr_latch (thr S)) = 1) \<and>
     (child S \<in> {InFunc, Ended} \<longleftrightarrow> latch_count (thr_latch (thr S)) = 0) \<and>
     (child S \<in> {HasTid, InFunc, Ended} \<longrightarrow> thr_tid (thr S) > 0) \<and>
     (child S = NoChild \<longrightarrow> owner S = Outside) \<and>
     (owner S = Blocked \<longrightarrow> child S \<in> {Spawned, HasTid}) \<and>
     (owner S = Passed \<longrightarrow> child S \<in> {InFunc, Ended})"

lemma thread_prog_inv [inv_rules]: "thread_prog S T \<Longrightarrow> thread_inv S \<Longrightarrow> thread_inv T"
proof (induction rule: thread_prog.induct)
  case (set_tid S gettid)
  then have "c_int gettid = gettid" by (intro c_int_id) simp_all
  then show ?case using set_tid
    by (auto simp: thread_inv_def thread_set_tid_def current_tid_def cacheTid_def Let_def)
next
  case (count S)
  have "c_int 0 = 0" by (simp add: c_int_def)
  then show ?case using count
    by (auto simp: thread_inv_def count_and_notify_def countDown_def wake_all_def Let_def)
next
  case (wait S)
  then show ?case by (cases "child S") (auto simp: thread_inv_def latch_test_def)
next
  case (join S t)
  then show ?case by (auto simp: thread_inv_def thread_join_def split: if_splits)
qed (auto simp: thread_inv_def thread_start_def)

lemma thread_step_inv [inv_rules]: "thread_step S T \<Longrightarrow> thread_inv S \<Longrightarrow> thread_inv T"
proof (induction rule: thread_step.induct)
  case (spurious S)
  then show ?case by (auto simp add: thread_inv_def)
qed (rule thread_prog_inv)

lemma reachable_thread_inv: "thread_reachable S \<Longrightarrow> thread_inv S"
proof (induction rule: thread_reachable.induct)
  case (init nm)
  show ?case by (simp add: thread_inv_def init_ThreadSystem_def new_Thread_def setDefaultName_def new_CountDownLatch_def)
qed (rule thread_step_inv)

lemma start_can_return:
  assumes "thread_inv S" and "thr_running (thr S)"
  shows "\<exists>T. thread_prog\<^sup>*\<^sup>* S T \<and> owner T = Passed"
proof -
  have tid: "\<exists>T. thread_prog\<^sup>*\<^sup>* S T \<and> thread_inv T \<and> thr_running (thr T) \<and> child T \<in> {HasTid, InFunc, Ended}"
    if inv: "thread_inv S" and run: "thr_running (thr S)" for S
  proof (cases "child S = Spawned")
    case True
    let ?T = "S\<lparr>thr := thread_set_tid 1 (thr S), child := HasTid\<rparr>"
    have step: "thread_prog S ?T" using True by (intro thread_prog.set_tid) simp_all
    then show ?thesis using thread_prog_inv [OF step inv] run
      by (intro exI [of _ ?T]) (simp add: thread_set_tid_def r_into_rtranclp)
  next
    case False
    then have "child S \<in> {HasTid, InFunc, Ended}" using inv run by (cases "child S") (auto simp: thread_inv_def)
    then show ?thesis using inv run by blast
  qed
  have func: "\<exists>T. thread_prog\<^sup>*\<^sup>* S T \<and> thread_inv T \<and> thr_running (thr T) \<and> child T \<in> {InFunc, Ended}"
    if inv: "thread_inv S" and run: "thr_running (thr S)" and ch: "child S \<in> {HasTid, InFunc, Ended}" for S
  proof (cases "child S = HasTid")
    case True
    let ?T = "(count_and_notify S)\<lparr>child := InFunc\<rparr>"
    have step: "thread_prog S ?T" using True by (rule thread_prog.count)
    have "thr_running (thr ?T)" using run by (simp add: count_and_notify_def Let_def split: prod.split)
    moreover have "thread_prog\<^sup>*\<^sup>* S ?T" using step by blast
    ultimately show ?thesis using thread_prog_inv [OF step inv] by (intro exI [of _ ?T]) simp
  qed (use that in blast)
  obtain T1 where T1: "thread_prog\<^sup>*\<^sup>* S T1" "thread_inv T1" "thr_running (thr T1)" "child T1 \<in> {HasTid, InFunc, Ended}"
    using tid [OF assms] by blast
  obtain T2 where T2: "thread_prog\<^sup>*\<^sup>* T1 T2" "thread_inv T2" "thr_running (thr T2)" "child T2 \<in> {InFunc, Ended}"
    using func [OF T1(2,3,4)] by blast
  have S2: "thread_prog\<^sup>*\<^sup>* S T2" using T1(1) T2(1) by simp
  show ?thesis
  proof (cases "owner T2 = Passed")
    case True
    then show ?thesis using S2 by blast
  next
    case False
    then have "owner T2 = Outside \<or> owner T2 = Woken"
      using T2(2,4) by (cases "owner T2") (auto simp: thread_inv_def)
    then have "thread_prog T2 (T2\<lparr>owner := latch_test (thr_latch (thr T2))\<rparr>)"
      using T2(3) by (intro thread_prog.wait)
    moreover have "latch_test (thr_latch (thr T2)) = Passed"
      using T2(2,4) by (auto simp: thread_inv_def latch_test_def)
    ultimately show ?thesis using S2 by (metis rtranclp.rtrancl_into_rtrancl ThreadSystem.select_convs(2) ThreadSystem.update_convs(2) ThreadSystem.surjective)
  qed
qed

text \<open>
  C35: \<open>Thread::start\<close> hands over: when it has returned, the new thread has stored its id and has left the
  part that \<open>start\<close> waits for; and from every state after the call the two threads can bring it to its return by
  steps of the program alone, without a wakeup that nobody sent.
\<close>

theorem thread_start_hands_over:
  assumes "thread_reachable S" and "thr_running (thr S)"
  shows "(owner S = Passed \<longrightarrow> thr_tid (thr S) > 0 \<and> child S \<in> {InFunc, Ended}) \<and>
    (\<exists>T. thread_prog\<^sup>*\<^sup>* S T \<and> owner T = Passed)"
  using start_can_return [OF reachable_thread_inv [OF assms(1)] assms(2)] reachable_thread_inv [OF assms(1)]
  by (auto simp: thread_inv_def)

lemma thread_start_hands_over_witness:
  "\<exists>T. thread_prog\<^sup>*\<^sup>* ((init_ThreadSystem ''io'')\<lparr>thr := thread_start (new_Thread ''io''), child := Spawned\<rparr>) T \<and>
     owner T = Passed"
proof -
  let ?S = "(init_ThreadSystem ''io'')\<lparr>thr := thread_start (new_Thread ''io''), child := Spawned\<rparr>"
  have "thread_step (init_ThreadSystem ''io'') ?S"
    using thread_step.prog [OF thread_prog.start [of "init_ThreadSystem ''io''"]]
    by (simp add: init_ThreadSystem_def new_Thread_def setDefaultName_def)
  then have "thread_reachable ?S" by (rule thread_reachable.step [OF thread_reachable.init])
  then show ?thesis using thread_start_hands_over [of ?S] by (simp add: thread_start_def)
qed

end
