(* ===== verification/Net_LoopThread.thy ===== *)
theory Net_LoopThread
  imports Net_EventLoop Base_Sync
begin

text \<open>
  \<^verbatim>\<open>Net/EventLoopThread.h\<close>, \<^verbatim>\<open>Net/EventLoopThread.cc\<close>: a thread that owns an event loop.

  The owner calls \<open>startLoop\<close> and later the destructor, the worker runs \<open>threadFunc\<close>; both are programs
  with a counter, their steps interleave. The loop object lives on the worker's stack at address
  \<open>loop_addr\<close>. What the loop does between its start and its end is one state, \<open>Looping\<close>; it may leave
  it when its \<open>quit_\<close> is set.
\<close>

subsection \<open>State\<close>

record EventLoopThread =
  elt_loop :: "nat option"
  exiting :: bool

definition new_EventLoopThread :: EventLoopThread where
  "new_EventLoopThread = \<lparr>elt_loop = None, exiting = False\<rparr>"

datatype owner_pc = Idle | Testing | Waiting | Leaving | Got "nat option" | Quitting | Joining | Done

datatype worker_pc = NotRunning | Constructed | Published | Looping | Left

record LoopThread =
  elt :: EventLoopThread
  evl :: "unit EventLoop"
  opc :: owner_pc
  wpc :: worker_pc

definition init_LoopThread :: LoopThread where
  "init_LoopThread = \<lparr>elt = new_EventLoopThread, evl = new_EventLoop, opc = Idle, wpc = NotRunning\<rparr>"

subsection \<open>Pieces of the code\<close>

text \<open>\<open>startLoop\<close>: start the thread, test in the critical section, read \<open>loop_\<close> behind it.\<close>

definition startLoop_begin :: "LoopThread \<Rightarrow> LoopThread" where
  "startLoop_begin S = S\<lparr>opc := Testing, wpc := Constructed\<rparr>"

definition startLoop_test :: "LoopThread \<Rightarrow> LoopThread" where
  "startLoop_test S = S\<lparr>opc := (if elt_loop (elt S) = None then Waiting else Leaving)\<rparr>"

definition startLoop_return :: "LoopThread \<Rightarrow> LoopThread" where
  "startLoop_return S = S\<lparr>opc := Got (elt_loop (elt S))\<rparr>"

text \<open>\<open>threadFunc\<close>: publish and notify, enter the loop, clear the pointer.\<close>

definition threadFunc_publish :: "nat \<Rightarrow> LoopThread \<Rightarrow> LoopThread" where
  "threadFunc_publish loop_addr S =
     S\<lparr>elt := (elt S)\<lparr>elt_loop := Some loop_addr\<rparr>, wpc := Published,
       opc := (if opc S = Waiting then Testing else opc S)\<rparr>"

definition threadFunc_enter :: "LoopThread \<Rightarrow> LoopThread" where
  "threadFunc_enter S = S\<lparr>evl := (evl S)\<lparr>looping := True, quitting := False\<rparr>, wpc := Looping\<rparr>"

definition threadFunc_leave :: "LoopThread \<Rightarrow> LoopThread" where
  "threadFunc_leave S =
     S\<lparr>evl := (evl S)\<lparr>looping := False\<rparr>, elt := (elt S)\<lparr>elt_loop := None\<rparr>, wpc := Left\<rparr>"

text \<open>The destructor: the test of \<open>loop_\<close>, the \<open>quit\<close>, the \<open>join\<close>.\<close>

definition destroy_test :: "LoopThread \<Rightarrow> LoopThread" where
  "destroy_test S =
     S\<lparr>elt := (elt S)\<lparr>exiting := True\<rparr>, opc := (if elt_loop (elt S) \<noteq> None then Quitting else Done)\<rparr>"

definition destroy_quit :: "LoopThread \<Rightarrow> LoopThread" where
  "destroy_quit S = S\<lparr>evl := quit False (evl S), opc := Joining\<rparr>"

text \<open>
  The steps of the program, and with them the wakeup without a notification that POSIX allows. That a call returns is
  shown for \<open>elt_prog\<close> alone: only the notification of \<open>threadFunc\<close> takes the owner out of its sleep there.
\<close>

inductive elt_prog :: "nat \<Rightarrow> LoopThread \<Rightarrow> LoopThread \<Rightarrow> bool" for loop_addr where
  begin_start: "opc S = Idle \<Longrightarrow> elt_prog loop_addr S (startLoop_begin S)"
| test: "opc S = Testing \<Longrightarrow> elt_prog loop_addr S (startLoop_test S)"
| return: "opc S = Leaving \<Longrightarrow> elt_prog loop_addr S (startLoop_return S)"
| publish: "wpc S = Constructed \<Longrightarrow> elt_prog loop_addr S (threadFunc_publish loop_addr S)"
| enter: "wpc S = Published \<Longrightarrow> elt_prog loop_addr S (threadFunc_enter S)"
| leave: "wpc S = Looping \<Longrightarrow> quitting (evl S) \<Longrightarrow> elt_prog loop_addr S (threadFunc_leave S)"
| destroy_test: "opc S = Got r \<Longrightarrow> elt_prog loop_addr S (destroy_test S)"
| destroy_quit: "opc S = Quitting \<Longrightarrow> elt_prog loop_addr S (destroy_quit S)"
| join: "opc S = Joining \<Longrightarrow> wpc S = Left \<Longrightarrow> elt_prog loop_addr S (S\<lparr>opc := Done\<rparr>)"

inductive elt_step :: "nat \<Rightarrow> LoopThread \<Rightarrow> LoopThread \<Rightarrow> bool" for loop_addr where
  prog: "elt_prog loop_addr S T \<Longrightarrow> elt_step loop_addr S T"
| spurious: "opc S = Waiting \<Longrightarrow> elt_step loop_addr S (S\<lparr>opc := Testing\<rparr>)"

inductive_cases elt_progE: "elt_prog loop_addr S T"
inductive_cases elt_stepE: "elt_step loop_addr S T"

lemmas elt_op_defs = startLoop_begin_def startLoop_test_def startLoop_return_def threadFunc_publish_def
  threadFunc_enter_def threadFunc_leave_def destroy_test_def destroy_quit_def

inductive elt_reachable :: "nat \<Rightarrow> LoopThread \<Rightarrow> bool" for loop_addr where
  init: "elt_reachable loop_addr init_LoopThread"
| step: "elt_reachable loop_addr S \<Longrightarrow> elt_step loop_addr S T \<Longrightarrow> elt_reachable loop_addr T"

definition elt_inv :: "nat \<Rightarrow> LoopThread \<Rightarrow> bool" where
  "elt_inv loop_addr S \<longleftrightarrow>
     (wpc S = NotRunning \<longleftrightarrow> opc S = Idle) \<and>
     elt_loop (elt S) = (if wpc S \<in> {Published, Looping} then Some loop_addr else None) \<and>
     (quitting (evl S) \<longrightarrow> opc S \<in> {Joining, Done}) \<and>
     (wpc S = Left \<longrightarrow> opc S \<in> {Joining, Done}) \<and>
     (opc S = Waiting \<longrightarrow> wpc S = Constructed) \<and>
     (opc S \<notin> {Idle, Testing, Waiting} \<longrightarrow> wpc S \<noteq> Constructed) \<and>
     (\<forall>r. opc S = Got r \<longrightarrow> r = Some loop_addr) \<and>
     (opc S = Done \<longrightarrow> wpc S = Left)"

lemma elt_prog_inv [inv_rules]:
  assumes "elt_prog loop_addr S T" and "elt_inv loop_addr S"
  shows "elt_inv loop_addr T"
  using assms
proof (induction rule: elt_prog.induct)
  case (begin_start S)
  then show ?case by (cases "wpc S") (simp_all add: elt_inv_def startLoop_begin_def)
next
  case (test S)
  then show ?case by (cases "wpc S") (simp_all add: elt_inv_def startLoop_test_def)
next
  case (return S)
  then show ?case by (cases "wpc S") (simp_all add: elt_inv_def startLoop_return_def)
next
  case (publish S)
  then show ?case by (cases "opc S") (simp_all add: elt_inv_def threadFunc_publish_def)
next
  case (enter S)
  then show ?case by (simp add: elt_inv_def threadFunc_enter_def)
next
  case (leave S)
  then show ?case by (auto simp: elt_inv_def threadFunc_leave_def)
next
  case (destroy_test S r)
  then show ?case by (cases "wpc S") (simp_all add: elt_inv_def destroy_test_def)
next
  case (destroy_quit S)
  then show ?case by (simp add: elt_inv_def destroy_quit_def quit_def wakeup_def Let_def)
next
  case (join S)
  then show ?case by (simp add: elt_inv_def)
qed

lemma elt_step_inv [inv_rules]: "elt_step loop_addr S T \<Longrightarrow> elt_inv loop_addr S \<Longrightarrow> elt_inv loop_addr T"
proof (induction rule: elt_step.induct)
  case (spurious S)
  then show ?case by (simp add: elt_inv_def)
qed (rule elt_prog_inv)

lemma reachable_elt_inv: "elt_reachable loop_addr S \<Longrightarrow> elt_inv loop_addr S"
proof (induction rule: elt_reachable.induct)
  case init
  show ?case by (simp add: elt_inv_def init_LoopThread_def new_EventLoopThread_def new_EventLoop_def)
qed (rule elt_step_inv)

subsection \<open>Properties\<close>

lemma startLoop_can_return:
  assumes "elt_inv loop_addr S" and "opc S \<in> {Testing, Waiting, Leaving}"
  shows "\<exists>T r. (elt_prog loop_addr)\<^sup>*\<^sup>* S T \<and> opc T = Got r"
proof -
  have leaving: "\<exists>T r. (elt_prog loop_addr)\<^sup>*\<^sup>* S T \<and> opc T = Got r" if "opc S = Leaving" for S
    using elt_prog.return [OF that] by (intro exI [of _ "startLoop_return S"]) (auto simp: startLoop_return_def)
  have testing: "\<exists>T r. (elt_prog loop_addr)\<^sup>*\<^sup>* S T \<and> opc T = Got r"
    if "opc S = Testing" and "elt_loop (elt S) \<noteq> None" for S
    using leaving [of "startLoop_test S"] elt_prog.test [OF that(1)] that(2)
    by (auto simp: startLoop_test_def intro: converse_rtranclp_into_rtranclp)
  show ?thesis
  proof (cases "opc S = Leaving")
    case True
    then show ?thesis by (rule leaving)
  next
    case False
    show ?thesis
    proof (cases "wpc S = Constructed")
      case True
      let ?T = "threadFunc_publish loop_addr S"
      have "opc ?T = Testing" "elt_loop (elt ?T) \<noteq> None"
        using assms(2) False by (auto simp: threadFunc_publish_def)
      then show ?thesis using testing [of ?T] elt_prog.publish [OF True]
        by (meson converse_rtranclp_into_rtranclp)
    next
      case other: False
      have "opc S = Testing" using assms False other by (auto simp: elt_inv_def)
      moreover have "elt_loop (elt S) \<noteq> None"
        using assms(1) other calculation by (cases "wpc S") (auto simp: elt_inv_def)
      ultimately show ?thesis by (rule testing)
    qed
  qed
qed

text \<open>
  C33: \<open>startLoop\<close> returns and never with a null pointer: in every reachable state what it returned is the
  address of the worker's loop, which is alive, and from every state inside the call the threads can finish
  it by the steps of the program alone, without a wakeup that nobody sent: the notification is never lost. An owner that
  is asleep is asleep before the publication only.
\<close>

theorem startLoop_returns_live_loop:
  assumes "elt_reachable loop_addr S"
  shows "(\<forall>r. opc S = Got r \<longrightarrow> r = Some loop_addr \<and> wpc S \<in> {Published, Looping}) \<and>
    (opc S \<in> {Testing, Waiting, Leaving} \<longrightarrow>
      (\<exists>T. (elt_prog loop_addr)\<^sup>*\<^sup>* S T \<and> opc T = Got (Some loop_addr))) \<and>
    (opc S = Waiting \<longrightarrow> wpc S = Constructed)"
proof -
  have inv: "elt_inv loop_addr S" using assms by (rule reachable_elt_inv)
  have all: "elt_inv loop_addr T" if "(elt_prog loop_addr)\<^sup>*\<^sup>* S T" for T
    using that by (induction rule: rtranclp_induct) (auto intro: inv elt_prog_inv)
  have "\<exists>T. (elt_prog loop_addr)\<^sup>*\<^sup>* S T \<and> opc T = Got (Some loop_addr)"
    if o: "opc S \<in> {Testing, Waiting, Leaving}"
  proof -
    obtain T r where T: "(elt_prog loop_addr)\<^sup>*\<^sup>* S T" "opc T = Got r"
      using startLoop_can_return [OF inv o] by blast
    then have "r = Some loop_addr" using all [OF T(1)] by (simp add: elt_inv_def)
    then show ?thesis using T by blast
  qed
  moreover have "wpc S \<in> {Published, Looping}" if "opc S = Got r" for r
    using inv that by (cases "wpc S") (auto simp: elt_inv_def)
  ultimately show ?thesis using inv by (auto simp: elt_inv_def)
qed

text \<open>
  C37: The destructor of a running \<open>EventLoopThread\<close> ends when the loop was already entered at its
  \<open>quit\<close>; when the worker is still between the publication of the loop and \<open>loop()\<close>, which resets the
  flag, the threads can get to a state in which the owner waits for a thread that never ends.
\<close>

theorem destructor_can_hang:
  assumes "elt_reachable loop_addr S" and "opc S = Quitting"
  shows "(wpc S = Looping \<longrightarrow> (\<exists>T. (elt_step loop_addr)\<^sup>*\<^sup>* S T \<and> opc T = Done)) \<and>
    (wpc S = Published \<longrightarrow> (\<exists>T. (elt_step loop_addr)\<^sup>*\<^sup>* S T \<and> opc T = Joining \<and> wpc T = Looping \<and>
      (\<forall>T'. \<not> elt_step loop_addr T T')))"
proof -
  note q = elt_step.prog [OF elt_prog.destroy_quit [OF assms(2), of loop_addr]]
  have "\<exists>T. (elt_step loop_addr)\<^sup>*\<^sup>* S T \<and> opc T = Done" if w: "wpc S = Looping"
  proof -
    let ?T = "threadFunc_leave (destroy_quit S)"
    have "elt_step loop_addr (destroy_quit S) ?T"
      using w by (intro elt_step.prog elt_prog.leave) (simp_all add: destroy_quit_def quit_def wakeup_def Let_def)
    moreover have "elt_step loop_addr ?T (?T\<lparr>opc := Done\<rparr>)"
      by (rule elt_step.prog, rule elt_prog.join) (simp_all add: threadFunc_leave_def destroy_quit_def)
    ultimately have "(elt_step loop_addr)\<^sup>*\<^sup>* S (?T\<lparr>opc := Done\<rparr>)" using q
      by (meson converse_rtranclp_into_rtranclp rtranclp.rtrancl_refl)
    moreover have "opc (?T\<lparr>opc := Done\<rparr>) = Done" by simp
    ultimately show ?thesis by blast
  qed
  moreover have "\<exists>T. (elt_step loop_addr)\<^sup>*\<^sup>* S T \<and> opc T = Joining \<and> wpc T = Looping \<and> (\<forall>T'. \<not> elt_step loop_addr T T')"
    if w: "wpc S = Published"
  proof -
    let ?T = "threadFunc_enter (destroy_quit S)"
    have "elt_step loop_addr (destroy_quit S) ?T"
      using w by (intro elt_step.prog elt_prog.enter) (simp add: destroy_quit_def)
    with q have "(elt_step loop_addr)\<^sup>*\<^sup>* S ?T"
      by (meson converse_rtranclp_into_rtranclp rtranclp.rtrancl_refl)
    moreover have f: "opc ?T = Joining" "wpc ?T = Looping" "\<not> quitting (evl ?T)"
      by (simp_all add: threadFunc_enter_def destroy_quit_def)
    moreover have "\<not> elt_step loop_addr ?T T'" for T'
    proof
      assume "elt_step loop_addr ?T T'"
      then show False using f by (auto elim!: elt_stepE elt_progE)
    qed
    ultimately show ?thesis by blast
  qed
  ultimately show ?thesis by blast
qed

subsection \<open>Witnesses\<close>

lemma elt_run:
  "elt_reachable loop_addr (threadFunc_publish loop_addr (startLoop_begin init_LoopThread))"
proof -
  have "elt_step loop_addr init_LoopThread (startLoop_begin init_LoopThread)"
    by (rule elt_step.prog, rule elt_prog.begin_start) (simp add: init_LoopThread_def)
  then have "elt_reachable loop_addr (startLoop_begin init_LoopThread)"
    by (rule elt_reachable.step [OF elt_reachable.init])
  then show ?thesis by (rule elt_reachable.step) (rule elt_step.prog, rule elt_prog.publish, simp add: startLoop_begin_def)
qed

definition demo_quit :: LoopThread where
  "demo_quit = destroy_test (startLoop_return (startLoop_test
     (threadFunc_publish 9 (startLoop_begin init_LoopThread))))"

lemma demo_quit_reachable: "elt_reachable 9 demo_quit"
proof -
  let ?A = "threadFunc_publish 9 (startLoop_begin init_LoopThread)"
  have "elt_reachable 9 (startLoop_test ?A)"
    by (rule elt_reachable.step [OF elt_run]) (rule elt_step.prog, rule elt_prog.test, simp add: elt_op_defs)
  then have "elt_reachable 9 (startLoop_return (startLoop_test ?A))"
    by (rule elt_reachable.step) (rule elt_step.prog, rule elt_prog.return, simp add: elt_op_defs)
  then show ?thesis unfolding demo_quit_def
    by (rule elt_reachable.step) (rule elt_step.prog, rule elt_prog.destroy_test, simp add: elt_op_defs)
qed

lemma startLoop_returns_live_loop_witness:
  "\<exists>T. (elt_prog 9)\<^sup>*\<^sup>* (threadFunc_publish 9 (startLoop_begin init_LoopThread)) T \<and> opc T = Got (Some 9)"
  using startLoop_returns_live_loop [OF elt_run, of 9]
  by (simp add: threadFunc_publish_def startLoop_begin_def)

lemma destructor_can_hang_witness:
  "\<exists>T. (elt_step 9)\<^sup>*\<^sup>* demo_quit T \<and> opc T = Joining \<and> wpc T = Looping"
proof -
  have "opc demo_quit = Quitting" "wpc demo_quit = Published" by (simp_all add: demo_quit_def elt_op_defs)
  then show ?thesis using destructor_can_hang [OF demo_quit_reachable] by blast
qed

end
