(* ===== verification/Log_Stream.thy ===== *)
theory Log_Stream
  imports Base_Time
begin

text \<open>
  \<^verbatim>\<open>Log/logstream.h\<close>, \<^verbatim>\<open>Log/logstream.cc\<close>, \<^verbatim>\<open>Log/logger.h\<close>, \<^verbatim>\<open>Log/logger.cc\<close>: fixed-size log
  buffers, the stream operators and the composition of one log line.

  A \<open>LogBuffer<SIZE>\<close> is its capacity and the bytes before \<open>cur_\<close>; what lies behind \<open>cur_\<close> is never
  read. Integers of every type are \<open>int\<close>s, divided as C++ divides.
\<close>

subsection \<open>LogBuffer\<close>

definition kSmallBuffer :: nat where
  "kSmallBuffer = 4000"

definition kLargeBuffer :: nat where
  "kLargeBuffer = 4000 * 1000"

definition kMaxNumericSize :: nat where
  "kMaxNumericSize = 32"

record LogBuffer =
  capacity :: nat
  log_data :: bytes

definition new_LogBuffer :: "nat \<Rightarrow> LogBuffer" where
  "new_LogBuffer n = \<lparr>capacity = n, log_data = []\<rparr>"

definition avial :: "LogBuffer \<Rightarrow> nat" where
  "avial b = capacity b - length (log_data b)"

definition log_append :: "bytes \<Rightarrow> LogBuffer \<Rightarrow> LogBuffer" where
  "log_append buf b = (if avial b \<ge> length buf then b\<lparr>log_data := log_data b @ buf\<rparr> else b)"

definition log_len :: "LogBuffer \<Rightarrow> nat" where
  "log_len b = length (log_data b)"

definition log_reset :: "LogBuffer \<Rightarrow> LogBuffer" where
  "log_reset b = b\<lparr>log_data := []\<rparr>"

definition log_inv :: "LogBuffer \<Rightarrow> bool" where
  "log_inv b \<longleftrightarrow> length (log_data b) \<le> capacity b"

lemma log_inv_intros [inv_rules]:
  "log_inv (new_LogBuffer n)" "log_inv b \<Longrightarrow> log_inv (log_append buf b)" "log_inv (log_reset b)"
  by (auto simp: log_inv_def new_LogBuffer_def log_append_def avial_def log_reset_def)

subsection \<open>Formatting numbers\<close>

text \<open>The character \<open>a + '0'\<close>, narrowed to \<open>char\<close>.\<close>

definition digit_char :: "int \<Rightarrow> char" where
  "digit_char a = char_of (nat ((a + 48) mod 256))"

lemma c_div_zero: "c_div 0 b = 0"
  by (simp add: c_div_def)

lemma abs_c_div_10: "\<bar>c_div i 10\<bar> = \<bar>i\<bar> div 10"
  by (auto simp: c_div_def abs_mult sgn_if)

lemma c_div_10_less: "c_div i 10 \<noteq> 0 \<Longrightarrow> \<bar>c_div i 10\<bar> < \<bar>i\<bar>"
  using abs_c_div_10 [of i] by (cases "i = 0") (simp_all add: c_div_def)

text \<open>The \<open>do ... while\<close> of \<open>convert\<close>: the characters in the order they are stored.\<close>

function convert_loop :: "int \<Rightarrow> bytes" where
  "convert_loop i =
     (let a = c_mod i 10; i1 = c_div i 10
      in digit_char a # (if i1 \<noteq> 0 then convert_loop i1 else []))"
  by pat_completeness auto

termination
  by (relation "measure (\<lambda>i. nat \<bar>i\<bar>)") (auto dest: c_div_10_less simp: c_div_zero)

declare convert_loop.simps [simp del]

definition convert :: "int \<Rightarrow> bytes" where
  "convert value = rev (convert_loop value @ (if value < 0 then ''-'' else []))"

text \<open>\<open>convert\<close> writes the characters and a terminating zero byte behind \<open>cur_\<close>.\<close>

definition formatInterger :: "int \<Rightarrow> LogBuffer \<Rightarrow> fault + LogBuffer" where
  "formatInterger num b =
     (if avial b \<ge> kMaxNumericSize
      then (if length (convert num) + 1 \<le> avial b
            then Inr (b\<lparr>log_data := log_data b @ convert num\<rparr>) else Inl OutOfBounds)
      else Inr b)"

subsection \<open>The stream operators\<close>

datatype log_item =
  LogBool bool | LogInt int | LogDouble real | LogChar char | LogCStr "string option" | LogString string | LogBuf LogBuffer

text \<open>\<open>fmt_g\<close> is what \<open>snprintf\<close> prints for \<open>%g\<close>.\<close>

fun log_put :: "(real \<Rightarrow> string) \<Rightarrow> log_item \<Rightarrow> LogBuffer \<Rightarrow> fault + LogBuffer" where
  "log_put fmt_g (LogBool b) buf = formatInterger (if b then 1 else 0) buf"
| "log_put fmt_g (LogInt i) buf = formatInterger i buf"
| "log_put fmt_g (LogDouble d) buf = Inr (log_append (fmt_g d) buf)"
| "log_put fmt_g (LogChar c) buf = Inr (log_append [c] buf)"
| "log_put fmt_g (LogCStr s) buf =
     Inr (case s of Some str \<Rightarrow> log_append str buf | None \<Rightarrow> log_append ''(null)'' buf)"
| "log_put fmt_g (LogString s) buf = Inr (log_append s buf)"
| "log_put fmt_g (LogBuf v) buf = Inr (log_append (log_data v) buf)"

fun log_puts :: "(real \<Rightarrow> string) \<Rightarrow> log_item list \<Rightarrow> LogBuffer \<Rightarrow> fault + LogBuffer" where
  "log_puts fmt_g [] buf = Inr buf"
| "log_puts fmt_g (x # xs) buf =
     (case log_put fmt_g x buf of Inl f \<Rightarrow> Inl f | Inr buf1 \<Rightarrow> log_puts fmt_g xs buf1)"

subsection \<open>One log line\<close>

datatype LogLevel = DEBUG | INFO | WARN | ERROR | FATAL

fun LogLevelName :: "LogLevel \<Rightarrow> string" where
  "LogLevelName DEBUG = ''DEBUG ''"
| "LogLevelName INFO = ''INFO  ''"
| "LogLevelName WARN = ''WARN  ''"
| "LogLevelName ERROR = ''ERROR ''"
| "LogLevelName FATAL = ''FATAL ''"

definition SourceFile :: "string \<Rightarrow> string" where
  "SourceFile file = rev (takeWhile (\<lambda>c. c \<noteq> CHR ''/'') (rev file))"

text \<open>A zero-filled \<open>char[n]\<close> after \<open>snprintf\<close> printed \<open>s\<close> into it.\<close>

definition char_array :: "nat \<Rightarrow> string \<Rightarrow> bytes" where
  "char_array n s = take (n - 1) s @ replicate (n - length (take (n - 1) s)) (CHR 0x00)"

definition formatted_seconds :: "tm \<Rightarrow> string" where
  "formatted_seconds t =
     fmt_zero 4 (tm_year t + 1900) @ ''-'' @ fmt_zero 2 (tm_mon t + 1) @ ''-'' @ fmt_zero 2 (tm_mday t) @
     '' '' @ fmt_zero 2 (tm_hour t) @ '':'' @ fmt_zero 2 (tm_min t) @ '':'' @ fmt_zero 2 (tm_sec t)"

definition formatted_fraction :: "int \<Rightarrow> string" where
  "formatted_fraction us = ''.'' @ fmt_zero 3 us"

definition forattedTime :: "(int \<Rightarrow> tm) \<Rightarrow> TimeStamp \<Rightarrow> log_item list" where
  "forattedTime localtime t =
     (let seconds = c_div (microSecond t) kMicroSecond2Second;
          us = c_mod (microSecond t) kMicroSecond2Second
      in [LogString (take 19 (char_array 64 (formatted_seconds (localtime seconds)))),
          LogString (take 4 (char_array 32 (formatted_fraction us)))])"

definition getThreadID :: "nat \<Rightarrow> log_item list" where
  "getThreadID tid = [LogString (''['' @ fmt_space 5 (int tid) @ '']'')]"

text \<open>The constructor of \<open>Logger\<close>, the user's items, and the end of line of its destructor.\<close>

definition log_line ::
  "(real \<Rightarrow> string) \<Rightarrow> (int \<Rightarrow> tm) \<Rightarrow> TimeStamp \<Rightarrow> nat \<Rightarrow> LogLevel \<Rightarrow> string \<Rightarrow> int \<Rightarrow> string \<Rightarrow>
   log_item list \<Rightarrow> fault + LogBuffer" where
  "log_line fmt_g localtime t tid level file line0 func_name items =
     log_puts fmt_g
       (forattedTime localtime t @ getThreadID tid @ [LogString (LogLevelName level)] @
        [LogString (SourceFile file), LogChar (CHR '':''), LogInt line0, LogCStr (Some ''->'')] @
        [LogCStr (Some ''(''), LogCStr (Some func_name), LogCStr (Some ''):'')] @
        items @ [LogCStr (Some [CHR 0x0A])])
       (new_LogBuffer kSmallBuffer)"

text \<open>The constructors without a function name, and without a level.\<close>

definition log_line_level ::
  "(real \<Rightarrow> string) \<Rightarrow> (int \<Rightarrow> tm) \<Rightarrow> TimeStamp \<Rightarrow> nat \<Rightarrow> LogLevel \<Rightarrow> string \<Rightarrow> int \<Rightarrow>
   log_item list \<Rightarrow> fault + LogBuffer" where
  "log_line_level fmt_g localtime t tid level file line0 items =
     log_puts fmt_g
       (forattedTime localtime t @ getThreadID tid @ [LogString (LogLevelName level)] @
        [LogString (SourceFile file), LogChar (CHR '':''), LogInt line0, LogCStr (Some ''->'')] @
        items @ [LogCStr (Some [CHR 0x0A])])
       (new_LogBuffer kSmallBuffer)"

definition log_line_info ::
  "(real \<Rightarrow> string) \<Rightarrow> (int \<Rightarrow> tm) \<Rightarrow> TimeStamp \<Rightarrow> nat \<Rightarrow> string \<Rightarrow> int \<Rightarrow> log_item list \<Rightarrow> fault + LogBuffer" where
  "log_line_info fmt_g localtime t tid file line0 items = log_line_level fmt_g localtime t tid INFO file line0 items"

text \<open>A function name is what a user of the shorter constructor would put in front of the items.\<close>

lemma log_line_with_function:
  "log_line fmt_g localtime t tid level file line0 func_name items =
     log_line_level fmt_g localtime t tid level file line0
       ([LogCStr (Some ''(''), LogCStr (Some func_name), LogCStr (Some ''):'')] @ items)"
  by (simp add: log_line_def log_line_level_def)

subsection \<open>Facts\<close>

lemma char_of_digit:
  assumes "0 \<le> a" and "a < 10"
  shows "digit_char a = digit (nat a)"
proof -
  have "(a + 48) mod 256 = a + 48" using assms by (intro mod_pos_pos_trivial) linarith+
  then have "nat ((a + 48) mod 256) = 48 + nat a" using assms(1) by linarith
  then show ?thesis by (simp only: digit_def digit_char_def)
qed

lemma convert_loop_nonneg: "0 \<le> i \<Longrightarrow> convert_loop i = rev (dec (nat i))"
proof (induction "nat i" arbitrary: i rule: less_induct)
  case less
  have q: "c_div i 10 = i div 10" "c_mod i 10 = i mod 10"
    using less.prems by (simp_all add: c_div_nonneg c_mod_nonneg)
  have "nat (i mod 10) = nat i mod 10" using less.prems by (simp add: nat_mod_distrib)
  moreover have "digit_char (i mod 10) = digit (nat (i mod 10))" by (rule char_of_digit) simp_all
  ultimately have d: "digit_char (i mod 10) = digit (nat i mod 10)" by simp
  show ?case
  proof (cases "i < 10")
    case True
    then have "i div 10 = 0" and "nat i < 10" using less.prems by simp_all
    then show ?thesis using q d by (subst convert_loop.simps) (simp add: Let_def dec.simps [of "nat i"])
  next
    case False
    then have "0 < i div 10" "i div 10 < i" by (simp_all add: pos_imp_zdiv_pos_iff int_div_less_self)
    then have "i div 10 \<noteq> 0" "nat (i div 10) < nat i" "0 \<le> i div 10" by simp_all
    moreover from this have "convert_loop (i div 10) = rev (dec (nat (i div 10)))" by (intro less.hyps)
    moreover have "\<not> nat i < 10" using False by simp
    moreover have "nat (i div 10) = nat i div 10" using less.prems by (simp add: nat_div_distrib)
    ultimately show ?thesis using q d
      by (subst convert_loop.simps) (simp add: Let_def dec.simps [of "nat i"])
  qed
qed

text \<open>The digits of a negative number are mirrored at the character \<open>0\<close>.\<close>

definition mirror :: "char \<Rightarrow> char" where
  "mirror c = char_of (96 - of_char c :: nat)"

lemma mirror_digit: "d < 10 \<Longrightarrow> mirror (digit d) = char_of (48 - d)"
  by (simp add: mirror_def digit_def)

lemma convert_loop_neg: "0 < n \<Longrightarrow> convert_loop (- int n) = rev (map mirror (dec n))"
proof (induction n rule: less_induct)
  case (less n)
  have q: "c_div (- int n) 10 = - int (n div 10)" using less.prems by (simp add: c_div_def zdiv_int)
  have r: "c_mod (- int n) 10 = - int (n mod 10)"
    unfolding c_mod_def q by (simp add: zmod_int zdiv_int minus_mult_div_eq_mod [symmetric])
  have "n mod 10 < 10" by simp
  then have "(- int (n mod 10) + 48) mod 256 = - int (n mod 10) + 48" by (intro mod_pos_pos_trivial) linarith+
  then have "nat ((- int (n mod 10) + 48) mod 256) = 48 - n mod 10" using \<open>n mod 10 < 10\<close> by linarith
  then have d: "digit_char (- int (n mod 10)) = mirror (digit (n mod 10))"
    by (simp add: mirror_digit digit_char_def)
  show ?case
  proof (cases "n < 10")
    case True
    then show ?thesis using q r d
      by (subst convert_loop.simps) (simp add: Let_def dec.simps [of n])
  next
    case False
    then have "convert_loop (- int (n div 10)) = rev (map mirror (dec (n div 10)))"
      by (intro less.IH) simp_all
    then show ?thesis using q r d False
      by (subst convert_loop.simps) (simp add: Let_def dec.simps [of n])
  qed
qed

lemma convert_nonneg: "0 \<le> v \<Longrightarrow> convert v = dec (nat v)"
  by (simp add: convert_def convert_loop_nonneg)

lemma convert_neg: "v < 0 \<Longrightarrow> convert v = CHR ''-'' # map mirror (dec (nat (- v)))"
  using convert_loop_neg [of "nat (- v)"] by (simp add: convert_def rev_map)

lemma length_convert:
  assumes "- (2 ^ 63) \<le> v" and "v < 2 ^ 64"
  shows "length (convert v) \<le> 21"
proof (cases "0 \<le> v")
  case True
  then have "nat v < 10 ^ 20" using assms(2) by (simp add: nat_less_iff)
  then have "length (dec (nat v)) \<le> 20" by (rule length_dec) simp
  then show ?thesis using True by (simp add: convert_nonneg)
next
  case False
  then have "nat (- v) < 10 ^ 20" using assms(1) by (simp add: nat_less_iff)
  then have "length (dec (nat (- v))) \<le> 20" by (rule length_dec) simp
  then show ?thesis using False by (simp add: convert_neg)
qed

subsection \<open>Properties\<close>

lemma dec_digits: "set (dec n) \<subseteq> digit ` {0..<10}"
proof (induction n rule: dec.induct)
  case (1 n)
  then show ?case by (subst dec.simps) auto
qed

lemma mirror_fixpoint:
  assumes "d < 10" and "mirror (digit d) = digit d"
  shows "d = 0"
proof -
  have "(of_char (char_of (48 - d)) :: nat) = of_char (char_of (48 + d))"
    using assms mirror_digit [OF assms(1)] by (simp add: digit_def)
  then show ?thesis using assms(1) by simp
qed

lemma dec_mirror: "map mirror (dec n) = dec n \<Longrightarrow> n = 0"
proof -
  assume eq: "map mirror (dec n) = dec n"
  have "c = CHR ''0''" if c: "c \<in> set (dec n)" for c
  proof -
    obtain d where d: "d < 10" "c = digit d" using c dec_digits by force
    have "mirror c = c" using c eq by (metis in_set_conv_nth nth_map length_map)
    then have "d = 0" using d mirror_fixpoint by simp
    moreover have "digit 0 = CHR ''0''" by code_simp
    ultimately show ?thesis using d by simp
  qed
  then have "dec n = replicate (length (dec n)) (CHR ''0'')" by (simp add: replicate_length_same)
  then have "dec_value (dec n) = dec_value (replicate (length (dec n)) (CHR ''0'') @ [])" by simp
  then have "dec_value (dec n) = 0" unfolding dec_value_zeros by (simp add: dec_value_def)
  then show "n = 0" by simp
qed

text \<open>
  A log line shows an integer in decimal if and only if it is not negative. The remainder of a
  negative number is negative, so each of its digits is taken below the character \<open>0\<close>.
\<close>

theorem convert_decimal_iff_nonneg:
  "(convert v = fmt_int v \<longleftrightarrow> 0 \<le> v) \<and>
   convert v = (if 0 \<le> v then dec (nat v) else CHR ''-'' # map mirror (dec (nat (- v))))"
proof (cases "0 \<le> v")
  case True
  then show ?thesis by (simp add: convert_nonneg fmt_int_def)
next
  case False
  then have "convert v \<noteq> fmt_int v"
    using dec_mirror [of "nat (- v)"] by (auto simp: convert_neg fmt_int_def)
  then show ?thesis using False by (simp add: convert_neg)
qed

definition item_ok :: "log_item \<Rightarrow> bool" where
  "item_ok x \<longleftrightarrow> (\<forall>i. x = LogInt i \<longrightarrow> - (2 ^ 63) \<le> i \<and> i < 2 ^ 64)"

lemma formatInterger_ok:
  assumes "- (2 ^ 63) \<le> i" and "i < 2 ^ 64" and "log_inv b"
  shows "\<exists>b'. formatInterger i b = Inr b' \<and> log_inv b' \<and> capacity b' = capacity b \<and>
    (\<exists>s. log_data b' = log_data b @ s)"
  using length_convert [OF assms(1,2)] assms(3)
  by (auto simp: formatInterger_def kMaxNumericSize_def log_inv_def avial_def)

lemma log_append_ok:
  "log_inv b \<Longrightarrow> log_inv (log_append s b) \<and> capacity (log_append s b) = capacity b \<and>
     (\<exists>t. log_data (log_append s b) = log_data b @ t)"
  by (auto simp: log_append_def log_inv_def avial_def)

lemma log_put_ok:
  assumes "item_ok x" and "log_inv b"
  shows "\<exists>b'. log_put g x b = Inr b' \<and> log_inv b' \<and> capacity b' = capacity b \<and>
    (\<exists>s. log_data b' = log_data b @ s)"
proof (cases x)
  case (LogBool v)
  then show ?thesis using formatInterger_ok [of "if v then 1 else 0" b] assms(2) by simp
next
  case (LogInt i)
  then show ?thesis using formatInterger_ok [of i b] assms by (simp add: item_ok_def)
qed (use assms(2) log_append_ok in \<open>auto split: option.splits\<close>)

lemma log_puts_ok:
  assumes "log_inv b" and "\<forall>x \<in> set xs. item_ok x"
  shows "\<exists>b'. log_puts g xs b = Inr b' \<and> log_inv b' \<and> capacity b' = capacity b \<and>
    (\<exists>s. log_data b' = log_data b @ s)"
  using assms
proof (induction xs arbitrary: b)
  case Nil
  then show ?case by simp
next
  case (Cons x xs)
  obtain b1 s where b1: "log_put g x b = Inr b1" "log_inv b1" "capacity b1 = capacity b"
    "log_data b1 = log_data b @ s"
    using log_put_ok [of x b g] Cons.prems by auto
  from Cons.IH [OF b1(2)] Cons.prems(2) show ?case using b1 by auto
qed


text \<open>
  Writing to a log buffer never leaves its array, whatever is written: every operator leaves
  the bytes before it as they are and adds at most what fits; in particular the 32 bytes that
  \<open>formatInterger\<close> reserves are enough for every 64-bit number, its sign and the zero byte.
\<close>

theorem log_stream_in_bounds:
  assumes "log_inv b" and "\<forall>x \<in> set xs. item_ok x"
  shows "\<exists>b'. log_puts g xs b = Inr b' \<and> log_inv b' \<and> capacity b' = capacity b \<and>
    (\<exists>s. log_data b' = log_data b @ s)"
  using assms by (rule log_puts_ok)
lemma log_stream_in_bounds_witness:
  "\<exists>b'. log_puts (\<lambda>_. []) [LogInt (- 5), LogCStr None] (new_LogBuffer 40) = Inr b' \<and> log_inv b'"
  using log_stream_in_bounds [of "new_LogBuffer 40" "[LogInt (- 5), LogCStr None]" "\<lambda>_. []"]
  by (auto simp: inv_rules item_ok_def)

text \<open>
  The fraction of a second in a log line is three digits of the microseconds printed without leading
  zeros, cut off on the right: from a tenth of a second on these are the milliseconds, but 1 to
  9.999 milliseconds show as a hundred times as much.
\<close>

theorem log_fraction_digits:
  assumes "0 \<le> us" and "us < 1000000"
  shows "(100000 \<le> us \<longrightarrow> dec_value (drop 1 (take 4 (formatted_fraction us))) = nat (us div 1000)) \<and>
    (1000 \<le> us \<and> us < 10000 \<longrightarrow> dec_value (drop 1 (take 4 (formatted_fraction us))) = nat (us div 10))"
proof -
  have frac: "drop 1 (take 4 (formatted_fraction us)) = take 3 (dec (nat us))" if "1000 \<le> us"
  proof -
    have "2 < length (dec (nat us))" using that by (intro length_dec_ge) simp
    then show ?thesis using that by (simp add: formatted_fraction_def fmt_zero_def pad_left_def)
  qed
  have "take 3 (dec (nat us)) = dec (nat us div 1000)" if "100000 \<le> us"
    using take_dec [of 3 3 "nat us"] that assms(2) by simp
  moreover have "take 3 (dec (nat us)) = dec (nat us div 10)" if "1000 \<le> us" "us < 10000"
    using take_dec [of 3 1 "nat us"] that by simp
  ultimately show ?thesis using frac by (simp add: nat_div_distrib)
qed

lemma log_fraction_digits_witness: "dec_value (drop 1 (take 4 (formatted_fraction 1234))) = 123"
  using log_fraction_digits [of 1234] by simp

end
