(* ===== verification/Log_Async.thy ===== *)
theory Log_Async
  imports Log_Stream "HOL-Library.Sublist"
begin

text \<open>
  \<^verbatim>\<open>Log/Logfile.h\<close>, \<^verbatim>\<open>Log/Logfile.cc\<close>, \<^verbatim>\<open>Log/asynclogging.h\<close>, \<^verbatim>\<open>Log/asynclogging.cc\<close>: the log file and
  the two-sided buffering in front of it.

  What \<open>fwrite\<close> returns is an argument (its k-th call, the bytes offered). A \<open>unique_ptr\<close> is an
  option; dereferencing \<open>None\<close> and \<open>back()\<close> of an empty vector are faults. The writer thread is
  three steps, the critical section, the output and the test of \<open>running_\<close>; other threads append and
  stop between them.
\<close>

subsection \<open>The log file\<close>

text \<open>\<open>gave_up\<close> counts the calls of \<open>append\<close> that left their loop by its \<open>break\<close>, the error branch.\<close>

record FileWritter =
  file_data :: bytes
  writtenbytes :: nat
  fwrites :: nat
  gave_up :: nat

definition new_FileWritter :: FileWritter where
  "new_FileWritter = \<lparr>file_data = [], writtenbytes = 0, fwrites = 0, gave_up = 0\<rparr>"

definition LogFile_name :: "(int \<Rightarrow> tm) \<Rightarrow> TimeStamp \<Rightarrow> string \<Rightarrow> string" where
  "LogFile_name localtime t filename =
     (if filename \<noteq> [] then ''./LogFiles/'' @ filename @ ''.log''
      else ''./LogFiles/LogFile_'' @ toString localtime t @ ''.log'')"

definition do_fwrite :: "(nat \<Rightarrow> bytes \<Rightarrow> nat) \<Rightarrow> bytes \<Rightarrow> FileWritter \<Rightarrow> nat \<times> FileWritter" where
  "do_fwrite fw d f =
     (let n = fw (fwrites f) d
      in (n, f\<lparr>file_data := file_data f @ take n d, fwrites := fwrites f + 1\<rparr>))"

function write_rest :: "(nat \<Rightarrow> bytes \<Rightarrow> nat) \<Rightarrow> bytes \<Rightarrow> nat \<Rightarrow> int \<Rightarrow> FileWritter \<Rightarrow> FileWritter" where
  "write_rest fw line n remain f =
     (if remain > 0
      then (let (num, f1) = do_fwrite fw (seg line n (n + nat remain)) f
            in if num = 0 then f1\<lparr>gave_up := gave_up f1 + 1\<rparr> else write_rest fw line (n + num) (remain - int num) f1)
      else f)"
  by pat_completeness auto
termination
  by (relation "measure (\<lambda>(fw, line, n, remain, f). nat remain)") auto

declare write_rest.simps [simp del]

definition file_append :: "(nat \<Rightarrow> bytes \<Rightarrow> nat) \<Rightarrow> bytes \<Rightarrow> FileWritter \<Rightarrow> FileWritter" where
  "file_append fw line f =
     (let (n, f1) = do_fwrite fw line f;
          f2 = write_rest fw line n (c_int (int (length line) - int n)) f1
      in f2\<lparr>writtenbytes := writtenbytes f2 + length line\<rparr>)"

text \<open>\<open>fwrite\<close> reports at most what it was offered.\<close>

definition fwrite_ok :: "(nat \<Rightarrow> bytes \<Rightarrow> nat) \<Rightarrow> bool" where
  "fwrite_ok fw \<longleftrightarrow> (\<forall>k d. fw k d \<le> length d)"

lemma fwrite_le: "fwrite_ok fw \<Longrightarrow> fw k d \<le> length d"
  by (simp add: fwrite_ok_def)

lemma write_rest_ok:
  "n \<le> length line \<Longrightarrow> remain = int (length line - n) \<Longrightarrow> fwrite_ok fw \<Longrightarrow>
    \<exists>k. n \<le> k \<and> k \<le> length line \<and>
      file_data (write_rest fw line n remain f) = file_data f @ seg line n k \<and>
      writtenbytes (write_rest fw line n remain f) = writtenbytes f \<and>
      gave_up f \<le> gave_up (write_rest fw line n remain f) \<and>
      (gave_up (write_rest fw line n remain f) = gave_up f \<longrightarrow> k = length line)"
proof (induction fw line n remain f rule: write_rest.induct)
  case (1 fw line n remain f)
  show ?case
  proof (cases "remain > 0")
    case False
    then have "n = length line" using 1 by simp
    moreover have "write_rest fw line n remain f = f" using False by (subst write_rest.simps) simp
    ultimately show ?thesis by (intro exI [of _ n]) simp
  next
    case True
    let ?d = "seg line n (n + nat remain)"
    let ?num = "fw (fwrites f) ?d"
    have all: "n + nat remain = length line" using 1(2,3) by simp
    have d: "length ?d = length line - n" "?d \<noteq> []"
      using True all 1(2,3) by (auto simp: length_seg simp flip: length_0_conv)
    have num: "?num \<le> length line - n" using fwrite_le [OF 1(4), of "fwrites f" ?d] d(1) by simp
    obtain f1 where f1: "do_fwrite fw ?d f = (?num, f1)" "writtenbytes f1 = writtenbytes f" "gave_up f1 = gave_up f"
      "file_data f1 = file_data f @ seg line n (n + ?num)"
      using num all by (simp add: do_fwrite_def Let_def take_seg)
    show ?thesis
    proof (cases "?num = 0")
      case zero: True
      then have "write_rest fw line n remain f = f1\<lparr>gave_up := gave_up f1 + 1\<rparr>"
        using True f1(1) by (subst write_rest.simps) simp
      then show ?thesis using f1 zero 1(2) by (intro exI [of _ n]) simp
    next
      case False
      have step: "write_rest fw line n remain f = write_rest fw line (n + ?num) (remain - int ?num) f1"
        using True f1(1) False by (subst write_rest.simps) (simp add: Let_def)
      have "\<exists>k. n + ?num \<le> k \<and> k \<le> length line \<and>
          file_data (write_rest fw line (n + ?num) (remain - int ?num) f1) = file_data f1 @ seg line (n + ?num) k \<and>
          writtenbytes (write_rest fw line (n + ?num) (remain - int ?num) f1) = writtenbytes f1 \<and>
          gave_up f1 \<le> gave_up (write_rest fw line (n + ?num) (remain - int ?num) f1) \<and>
          (gave_up (write_rest fw line (n + ?num) (remain - int ?num) f1) = gave_up f1 \<longrightarrow> k = length line)"
        by (rule 1(1) [OF True _ _ False]) (use f1(1) num 1(2,3,4) in auto)
      then obtain k where k: "n + ?num \<le> k" "k \<le> length line"
        "file_data (write_rest fw line n remain f) = file_data f1 @ seg line (n + ?num) k"
        "writtenbytes (write_rest fw line n remain f) = writtenbytes f1"
        "gave_up f1 \<le> gave_up (write_rest fw line n remain f)"
        "gave_up (write_rest fw line n remain f) = gave_up f1 \<longrightarrow> k = length line"
        unfolding step by blast
      have "seg line n k = seg line n (n + ?num) @ seg line (n + ?num) k"
        using k(1) by (intro seg_append) simp_all
      then show ?thesis using k f1(2,3,4) by (intro exI [of _ k]) simp
    qed
  qed
qed

lemma file_append_ok:
  assumes "fwrite_ok fw" and "length line < 2 ^ 31"
  shows "\<exists>k \<le> length line. file_data (file_append fw line f) = file_data f @ take k line \<and>
    writtenbytes (file_append fw line f) = writtenbytes f + length line \<and>
    gave_up f \<le> gave_up (file_append fw line f) \<and>
    (gave_up (file_append fw line f) = gave_up f \<longrightarrow> k = length line)"
proof -
  let ?n = "fw (fwrites f) line"
  let ?f1 = "snd (do_fwrite fw line f)"
  have n: "?n \<le> length line" using assms(1) by (simp add: fwrite_ok_def)
  have "c_int (int (length line) - int ?n) = int (length line - ?n)"
    using n assms(2) by (subst c_int_id) simp_all
  then have eq: "file_append fw line f =
      (write_rest fw line ?n (int (length line - ?n)) ?f1)\<lparr>writtenbytes :=
         writtenbytes (write_rest fw line ?n (int (length line - ?n)) ?f1) + length line\<rparr>"
    by (simp add: file_append_def do_fwrite_def Let_def)
  obtain k where k: "?n \<le> k" "k \<le> length line"
    "file_data (write_rest fw line ?n (int (length line - ?n)) ?f1) = file_data ?f1 @ seg line ?n k"
    "writtenbytes (write_rest fw line ?n (int (length line - ?n)) ?f1) = writtenbytes ?f1"
    "gave_up ?f1 \<le> gave_up (write_rest fw line ?n (int (length line - ?n)) ?f1)"
    "gave_up (write_rest fw line ?n (int (length line - ?n)) ?f1) = gave_up ?f1 \<longrightarrow> k = length line"
    using write_rest_ok [OF n refl assms(1), of ?f1] by blast
  have "take k line = take ?n line @ seg line ?n k"
    using seg_append [of 0 ?n k line] k(1) by (simp add: seg_def)
  then show ?thesis using k eq by (intro exI [of _ k]) (simp add: do_fwrite_def Let_def)
qed

subsection \<open>AsyncLogging\<close>

record AsyncLogging =
  running :: bool
  current_buffer :: "LogBuffer option"
  next_buffer :: "LogBuffer option"
  buffers :: "LogBuffer option list"
  new_buffer1 :: "LogBuffer option"
  new_buffer2 :: "LogBuffer option"
  buffers_to_write :: "LogBuffer option list"
  log_output :: FileWritter

text \<open>The constructor; the writer's locals do not exist yet.\<close>

definition new_AsyncLogging :: AsyncLogging where
  "new_AsyncLogging =
     \<lparr>running = False, current_buffer = Some (new_LogBuffer kLargeBuffer),
      next_buffer = Some (new_LogBuffer kLargeBuffer), buffers = [],
      new_buffer1 = None, new_buffer2 = None, buffers_to_write = [], log_output = new_FileWritter\<rparr>"

text \<open>What the writer thread does before its loop.\<close>

definition writer_prologue :: "AsyncLogging \<Rightarrow> AsyncLogging" where
  "writer_prologue a =
     a\<lparr>new_buffer1 := Some (new_LogBuffer kLargeBuffer), new_buffer2 := Some (new_LogBuffer kLargeBuffer),
       buffers_to_write := [], log_output := new_FileWritter\<rparr>"

text \<open>\<open>start\<close> returns when the writer has counted the latch down.\<close>

definition async_start :: "AsyncLogging \<Rightarrow> AsyncLogging" where
  "async_start a = writer_prologue (a\<lparr>running := True\<rparr>)"

definition async_append :: "bytes \<Rightarrow> AsyncLogging \<Rightarrow> fault + AsyncLogging" where
  "async_append msg a =
     (case current_buffer a of
        None \<Rightarrow> Inl NullDeref
      | Some b \<Rightarrow>
          if avial b \<noteq> 0 then Inr (a\<lparr>current_buffer := Some (log_append msg b)\<rparr>)
          else (let a1 = a\<lparr>buffers := buffers a @ [current_buffer a]\<rparr>
                in case next_buffer a1 of
                     Some nb \<Rightarrow> Inr (a1\<lparr>current_buffer := Some (log_append msg nb), next_buffer := None\<rparr>)
                   | None \<Rightarrow> Inr (a1\<lparr>current_buffer := Some (log_append msg (new_LogBuffer kLargeBuffer))\<rparr>)))"

definition async_stop :: "AsyncLogging \<Rightarrow> AsyncLogging" where
  "async_stop a = a\<lparr>running := False\<rparr>"

definition async_destroy :: "AsyncLogging \<Rightarrow> AsyncLogging" where
  "async_destroy a = (if running a then async_stop a else a)"

text \<open>The critical section of the writer thread.\<close>

definition writer_swap :: "AsyncLogging \<Rightarrow> AsyncLogging" where
  "writer_swap a =
     (let a1 = a\<lparr>buffers := buffers a @ [current_buffer a], current_buffer := new_buffer1 a,
                 new_buffer1 := None\<rparr>;
          a2 = a1\<lparr>buffers_to_write := buffers a1, buffers := buffers_to_write a1\<rparr>
      in if next_buffer a2 = None
         then a2\<lparr>next_buffer := new_buffer2 a2, new_buffer2 := None\<rparr> else a2)"

fun write_buffers :: "(nat \<Rightarrow> bytes \<Rightarrow> nat) \<Rightarrow> LogBuffer option list \<Rightarrow> FileWritter \<Rightarrow> fault + FileWritter" where
  "write_buffers fw [] f = Inr f"
| "write_buffers fw (None # bs) f = Inl NullDeref"
| "write_buffers fw (Some b # bs) f = write_buffers fw bs (file_append fw (log_data b) f)"

text \<open>\<open>if (!p) { p = move(v.back()); v.pop_back(); p->reset(); }\<close>\<close>

definition refill ::
  "LogBuffer option \<Rightarrow> LogBuffer option list \<Rightarrow> fault + (LogBuffer option \<times> LogBuffer option list)" where
  "refill p v =
     (if p = None
      then (if v = [] then Inl OutOfBounds
            else (case last v of
                    None \<Rightarrow> Inl NullDeref
                  | Some b \<Rightarrow> Inr (Some (log_reset b), butlast v)))
      else Inr (p, v))"

text \<open>The rest of the loop body: drop all but two of more than 16, write, recycle, clear.\<close>

definition writer_output :: "(nat \<Rightarrow> bytes \<Rightarrow> nat) \<Rightarrow> AsyncLogging \<Rightarrow> fault + AsyncLogging" where
  "writer_output fw a =
     (let bs = (if length (buffers_to_write a) > 16 then take 2 (buffers_to_write a) else buffers_to_write a)
      in case write_buffers fw bs (log_output a) of
           Inl f \<Rightarrow> Inl f
         | Inr out \<Rightarrow>
             (let bs1 = (if length bs > 2 then take 2 bs else bs)
              in case refill (new_buffer1 a) bs1 of
                   Inl f \<Rightarrow> Inl f
                 | Inr (nb1, bs2) \<Rightarrow>
                     (case refill (new_buffer2 a) bs2 of
                        Inl f \<Rightarrow> Inl f
                      | Inr (nb2, bs3) \<Rightarrow>
                          Inr (a\<lparr>new_buffer1 := nb1, new_buffer2 := nb2, buffers_to_write := [],
                                 log_output := out\<rparr>))))"

subsection \<open>The writer thread among other threads\<close>

datatype writer_phase = Test | Swap | Output | Finished

text \<open>
  \<open>taken\<close> collects the messages that went into a buffer; \<open>cut_off\<close> is set when a round threw buffers
  away because there were more than 16.
\<close>

record AsyncSystem =
  alog :: AsyncLogging
  wphase :: writer_phase
  taken :: bytes
  cut_off :: bool

definition init_AsyncSystem :: AsyncSystem where
  "init_AsyncSystem = \<lparr>alog = async_start new_AsyncLogging, wphase = Test, taken = [], cut_off = False\<rparr>"

definition dropped :: "bytes \<Rightarrow> AsyncLogging \<Rightarrow> bool" where
  "dropped msg a \<longleftrightarrow> (\<exists>b. current_buffer a = Some b \<and> avial b \<noteq> 0 \<and> avial b < length msg)"

inductive async_step :: "(nat \<Rightarrow> bytes \<Rightarrow> nat) \<Rightarrow> AsyncSystem \<Rightarrow> AsyncSystem \<Rightarrow> bool"
  for fw :: "nat \<Rightarrow> bytes \<Rightarrow> nat" where
  append: "length msg \<le> kSmallBuffer \<Longrightarrow> async_append msg (alog S) = Inr a \<Longrightarrow>
    async_step fw S (S\<lparr>alog := a, taken := taken S @ (if dropped msg (alog S) then [] else msg)\<rparr>)"
| stop: "async_step fw S (S\<lparr>alog := async_stop (alog S)\<rparr>)"
| test: "wphase S = Test \<Longrightarrow>
    async_step fw S (S\<lparr>wphase := (if running (alog S) then Swap else Finished)\<rparr>)"
| swap: "wphase S = Swap \<Longrightarrow> async_step fw S (S\<lparr>alog := writer_swap (alog S), wphase := Output\<rparr>)"
| write_out: "wphase S = Output \<Longrightarrow> writer_output fw (alog S) = Inr a \<Longrightarrow>
    async_step fw S (S\<lparr>alog := a, wphase := Test,
      cut_off := (cut_off S \<or> length (buffers_to_write (alog S)) > 16)\<rparr>)"

inductive async_reachable :: "(nat \<Rightarrow> bytes \<Rightarrow> nat) \<Rightarrow> AsyncSystem \<Rightarrow> bool" for fw where
  start: "async_reachable fw init_AsyncSystem"
| step: "async_reachable fw S \<Longrightarrow> async_step fw S T \<Longrightarrow> async_reachable fw T"

subsection \<open>Invariant\<close>

definition big_buffer :: "LogBuffer option \<Rightarrow> bool" where
  "big_buffer p \<longleftrightarrow> (\<exists>b. p = Some b \<and> capacity b = kLargeBuffer \<and> log_inv b)"

definition empty_buffer :: "LogBuffer option \<Rightarrow> bool" where
  "empty_buffer p \<longleftrightarrow> (\<exists>b. p = Some b \<and> capacity b = kLargeBuffer \<and> log_data b = [])"

definition bytes_in :: "LogBuffer option list \<Rightarrow> bytes" where
  "bytes_in ps = concat (map (\<lambda>p. case p of None \<Rightarrow> [] | Some b \<Rightarrow> log_data b) ps)"

definition writer_inv :: "writer_phase \<Rightarrow> AsyncLogging \<Rightarrow> bool" where
  "writer_inv ph a \<longleftrightarrow>
     (if ph = Output
      then new_buffer1 a = None \<and> buffers_to_write a \<noteq> [] \<and> (\<forall>p \<in> set (buffers_to_write a). big_buffer p) \<and>
        (if new_buffer2 a = None then 2 \<le> length (buffers_to_write a) else empty_buffer (new_buffer2 a))
      else empty_buffer (new_buffer1 a) \<and> empty_buffer (new_buffer2 a) \<and> buffers_to_write a = [])"

definition front_inv :: "AsyncLogging \<Rightarrow> bool" where
  "front_inv a \<longleftrightarrow> big_buffer (current_buffer a) \<and> (\<forall>p \<in> set (buffers a). big_buffer p) \<and>
     (if next_buffer a = None then buffers a \<noteq> [] else empty_buffer (next_buffer a))"

definition all_bytes :: "AsyncLogging \<Rightarrow> bytes" where
  "all_bytes a = file_data (log_output a) @ bytes_in (buffers_to_write a) @ bytes_in (buffers a) @
     bytes_in [current_buffer a]"

definition async_inv :: "AsyncSystem \<Rightarrow> bool" where
  "async_inv S \<longleftrightarrow> front_inv (alog S) \<and> writer_inv (wphase S) (alog S)"

definition async_order :: "AsyncSystem \<Rightarrow> bool" where
  "async_order S \<longleftrightarrow> subseq (all_bytes (alog S)) (taken S) \<and>
     (\<not> cut_off S \<and> gave_up (log_output (alog S)) = 0 \<longrightarrow> all_bytes (alog S) = taken S)"

lemmas async_start_defs = new_AsyncLogging_def async_start_def writer_prologue_def

lemma bytes_in_simps [simp]:
  "bytes_in [] = []" "bytes_in (ps @ qs) = bytes_in ps @ bytes_in qs"
  "bytes_in (Some b # ps) = log_data b @ bytes_in ps"
  by (simp_all add: bytes_in_def)

lemma empty_is_big: "empty_buffer p \<Longrightarrow> big_buffer p"
  by (auto simp: empty_buffer_def big_buffer_def log_inv_def)

lemma empty_new: "empty_buffer (Some (new_LogBuffer kLargeBuffer))"
  by (simp add: empty_buffer_def new_LogBuffer_def)

lemma append_to_empty:
  assumes "empty_buffer (Some b)" and "length msg \<le> kSmallBuffer"
  shows "big_buffer (Some (log_append msg b))" and "log_data (log_append msg b) = msg"
  using assms by (auto simp: empty_buffer_def big_buffer_def log_append_def avial_def log_inv_def
      kSmallBuffer_def kLargeBuffer_def)

lemma append_to_big: "big_buffer (Some b) \<Longrightarrow> big_buffer (Some (log_append msg b))"
  by (auto simp: big_buffer_def log_append_def avial_def log_inv_def)

lemma async_append_ok:
  assumes "front_inv a" and "length msg \<le> kSmallBuffer"
  shows "\<exists>a'. async_append msg a = Inr a' \<and> front_inv a' \<and>
    all_bytes a' = all_bytes a @ (if dropped msg a then [] else msg) \<and>
    log_output a' = log_output a \<and> (\<forall>ph. writer_inv ph a' = writer_inv ph a)"
proof -
  obtain b where b: "current_buffer a = Some b" "big_buffer (Some b)"
    using assms(1) by (auto simp: front_inv_def big_buffer_def)
  show ?thesis
  proof (cases "avial b = 0")
    case False
    have "log_data (log_append msg b) = log_data b @ (if dropped msg a then [] else msg)"
      using False b(1) by (auto simp: log_append_def dropped_def)
    then show ?thesis using b False assms(1) append_to_big [OF b(2)]
      by (simp add: async_append_def front_inv_def writer_inv_def all_bytes_def
          del: not_None_eq not_Some_eq)
  next
    case True
    then have nd: "\<not> dropped msg a" using b(1) by (simp add: dropped_def)
    show ?thesis
    proof (cases "next_buffer a")
      case None
      then show ?thesis using b True nd assms(1) append_to_empty [OF empty_new assms(2)]
        by (simp add: async_append_def front_inv_def writer_inv_def all_bytes_def Let_def
            del: not_None_eq not_Some_eq)
    next
      case (Some nb)
      then have "empty_buffer (Some nb)" using assms(1) by (simp add: front_inv_def)
      then show ?thesis using b True nd assms(1) Some append_to_empty [OF _ assms(2)]
        by (simp add: async_append_def front_inv_def writer_inv_def all_bytes_def Let_def
            del: not_None_eq not_Some_eq)
    qed
  qed
qed

lemma writer_swap_ok:
  assumes "front_inv a" and "writer_inv Swap a"
  shows "front_inv (writer_swap a) \<and> writer_inv Output (writer_swap a) \<and> all_bytes (writer_swap a) = all_bytes a \<and>
    log_output (writer_swap a) = log_output a"
proof -
  obtain b1 where b1: "new_buffer1 a = Some b1" "log_data b1 = []"
    using assms(2) by (auto simp: writer_inv_def empty_buffer_def)
  have nb: "empty_buffer (new_buffer1 a)" "empty_buffer (new_buffer2 a)" "buffers_to_write a = []"
    using assms(2) by (simp_all add: writer_inv_def)
  then show ?thesis using assms(1) b1 empty_is_big [OF nb(1)]
    by (auto simp: writer_swap_def Let_def front_inv_def writer_inv_def all_bytes_def length_Suc_conv
        Suc_le_eq empty_buffer_def)
qed

text \<open>
  What of the buffers reaches the file: all of it, unless a call gave up, and then something is missing but
  nothing is out of order.
\<close>

definition written :: "FileWritter \<Rightarrow> bytes \<Rightarrow> FileWritter \<Rightarrow> bool" where
  "written f bs f' \<longleftrightarrow> gave_up f \<le> gave_up f' \<and>
     (\<exists>z. file_data f' = file_data f @ z \<and> subseq z bs \<and> (gave_up f' = gave_up f \<longrightarrow> z = bs))"

lemma written_append:
  assumes "written f bs g" and "written g cs h"
  shows "written f (bs @ cs) h"
proof -
  obtain y z where y: "file_data g = file_data f @ y" "subseq y bs" "gave_up g = gave_up f \<longrightarrow> y = bs"
    and z: "file_data h = file_data g @ z" "subseq z cs" "gave_up h = gave_up g \<longrightarrow> z = cs"
    using assms by (auto simp: written_def)
  have "gave_up f \<le> gave_up g" "gave_up g \<le> gave_up h" using assms by (simp_all add: written_def)
  then show ?thesis using y z unfolding written_def
    by (intro conjI exI [of _ "y @ z"]) (auto intro: list_emb_append_mono)
qed

lemma file_append_written:
  assumes "fwrite_ok fw" and "length line < 2 ^ 31"
  shows "written f line (file_append fw line f)"
proof -
  obtain k where "file_data (file_append fw line f) = file_data f @ take k line"
    "gave_up f \<le> gave_up (file_append fw line f)" "gave_up (file_append fw line f) = gave_up f \<longrightarrow> k = length line"
    using file_append_ok [OF assms, of f] by blast
  then show ?thesis unfolding written_def
    by (intro conjI exI [of _ "take k line"]) (auto intro: prefix_imp_subseq take_is_prefix)
qed

lemma write_buffers_ok:
  "\<forall>p \<in> set bs. big_buffer p \<Longrightarrow>
    \<exists>f'. write_buffers fw bs f = Inr f' \<and> (fwrite_ok fw \<longrightarrow> written f (bytes_in bs) f')"
proof (induction bs arbitrary: f)
  case Nil
  then show ?case by (simp add: written_def)
next
  case (Cons p bs)
  obtain b where b: "p = Some b" "length (log_data b) \<le> kLargeBuffer"
    using Cons.prems by (auto simp: big_buffer_def log_inv_def)
  then have "length (log_data b) < 2 ^ 31" by (simp add: kLargeBuffer_def)
  then have "fwrite_ok fw \<Longrightarrow> written f (log_data b) (file_append fw (log_data b) f)"
    by (rule file_append_written [rotated])
  then show ?case
    using Cons.IH [of "file_append fw (log_data b) f"] Cons.prems b by (auto intro: written_append)
qed

lemma bytes_in_take: "subseq (bytes_in (take n ps)) (bytes_in ps)"
proof -
  have "bytes_in ps = bytes_in (take n ps) @ bytes_in (drop n ps)"
    by (simp flip: bytes_in_simps(2))
  then show ?thesis by (simp add: prefix_imp_subseq)
qed

lemma refill_ok:
  assumes "v \<noteq> []" and "\<forall>p \<in> set v. big_buffer p"
  shows "\<exists>q. refill None v = Inr (q, butlast v) \<and> empty_buffer q"
proof -
  have "big_buffer (last v)" using assms by simp
  then show ?thesis using assms(1)
    by (auto simp: refill_def big_buffer_def empty_buffer_def log_reset_def)
qed

lemma writer_output_ok:
  assumes "front_inv a" and "writer_inv Output a"
  shows "\<exists>a'. writer_output fw a = Inr a' \<and> front_inv a' \<and> writer_inv Test a' \<and>
    (fwrite_ok fw \<longrightarrow> gave_up (log_output a) \<le> gave_up (log_output a') \<and> subseq (all_bytes a') (all_bytes a) \<and>
      (length (buffers_to_write a) \<le> 16 \<and> gave_up (log_output a') = gave_up (log_output a) \<longrightarrow>
         all_bytes a' = all_bytes a))"
proof -
  let ?v = "buffers_to_write a"
  define bs where "bs = (if length ?v > 16 then take 2 ?v else ?v)"
  define bs1 where "bs1 = (if length bs > 2 then take 2 bs else bs)"
  have v: "?v \<noteq> []" "\<forall>p \<in> set ?v. big_buffer p" "new_buffer1 a = None"
    "if new_buffer2 a = None then 2 \<le> length ?v else empty_buffer (new_buffer2 a)"
    using assms(2) by (simp_all add: writer_inv_def)
  have bs: "bs \<noteq> []" "\<forall>p \<in> set bs. big_buffer p" "2 \<le> length ?v \<longrightarrow> 2 \<le> length bs"
    using v(1,2) by (auto simp: bs_def dest: in_set_takeD)
  have bs1: "bs1 \<noteq> []" "\<forall>p \<in> set bs1. big_buffer p" "2 \<le> length bs \<longrightarrow> length bs1 = 2"
    using bs(1,2) by (auto simp: bs1_def dest: in_set_takeD)
  obtain out where out: "write_buffers fw bs (log_output a) = Inr out"
    "fwrite_ok fw \<longrightarrow> written (log_output a) (bytes_in bs) out"
    using write_buffers_ok [OF bs(2)] by blast
  obtain nb1 where nb1: "refill (new_buffer1 a) bs1 = Inr (nb1, butlast bs1)" "empty_buffer nb1"
    using refill_ok [OF bs1(1,2)] v(3) by auto
  obtain nb2 bs3 where nb2: "refill (new_buffer2 a) (butlast bs1) = Inr (nb2, bs3)" "empty_buffer nb2"
  proof (cases "new_buffer2 a")
    case None
    then have "length bs1 = 2" using v(4) bs(3) bs1(3) by simp
    then have "butlast bs1 \<noteq> []" by (cases bs1) auto
    then show ?thesis using refill_ok [of "butlast bs1"] bs1(2) None that by (auto dest: in_set_butlastD)
  next
    case (Some b)
    then show ?thesis using v(4) that by (simp add: refill_def)
  qed
  let ?a = "a\<lparr>new_buffer1 := nb1, new_buffer2 := nb2, buffers_to_write := [], log_output := out\<rparr>"
  have "writer_output fw a = Inr ?a"
    using out(1) nb1(1) nb2(1) unfolding writer_output_def Let_def bs_def [symmetric] bs1_def [symmetric] by simp
  moreover have "gave_up (log_output a) \<le> gave_up out \<and> subseq (all_bytes ?a) (all_bytes a) \<and>
      (length ?v \<le> 16 \<and> gave_up out = gave_up (log_output a) \<longrightarrow> all_bytes ?a = all_bytes a)" if fw: "fwrite_ok fw"
  proof -
    obtain z where z: "file_data out = file_data (log_output a) @ z" "subseq z (bytes_in bs)"
      "gave_up (log_output a) \<le> gave_up out" "gave_up out = gave_up (log_output a) \<longrightarrow> z = bytes_in bs"
      using out(2) fw by (auto simp: written_def)
    have "subseq (bytes_in bs) (bytes_in ?v)" by (simp add: bs_def bytes_in_take)
    with z(2) have "subseq z (bytes_in ?v)" by (rule subseq_order.trans)
    moreover have "length ?v \<le> 16 \<Longrightarrow> bs = ?v" by (simp add: bs_def)
    ultimately show ?thesis using z by (auto simp: all_bytes_def intro: list_emb_append_mono)
  qed
  ultimately show ?thesis using assms(1) nb1(2) nb2(2)
    by (intro exI [of _ ?a]) (auto simp: front_inv_def writer_inv_def)
qed

lemma async_step_inv [inv_rules]:
  assumes "async_step fw S T" and "async_inv S"
  shows "async_inv T"
  using assms(1)
proof (cases rule: async_step.cases)
  case (append msg a)
  then show ?thesis using async_append_ok [of "alog S" msg] assms(2) by (auto simp: async_inv_def)
next
  case stop
  then show ?thesis using assms(2) by (simp add: async_inv_def async_stop_def front_inv_def writer_inv_def)
next
  case test
  then show ?thesis using assms(2) by (simp add: async_inv_def writer_inv_def)
next
  case swap
  then show ?thesis using writer_swap_ok [of "alog S"] assms(2) by (simp add: async_inv_def)
next
  case (write_out a)
  then show ?thesis using writer_output_ok [of "alog S" fw] assms(2) by (auto simp: async_inv_def)
qed

lemma reachable_async_inv: "async_reachable fw S \<Longrightarrow> async_inv S"
proof (induction rule: async_reachable.induct)
  case start
  show ?case
    using empty_new by (simp add: async_inv_def init_AsyncSystem_def async_start_defs front_inv_def
        writer_inv_def empty_is_big)
qed (rule async_step_inv)

lemma async_step_order:
  assumes "async_step fw S T" and "fwrite_ok fw" and "async_inv S" and "async_order S"
  shows "async_order T"
  using assms(1)
proof (cases rule: async_step.cases)
  case (append msg a)
  then show ?thesis using async_append_ok [of "alog S" msg] assms(3,4)
    by (auto simp: async_inv_def async_order_def intro: list_emb_append_mono)
next
  case stop
  then show ?thesis using assms(4) by (simp add: async_order_def async_stop_def all_bytes_def)
next
  case test
  then show ?thesis using assms(4) by (simp add: async_order_def)
next
  case swap
  then show ?thesis using writer_swap_ok [of "alog S"] assms(3,4) by (simp add: async_inv_def async_order_def)
next
  case (write_out a)
  then have out: "gave_up (log_output (alog S)) \<le> gave_up (log_output a)" "subseq (all_bytes a) (all_bytes (alog S))"
    "length (buffers_to_write (alog S)) \<le> 16 \<Longrightarrow> gave_up (log_output a) = gave_up (log_output (alog S)) \<Longrightarrow>
      all_bytes a = all_bytes (alog S)"
    using writer_output_ok [of "alog S" fw] assms(2,3) by (auto simp: async_inv_def)
  have "subseq (all_bytes (alog S)) (taken S)" using assms(4) by (simp add: async_order_def)
  with out(2) have "subseq (all_bytes a) (taken S)" by (rule subseq_order.trans)
  moreover have "all_bytes a = taken S"
    if "\<not> cut_off S" "\<not> 16 < length (buffers_to_write (alog S))" "gave_up (log_output a) = 0"
    using that out(1,3) assms(4) by (simp add: async_order_def)
  ultimately show ?thesis using write_out by (simp add: async_order_def)
qed

lemma reachable_async_order: "async_reachable fw S \<Longrightarrow> fwrite_ok fw \<Longrightarrow> async_order S"
proof (induction rule: async_reachable.induct)
  case start
  show ?case
    by (simp add: async_order_def init_AsyncSystem_def async_start_defs all_bytes_def new_FileWritter_def)
      (simp add: new_LogBuffer_def)
next
  case (step S T)
  then show ?case using async_step_order reachable_async_inv by blast
qed

subsection \<open>Properties\<close>

text \<open>
  C26: In every reachable state of the logger, whatever the interleaving of appenders, \<open>stop\<close> and the
  writer thread, \<open>append\<close> finds a current buffer, and the writer in its output phase never dereferences
  a moved-from pointer nor pops from an empty vector while it takes its two spare buffers back.
\<close>

theorem async_never_faults:
  assumes "async_reachable fw S" and "length msg \<le> kSmallBuffer"
  shows "(\<exists>a. async_append msg (alog S) = Inr a) \<and>
    (wphase S \<noteq> Output \<or> (\<exists>a. writer_output fw (alog S) = Inr a))"
proof -
  have inv: "async_inv S" using assms(1) by (rule reachable_async_inv)
  then have "wphase S = Output \<Longrightarrow> \<exists>a. writer_output fw (alog S) = Inr a"
    using writer_output_ok [of "alog S" fw] by (auto simp: async_inv_def)
  then show ?thesis using inv async_append_ok [OF _ assms(2), of "alog S"] by (auto simp: async_inv_def)
qed

text \<open>
  C14: The bytes in the file followed by those the writer holds, the full buffers and the current buffer are,
  in order, bytes of the messages that were taken: nothing is duplicated or reordered, whatever \<open>fwrite\<close>
  returns. They are all of them, so that nothing is lost either, as long as no round threw buffers away
  because there were more than 16 and no call of \<open>FileWritter::append\<close> gave up because \<open>fwrite\<close> wrote nothing.
\<close>

theorem async_log_in_order:
  assumes "async_reachable fw S" and "fwrite_ok fw"
  shows "subseq (file_data (log_output (alog S)) @ bytes_in (buffers_to_write (alog S)) @
      bytes_in (buffers (alog S)) @ bytes_in [current_buffer (alog S)]) (taken S) \<and>
    (\<not> cut_off S \<and> gave_up (log_output (alog S)) = 0 \<longrightarrow>
      file_data (log_output (alog S)) @ bytes_in (buffers_to_write (alog S)) @
      bytes_in (buffers (alog S)) @ bytes_in [current_buffer (alog S)] = taken S)"
  using reachable_async_order [OF assms] by (simp add: async_order_def all_bytes_def)

text \<open>A finished writer never touches the file again.\<close>

lemma finished_is_final:
  "async_step fw S T \<Longrightarrow> wphase S = Finished \<Longrightarrow>
    wphase T = Finished \<and> log_output (alog T) = log_output (alog S)"
  by (erule async_step.cases)
    (auto simp: async_append_def async_stop_def Let_def split: option.splits if_splits)

text \<open>
  Messages appended shortly before \<open>stop\<close> are lost: the writer leaves its loop on \<open>running_\<close> without
  a last round, and the current buffer is destroyed with the object.
\<close>

theorem stop_loses_pending_messages:
  assumes "msg \<noteq> []" and "length msg \<le> kSmallBuffer"
  shows "\<exists>S. async_reachable fw S \<and> wphase S = Finished \<and> taken S = msg \<and>
    file_data (log_output (alog S)) = [] \<and> bytes_in [current_buffer (alog S)] = msg"
proof -
  let ?a = "(async_start new_AsyncLogging)\<lparr>current_buffer := Some (log_append msg (new_LogBuffer kLargeBuffer))\<rparr>"
  define A where "A = init_AsyncSystem\<lparr>alog := ?a, taken := msg\<rparr>"
  define B where "B = A\<lparr>alog := async_stop (alog A)\<rparr>"
  define C where "C = B\<lparr>wphase := Finished\<rparr>"
  have app: "async_append msg (async_start new_AsyncLogging) = Inr ?a" and nd: "\<not> dropped msg (async_start new_AsyncLogging)"
    using assms by (simp_all add: async_append_def async_start_defs avial_def new_LogBuffer_def
        dropped_def kLargeBuffer_def kSmallBuffer_def)
  have "async_reachable fw A"
    using async_reachable.step [OF async_reachable.start async_step.append [OF assms(2), of init_AsyncSystem ?a]]
      app nd by (simp add: A_def init_AsyncSystem_def)
  then have "async_reachable fw B" unfolding B_def by (rule async_reachable.step) (rule async_step.stop)
  moreover have "async_step fw B C"
    using async_step.test [of B fw] by (simp add: C_def B_def A_def init_AsyncSystem_def async_stop_def)
  ultimately have "async_reachable fw C" by (rule async_reachable.step)
  moreover have "log_data (log_append msg (new_LogBuffer kLargeBuffer)) = msg"
    using append_to_empty [OF empty_new assms(2)] by simp
  ultimately show ?thesis
    by (intro exI [of _ C]) (simp add: C_def B_def A_def init_AsyncSystem_def async_stop_def
        async_start_defs new_FileWritter_def)
qed

text \<open>A message that finds the current buffer neither full nor roomy enough disappears.\<close>

lemma async_append_drops:
  assumes "current_buffer a = Some b" and "avial b \<noteq> 0" and "avial b < length msg"
  shows "\<exists>a'. async_append msg a = Inr a' \<and> all_bytes a' = all_bytes a"
  using assms by (simp add: async_append_def log_append_def all_bytes_def)

subsection \<open>Witnesses\<close>

definition full_fwrite :: "nat \<Rightarrow> bytes \<Rightarrow> nat" where
  "full_fwrite k d = length d"

lemma full_fwrite_ok: "fwrite_ok full_fwrite"
  by (simp add: fwrite_ok_def full_fwrite_def)

lemma full_file_append:
  assumes "length line < 2 ^ 31"
  shows "gave_up (file_append full_fwrite line f) = gave_up f"
proof -
  have "write_rest full_fwrite line n 0 g = g" for n g by (subst write_rest.simps) simp
  moreover have "c_int 0 = 0" by (simp add: c_int_id)
  ultimately show ?thesis by (simp add: file_append_def do_fwrite_def full_fwrite_def Let_def)
qed

lemma full_write_buffers:
  "\<forall>p \<in> set bs. big_buffer p \<Longrightarrow> write_buffers full_fwrite bs f = Inr f' \<Longrightarrow> gave_up f' = gave_up f"
proof (induction bs arbitrary: f)
  case (Cons p bs)
  obtain b where b: "p = Some b" "length (log_data b) < 2 ^ 31"
    using Cons.prems(1) by (auto simp: big_buffer_def log_inv_def kLargeBuffer_def)
  then show ?case using Cons.IH [of "file_append full_fwrite (log_data b) f"] Cons.prems full_file_append [OF b(2)] by simp
qed simp

lemma full_writer_output:
  assumes "\<forall>p \<in> set (buffers_to_write a). big_buffer p" and "writer_output full_fwrite a = Inr a'"
  shows "gave_up (log_output a') = gave_up (log_output a)"
  using assms full_write_buffers
  by (fastforce simp: writer_output_def Let_def dest: in_set_takeD split: sum.splits if_splits)

text \<open>A run: a message is appended, the writer goes round once and writes it.\<close>

definition demo_async_1 :: AsyncSystem where
  "demo_async_1 = (case async_append ''ab'' (alog init_AsyncSystem) of
     Inr a \<Rightarrow> init_AsyncSystem\<lparr>alog := a, taken := ''ab''\<rparr>)"

definition demo_async_2 :: AsyncSystem where
  "demo_async_2 = demo_async_1\<lparr>alog := writer_swap (alog demo_async_1), wphase := Output\<rparr>"

definition demo_async_3 :: AsyncSystem where
  "demo_async_3 = (case writer_output full_fwrite (alog demo_async_2) of
     Inr a \<Rightarrow> demo_async_2\<lparr>alog := a, wphase := Test, cut_off := False\<rparr>)"

lemmas demo_async_defs = init_AsyncSystem_def async_start_defs async_append_def avial_def
  new_LogBuffer_def kLargeBuffer_def kSmallBuffer_def log_append_def

lemma demo_async_1: "async_reachable full_fwrite demo_async_1"
proof -
  obtain a where a: "async_append ''ab'' (alog init_AsyncSystem) = Inr a"
    by (simp add: demo_async_defs)
  have "\<not> dropped ''ab'' (alog init_AsyncSystem)" by (simp add: dropped_def demo_async_defs)
  then have "async_step full_fwrite init_AsyncSystem demo_async_1"
    using async_step.append [of "''ab''" init_AsyncSystem a full_fwrite] a
    by (simp add: demo_async_1_def kSmallBuffer_def) (simp add: init_AsyncSystem_def)
  with async_reachable.start show ?thesis by (rule async_reachable.step)
qed

lemma demo_async_2: "async_reachable full_fwrite demo_async_2"
proof -
  have "wphase demo_async_1 = Test" "running (alog demo_async_1)"
    by (simp_all add: demo_async_1_def demo_async_defs)
  then have "async_step full_fwrite demo_async_1 (demo_async_1\<lparr>wphase := Swap\<rparr>)"
    using async_step.test [of demo_async_1 full_fwrite] by simp
  with demo_async_1 have "async_reachable full_fwrite (demo_async_1\<lparr>wphase := Swap\<rparr>)"
    by (rule async_reachable.step)
  moreover have "async_step full_fwrite (demo_async_1\<lparr>wphase := Swap\<rparr>) demo_async_2"
    using async_step.swap [of "demo_async_1\<lparr>wphase := Swap\<rparr>" full_fwrite] by (simp add: demo_async_2_def)
  ultimately show ?thesis by (rule async_reachable.step)
qed

lemma async_never_faults_witness:
  "\<exists>a. writer_output full_fwrite (alog demo_async_2) = Inr a"
  using async_never_faults [OF demo_async_2, of "[]"]
  by (simp add: demo_async_2_def kSmallBuffer_def)

lemma demo_async_3: "async_reachable full_fwrite demo_async_3"
proof -
  have "wphase demo_async_2 = Output" by (simp add: demo_async_2_def)
  moreover have "writer_inv Output (alog demo_async_2)" "front_inv (alog demo_async_2)"
    using reachable_async_inv [OF demo_async_2] calculation by (simp_all add: async_inv_def)
  then obtain a where a: "writer_output full_fwrite (alog demo_async_2) = Inr a"
    using writer_output_ok by blast
  moreover have "\<not> (cut_off demo_async_2 \<or> length (buffers_to_write (alog demo_async_2)) > 16)"
    by (simp add: demo_async_2_def demo_async_1_def demo_async_defs writer_swap_def Let_def)
  ultimately have "async_step full_fwrite demo_async_2 demo_async_3"
    using async_step.write_out [of demo_async_2 full_fwrite a] by (simp add: demo_async_3_def)
  with demo_async_2 show ?thesis by (rule async_reachable.step)
qed

lemma async_log_in_order_witness:
  "file_data (log_output (alog demo_async_3)) @ bytes_in (buffers_to_write (alog demo_async_3)) @
    bytes_in (buffers (alog demo_async_3)) @ bytes_in [current_buffer (alog demo_async_3)] = ''ab''"
proof -
  have inv: "front_inv (alog demo_async_2)" "writer_inv Output (alog demo_async_2)"
    using reachable_async_inv [OF demo_async_2] by (simp_all add: async_inv_def demo_async_2_def)
  then obtain a where a: "writer_output full_fwrite (alog demo_async_2) = Inr a" using writer_output_ok by blast
  have "gave_up (log_output (alog demo_async_2)) = 0"
    by (simp add: demo_async_2_def demo_async_1_def demo_async_defs new_FileWritter_def writer_swap_def Let_def)
  then have up: "gave_up (log_output (alog demo_async_3)) = 0"
    using full_writer_output [OF _ a] inv(2) a by (simp add: demo_async_3_def writer_inv_def)
  from a have eq: "\<not> cut_off demo_async_3" "taken demo_async_3 = ''ab''"
    by (simp_all add: demo_async_3_def) (simp add: demo_async_2_def demo_async_1_def demo_async_defs)
  show ?thesis using async_log_in_order [OF demo_async_3 full_fwrite_ok] eq up by simp
qed

lemma stop_loses_pending_messages_witness:
  "\<exists>S. async_reachable full_fwrite S \<and> wphase S = Finished \<and> taken S = ''lost'' \<and>
    file_data (log_output (alog S)) = []"
  using stop_loses_pending_messages [of "''lost''" full_fwrite] by (auto simp: kSmallBuffer_def)

end
