(* ===== verification/Log_Output.thy ===== *)
theory Log_Output
  imports Log_Stream Log_Async
begin

text \<open>
  The global state of \<^verbatim>\<open>Log/logger.cc\<close> and the macros of \<^verbatim>\<open>Log/logger.h\<close>: where a finished line goes and
  which statements are executed. \<open>'s\<close> is the state behind the output function: the bytes of the standard
  output for the default one, the asynchronous log when that is installed.
\<close>

subsection \<open>Levels\<close>

fun level_number :: "LogLevel \<Rightarrow> nat" where
  "level_number DEBUG = 0"
| "level_number INFO = 1"
| "level_number WARN = 2"
| "level_number ERROR = 3"
| "level_number FATAL = 4"

lemma level_number_inject: "level_number a = level_number b \<longleftrightarrow> a = b"
  by (cases a; cases b) simp_all

instantiation LogLevel :: linorder
begin

definition less_eq_LogLevel :: "LogLevel \<Rightarrow> LogLevel \<Rightarrow> bool" where
  "a \<le> b \<longleftrightarrow> level_number a \<le> level_number b"

definition less_LogLevel :: "LogLevel \<Rightarrow> LogLevel \<Rightarrow> bool" where
  "a < b \<longleftrightarrow> level_number a < level_number b"

instance
  by standard (auto simp: less_eq_LogLevel_def less_LogLevel_def level_number_inject)

end

subsection \<open>Globals and statements\<close>

record 's LogGlobals =
  g_log_level :: LogLevel
  g_output_func :: "LogBuffer \<Rightarrow> 's \<Rightarrow> fault + 's"

text \<open>\<open>fwrite\<close> to the standard output takes the first \<open>w\<close> bytes; its result is not used.\<close>

definition defaultOutPut :: "(bytes \<Rightarrow> nat) \<Rightarrow> LogBuffer \<Rightarrow> bytes \<Rightarrow> fault + bytes" where
  "defaultOutPut w buffer0 out = Inr (out @ take (w (log_data buffer0)) (log_data buffer0))"

definition initial_globals :: "(bytes \<Rightarrow> nat) \<Rightarrow> bytes LogGlobals" where
  "initial_globals w = \<lparr>g_log_level = INFO, g_output_func = defaultOutPut w\<rparr>"

definition setOutputFunc :: "(LogBuffer \<Rightarrow> 't \<Rightarrow> fault + 't) \<Rightarrow> 's LogGlobals \<Rightarrow> 't LogGlobals" where
  "setOutputFunc f G = \<lparr>g_log_level = g_log_level G, g_output_func = f\<rparr>"

definition setLogLevel :: "LogLevel \<Rightarrow> 's LogGlobals \<Rightarrow> 's LogGlobals" where
  "setLogLevel l G = G\<lparr>g_log_level := l\<rparr>"

definition loglevel :: "'s LogGlobals \<Rightarrow> LogLevel" where
  "loglevel G = g_log_level G"

text \<open>Where and when a statement is executed, and what it prints.\<close>

record log_site =
  site_time :: TimeStamp
  site_tid :: nat
  site_file :: string
  site_line :: int
  site_func :: string
  site_items :: "log_item list"

text \<open>A \<open>Logger\<close> object is built, takes the items and hands its buffer over when it is destroyed.\<close>

definition log_object ::
  "(real \<Rightarrow> string) \<Rightarrow> (int \<Rightarrow> tm) \<Rightarrow> 's LogGlobals \<Rightarrow> LogLevel \<Rightarrow> log_site \<Rightarrow> 's \<Rightarrow> fault + 's" where
  "log_object fmt_g localtime G level c s =
     (case log_line fmt_g localtime (site_time c) (site_tid c) level (site_file c) (site_line c) (site_func c)
             (site_items c) of
        Inl f \<Rightarrow> Inl f
      | Inr b \<Rightarrow> g_output_func G b s)"

definition LOG_INFO ::
  "(real \<Rightarrow> string) \<Rightarrow> (int \<Rightarrow> tm) \<Rightarrow> 's LogGlobals \<Rightarrow> log_site \<Rightarrow> 's \<Rightarrow> fault + 's" where
  "LOG_INFO fmt_g localtime G c s =
     (if loglevel G \<le> INFO then log_object fmt_g localtime G INFO c s else Inr s)"

definition LOG_WARN ::
  "(real \<Rightarrow> string) \<Rightarrow> (int \<Rightarrow> tm) \<Rightarrow> 's LogGlobals \<Rightarrow> log_site \<Rightarrow> 's \<Rightarrow> fault + 's" where
  "LOG_WARN fmt_g localtime G c s = log_object fmt_g localtime G WARN c s"

definition LOG_ERROR ::
  "(real \<Rightarrow> string) \<Rightarrow> (int \<Rightarrow> tm) \<Rightarrow> 's LogGlobals \<Rightarrow> log_site \<Rightarrow> 's \<Rightarrow> fault + 's" where
  "LOG_ERROR fmt_g localtime G c s = log_object fmt_g localtime G ERROR c s"

text \<open>
  An output function that passes lines to the asynchronous log, \<open>append(buffer.data(), buffer.len())\<close>, as the one
  that is commented out in \<^verbatim>\<open>Main.cc\<close>.
\<close>

definition asyncOutputFunc :: "LogBuffer \<Rightarrow> AsyncLogging \<Rightarrow> fault + AsyncLogging" where
  "asyncOutputFunc buffer0 a = async_append (log_data buffer0) a"

subsection \<open>What a line holds\<close>

text \<open>
  The digits of an integer that is not negative are its decimal number; of a negative one the code prints each
  digit \<open>d\<close> as the character \<open>d\<close> places below \<open>0\<close> (\<open>mirror\<close>), so that -5 comes out as minus and plus.
\<close>

definition int_text :: "int \<Rightarrow> bytes" where
  "int_text i = (if 0 \<le> i then dec (nat i) else CHR ''-'' # map mirror (dec (nat (- i))))"

fun item_text :: "(real \<Rightarrow> string) \<Rightarrow> log_item \<Rightarrow> bytes" where
  "item_text g (LogBool b) = (if b then ''1'' else ''0'')"
| "item_text g (LogInt i) = int_text i"
| "item_text g (LogDouble d) = g d"
| "item_text g (LogChar c) = [c]"
| "item_text g (LogCStr s) = (case s of Some t \<Rightarrow> t | None \<Rightarrow> ''(null)'')"
| "item_text g (LogString s) = s"
| "item_text g (LogBuf v) = log_data v"

definition items_text :: "(real \<Rightarrow> string) \<Rightarrow> log_item list \<Rightarrow> bytes" where
  "items_text g xs = concat (map (item_text g) xs)"

lemma items_text_simps [simp]:
  "items_text g [] = []" "items_text g (x # xs) = item_text g x @ items_text g xs"
  "items_text g (xs @ ys) = items_text g xs @ items_text g ys"
  by (simp_all add: items_text_def)

lemma convert_text: "convert i = int_text i"
  by (simp add: int_text_def convert_nonneg convert_neg)

lemma convert_bit: "convert (if b then 1 else 0) = (if b then ''1'' else ''0'')"
  by (cases b) (simp_all add: convert_nonneg, code_simp+)

text \<open>
  The free bytes an item asks for: a number wants 32, however short it is, everything else its length. What
  finds less is left out, and the next item is tried. \<open>fitted\<close> is what this makes of a list of items with \<open>n\<close>
  bytes free, and \<open>all_fit\<close> says that nothing is left out.
\<close>

fun room :: "(real \<Rightarrow> string) \<Rightarrow> log_item \<Rightarrow> nat" where
  "room g (LogBool b) = 32"
| "room g (LogInt i) = 32"
| "room g x = length (item_text g x)"

fun fitted :: "(real \<Rightarrow> string) \<Rightarrow> log_item list \<Rightarrow> nat \<Rightarrow> bytes" where
  "fitted g [] n = []"
| "fitted g (x # xs) n =
     (if room g x \<le> n then item_text g x @ fitted g xs (n - length (item_text g x)) else fitted g xs n)"

fun all_fit :: "(real \<Rightarrow> string) \<Rightarrow> log_item list \<Rightarrow> nat \<Rightarrow> bool" where
  "all_fit g [] n = True"
| "all_fit g (x # xs) n = (room g x \<le> n \<and> all_fit g xs (n - length (item_text g x)))"

lemma fitted_all_fit: "all_fit g xs n \<Longrightarrow> fitted g xs n = items_text g xs"
  by (induction xs arbitrary: n) simp_all

lemma log_put_text:
  assumes "item_ok x" and "log_inv b"
  shows "log_put g x b =
    Inr (if room g x \<le> avial b then b\<lparr>log_data := log_data b @ item_text g x\<rparr> else b)"
proof -
  have num: "formatInterger i b = Inr (if 32 \<le> avial b then b\<lparr>log_data := log_data b @ int_text i\<rparr> else b)"
    if "- (2 ^ 63) \<le> i" "i < 2 ^ 64" for i
    using length_convert [OF that] by (simp add: formatInterger_def kMaxNumericSize_def convert_text)
  show ?thesis
  proof (cases x)
    case (LogBool v)
    then show ?thesis using num [of "if v then 1 else 0"] convert_bit [of v] by (simp add: convert_text)
  next
    case (LogInt i)
    then show ?thesis using num [of i] assms(1) by (simp add: item_ok_def)
  qed (simp_all add: log_append_def split: option.splits)
qed

lemma room_covers: "item_ok x \<Longrightarrow> length (item_text g x) \<le> room g x"
proof (cases x)
  case (LogInt i)
  moreover assume "item_ok x"
  ultimately show ?thesis using length_convert [of i] by (simp add: item_ok_def convert_text)
qed simp_all

lemma log_puts_text:
  "\<forall>x \<in> set xs. item_ok x \<Longrightarrow> log_inv b \<Longrightarrow>
     log_puts g xs b = Inr (b\<lparr>log_data := log_data b @ fitted g xs (avial b)\<rparr>)"
proof (induction xs arbitrary: b)
  case (Cons x xs)
  let ?b = "if room g x \<le> avial b then b\<lparr>log_data := log_data b @ item_text g x\<rparr> else b"
  have put: "log_put g x b = Inr ?b" using Cons.prems by (intro log_put_text) simp_all
  have "length (item_text g x) \<le> room g x" using Cons.prems(1) by (simp add: room_covers)
  then have "log_inv ?b" using Cons.prems(2) by (auto simp: log_inv_def avial_def)
  then have "log_puts g xs ?b = Inr (?b\<lparr>log_data := log_data ?b @ fitted g xs (avial ?b)\<rparr>)"
    using Cons.prems(1) by (intro Cons.IH) simp_all
  then show ?case using put by (simp add: avial_def diff_diff_left)
qed simp

text \<open>What the constructor writes before the user's items.\<close>

definition line_prefix :: "(int \<Rightarrow> tm) \<Rightarrow> LogLevel \<Rightarrow> log_site \<Rightarrow> bytes" where
  "line_prefix localtime level c =
     items_text (\<lambda>_. []) (forattedTime localtime (site_time c) @ getThreadID (site_tid c)) @ LogLevelName level @
     SourceFile (site_file c) @ '':'' @ int_text (site_line c) @ ''->('' @ site_func c @ ''):''"

definition int_ok :: "int \<Rightarrow> bool" where
  "int_ok i \<longleftrightarrow> - (2 ^ 63) \<le> i \<and> i < 2 ^ 64"

definition site_line_of :: "(real \<Rightarrow> string) \<Rightarrow> (int \<Rightarrow> tm) \<Rightarrow> LogLevel \<Rightarrow> log_site \<Rightarrow> fault + LogBuffer" where
  "site_line_of g localtime level c =
     log_line g localtime (site_time c) (site_tid c) level (site_file c) (site_line c) (site_func c) (site_items c)"

text \<open>Everything that goes into the buffer, in order.\<close>

definition line_items :: "(int \<Rightarrow> tm) \<Rightarrow> LogLevel \<Rightarrow> log_site \<Rightarrow> log_item list" where
  "line_items localtime level c =
     forattedTime localtime (site_time c) @ getThreadID (site_tid c) @ [LogString (LogLevelName level)] @
     [LogString (SourceFile (site_file c)), LogChar (CHR '':''), LogInt (site_line c), LogCStr (Some ''->'')] @
     [LogCStr (Some ''(''), LogCStr (Some (site_func c)), LogCStr (Some ''):'')] @
     site_items c @ [LogCStr (Some [CHR 0x0A])]"

lemma line_items_text:
  "items_text g (line_items localtime level c) = line_prefix localtime level c @ items_text g (site_items c) @ [CHR 0x0A]"
  by (simp add: line_items_def line_prefix_def forattedTime_def getThreadID_def Let_def)

lemma line_items_ok:
  "\<forall>x \<in> set (site_items c). item_ok x \<Longrightarrow> int_ok (site_line c) \<Longrightarrow> \<forall>x \<in> set (line_items localtime level c). item_ok x"
  by (auto simp: line_items_def item_ok_def int_ok_def forattedTime_def getThreadID_def Let_def)

lemma site_line_text:
  assumes "\<forall>x \<in> set (site_items c). item_ok x" and "int_ok (site_line c)"
  shows "site_line_of g localtime level c =
    Inr \<lparr>capacity = kSmallBuffer, log_data = fitted g (line_items localtime level c) kSmallBuffer\<rparr>"
  using log_puts_text [OF line_items_ok [OF assms] log_inv_intros(1) [of kSmallBuffer], of g localtime level]
  by (simp add: site_line_of_def log_line_def line_items_def new_LogBuffer_def avial_def)

text \<open>The constructors without a function name: the same line without its parenthesis, and never more than a buffer.\<close>

lemma log_line_level_bounded:
  assumes "\<forall>x \<in> set items. item_ok x" and "int_ok line0"
  shows "\<exists>b. log_line_level g localtime t tid level file line0 items = Inr b \<and> length (log_data b) \<le> kSmallBuffer"
proof -
  let ?xs = "forattedTime localtime t @ getThreadID tid @ [LogString (LogLevelName level)] @
        [LogString (SourceFile file), LogChar (CHR '':''), LogInt line0, LogCStr (Some ''->'')] @
        items @ [LogCStr (Some [CHR 0x0A])]"
  have "\<forall>x \<in> set ?xs. item_ok x"
    using assms by (auto simp: item_ok_def int_ok_def forattedTime_def getThreadID_def Let_def)
  from log_puts_ok [OF log_inv_intros(1) [of kSmallBuffer] this, of g] show ?thesis
    unfolding log_line_level_def log_inv_def by (auto simp: new_LogBuffer_def)
qed

lemma site_line_bounded:
  assumes "\<forall>x \<in> set (site_items c). item_ok x" and "int_ok (site_line c)"
  shows "\<exists>b. site_line_of g localtime level c = Inr b \<and> length (log_data b) \<le> kSmallBuffer"
  unfolding site_line_of_def log_line_with_function
  by (rule log_line_level_bounded) (use assms in \<open>auto simp: item_ok_def\<close>)

subsection \<open>The interface of an output function\<close>

text \<open>
  What a statement needs of the function behind \<open>g_output_func\<close>: it takes every line that fits a line buffer,
  and appends the line or a first part of it to what was written before.
\<close>

locale log_sink =
  fixes sink :: "LogBuffer \<Rightarrow> 's \<Rightarrow> fault + 's"
    and invar :: "'s \<Rightarrow> bool"
    and written :: "'s \<Rightarrow> bytes"
  assumes sink_law: "invar s \<Longrightarrow> length (log_data b) \<le> kSmallBuffer \<Longrightarrow>
    \<exists>s' k. sink b s = Inr s' \<and> invar s' \<and> written s' = written s @ take k (log_data b)"

text \<open>A sequence of statements, each with the level of its macro.\<close>

fun log_statement ::
  "(real \<Rightarrow> string) \<Rightarrow> (int \<Rightarrow> tm) \<Rightarrow> 's LogGlobals \<Rightarrow> LogLevel \<times> log_site \<Rightarrow> 's \<Rightarrow> fault + 's" where
  "log_statement g localtime G (level, c) s =
     (if level = INFO then LOG_INFO g localtime G c s else log_object g localtime G level c s)"

fun log_statements ::
  "(real \<Rightarrow> string) \<Rightarrow> (int \<Rightarrow> tm) \<Rightarrow> 's LogGlobals \<Rightarrow> (LogLevel \<times> log_site) list \<Rightarrow> 's \<Rightarrow> fault + 's" where
  "log_statements g localtime G [] s = Inr s"
| "log_statements g localtime G (x # xs) s =
     (case log_statement g localtime G x s of Inl f \<Rightarrow> Inl f | Inr s1 \<Rightarrow> log_statements g localtime G xs s1)"

definition site_ok :: "log_site \<Rightarrow> bool" where
  "site_ok c \<longleftrightarrow> (\<forall>x \<in> set (site_items c). item_ok x) \<and> int_ok (site_line c)"

context log_sink
begin

lemma statement_law:
  assumes "invar s" and "site_ok (snd x)" and "g_output_func G = sink"
  shows "\<exists>s' t. log_statement g localtime G x s = Inr s' \<and> invar s' \<and> written s' = written s @ t"
proof -
  obtain level c where x: "x = (level, c)" by (cases x)
  obtain b where b: "site_line_of g localtime level c = Inr b" "length (log_data b) \<le> kSmallBuffer"
    using site_line_bounded [of c g localtime level] assms(2) x by (auto simp: site_ok_def)
  obtain s' k where s': "sink b s = Inr s'" "invar s'" "written s' = written s @ take k (log_data b)"
    using sink_law [OF assms(1) b(2)] by blast
  have "log_object g localtime G level c s = Inr s'"
    using b(1) s'(1) assms(3) by (simp add: log_object_def site_line_of_def)
  then show ?thesis using s' assms(1) x by (cases "level = INFO") (auto simp: LOG_INFO_def)
qed

lemma statements_law:
  "invar s \<Longrightarrow> \<forall>x \<in> set xs. site_ok (snd x) \<Longrightarrow> g_output_func G = sink \<Longrightarrow>
     \<exists>s' t. log_statements g localtime G xs s = Inr s' \<and> invar s' \<and> written s' = written s @ t"
proof (induction xs arbitrary: s)
  case (Cons x xs)
  obtain s1 t where s1: "log_statement g localtime G x s = Inr s1" "invar s1" "written s1 = written s @ t"
    using statement_law [of s x G g localtime] Cons.prems by auto
  then show ?case using Cons.IH [OF s1(2)] Cons.prems by auto
qed simp

end

interpretation stdout_sink: log_sink "defaultOutPut w" "\<lambda>_. True" "\<lambda>out. out"
  by unfold_locales (auto simp: defaultOutPut_def)

interpretation async_sink: log_sink asyncOutputFunc front_inv all_bytes
proof
  fix s :: AsyncLogging and b :: LogBuffer
  assume "front_inv s" and "length (log_data b) \<le> kSmallBuffer"
  from async_append_ok [OF this] obtain s' where s': "async_append (log_data b) s = Inr s'" "front_inv s'"
    "all_bytes s' = all_bytes s @ (if dropped (log_data b) s then [] else log_data b)" by blast
  let ?k = "if dropped (log_data b) s then 0 else length (log_data b)"
  have "all_bytes s' = all_bytes s @ take ?k (log_data b)" using s'(3) by simp
  then show "\<exists>s' k. asyncOutputFunc b s = Inr s' \<and> front_inv s' \<and> all_bytes s' = all_bytes s @ take k (log_data b)"
    using s'(1,2) unfolding asyncOutputFunc_def by blast
qed

subsection \<open>Properties\<close>

text \<open>
  C31: Whatever is logged, whether lines go to the standard output (which may take any part of a line) or to
  the asynchronous log, no statement faults, and what was written before stays in front of what it adds.
\<close>

theorem log_statements_never_fault:
  assumes "\<forall>x \<in> set xs. site_ok (snd x)" and "front_inv a"
  shows "(\<exists>t. log_statements g localtime (initial_globals w) xs out = Inr (out @ t)) \<and>
    (\<exists>a' t. log_statements g localtime (setOutputFunc asyncOutputFunc (initial_globals w)) xs a = Inr a' \<and>
       front_inv a' \<and> all_bytes a' = all_bytes a @ t)"
  using stdout_sink.statements_law [where s = out and G = "initial_globals w" and w = w and g = g and localtime = localtime,
      OF _ assms(1)]
    async_sink.statements_law [where G = "setOutputFunc asyncOutputFunc (initial_globals w)" and g = g and localtime = localtime,
      OF assms(2,1)]
  by (auto simp: initial_globals_def setOutputFunc_def)

text \<open>
  C32: A statement hands one line to the output function: its time stamp, thread, level, file, line and function,
  then its items in order and an end of line, in the 4000 bytes of a line buffer. Integers that are not negative
  are printed in decimal, negative ones with the mirrored digits of \<open>int_text\<close>. An item that does not find the room it asks for, its
  length or 32 bytes for a number, is left out silently; if each finds it, the line is complete. Below the level
  that is set, \<open>LOG_INFO\<close> does nothing, but \<open>LOG_WARN\<close> and \<open>LOG_ERROR\<close> do not look at the level.
\<close>

theorem log_statement_prints_line:
  assumes "\<forall>x \<in> set (site_items c). item_ok x" and "int_ok (site_line c)"
    and "(stmt, level) \<in> {(LOG_INFO, INFO), (LOG_WARN, WARN), (LOG_ERROR, ERROR)}"
    and "line = fitted g (line_items localtime level c) kSmallBuffer"
  shows "stmt g localtime G c s =
      (if level = INFO \<and> INFO < loglevel G then Inr s
       else g_output_func G \<lparr>capacity = kSmallBuffer, log_data = line\<rparr> s) \<and>
    (all_fit g (line_items localtime level c) kSmallBuffer \<longrightarrow>
       line = line_prefix localtime level c @ items_text g (site_items c) @ [CHR 0x0A])"
  using site_line_text [OF assms(1,2), of g localtime level] assms(3,4)
    fitted_all_fit [of g "line_items localtime level c" kSmallBuffer]
  by (auto simp: LOG_INFO_def LOG_WARN_def LOG_ERROR_def log_object_def site_line_of_def line_items_text not_le)

text \<open>The gap: a number with one digit and 31 bytes free is not printed.\<close>

lemma number_needs_32_bytes: "n < 32 \<Longrightarrow> fitted g [LogInt 5, LogCStr (Some [CHR 0x0A])] n = (if n = 0 then [] else [CHR 0x0A])"
  by simp

definition demo_site :: log_site where
  "demo_site = \<lparr>site_time = TimeStamp 0, site_tid = 7, site_file = ''/src/Main.cc'', site_line = 12, site_func = ''f'',
     site_items = [LogCStr (Some ''n=''), LogInt 3]\<rparr>"

definition demo_tm :: "int \<Rightarrow> tm" where
  "demo_tm = (\<lambda>_. \<lparr>tm_year = 70, tm_mon = 0, tm_mday = 1, tm_hour = 0, tm_min = 0, tm_sec = 0\<rparr>)"

lemma demo_site_text:
  "line_prefix demo_tm INFO demo_site = ''1970-01-01 00:00:00.000[    7]INFO  Main.cc:12->(f):''"
  "items_text (\<lambda>_. []) (site_items demo_site) = ''n=3''"
  "all_fit (\<lambda>_. []) (line_items demo_tm INFO demo_site) kSmallBuffer"
  by code_simp+

lemma log_statement_prints_line_witness:
  "LOG_INFO (\<lambda>_. []) demo_tm (initial_globals length) demo_site [] =
     Inr (''1970-01-01 00:00:00.000[    7]INFO  Main.cc:12->(f):n=3'' @ [CHR 0x0A])"
proof -
  have "\<forall>x \<in> set (site_items demo_site). item_ok x" "int_ok (site_line demo_site)"
    by (simp_all add: demo_site_def item_ok_def int_ok_def)
  then show ?thesis
    using log_statement_prints_line [where c = demo_site and localtime = demo_tm and level = INFO and g = "\<lambda>_. []" and
        stmt = LOG_INFO and G = "initial_globals length" and s = "[]", OF _ _ _ refl]
    by (simp add: demo_site_text initial_globals_def loglevel_def defaultOutPut_def)
qed

lemma log_statements_never_fault_witness:
  "\<exists>a' t. log_statements (\<lambda>_. []) demo_tm (setOutputFunc asyncOutputFunc (initial_globals length))
     [(INFO, demo_site), (ERROR, demo_site)] new_AsyncLogging = Inr a' \<and> all_bytes a' = t"
proof -
  have "site_ok demo_site" by (simp add: site_ok_def demo_site_def item_ok_def int_ok_def)
  moreover have "front_inv new_AsyncLogging"
    by (simp add: front_inv_def new_AsyncLogging_def big_buffer_def empty_buffer_def new_LogBuffer_def log_inv_def)
  ultimately show ?thesis
    using log_statements_never_fault [of "[(INFO, demo_site), (ERROR, demo_site)]" new_AsyncLogging "\<lambda>_. []" demo_tm length]
    by auto
qed

text \<open>
  With the asynchronous log behind the output function, a statement in any thread is one append of
  its line, in any reachable state of the logger: it never faults, and the system stays reachable, so the order
  and completeness of the file hold for statements as they do for messages.
\<close>

theorem log_statement_is_an_append:
  assumes "async_reachable fw S"
    and "\<forall>x \<in> set (site_items c). item_ok x" and "int_ok (site_line c)"
    and "site_line_of g localtime WARN c = Inr b"
  shows "\<exists>a. LOG_WARN g localtime (setOutputFunc asyncOutputFunc G) c (alog S) = Inr a \<and>
    async_reachable fw (S\<lparr>alog := a, taken := taken S @ (if dropped (log_data b) (alog S) then [] else log_data b)\<rparr>)"
proof -
  have len: "length (log_data b) \<le> kSmallBuffer" using site_line_bounded [OF assms(2,3), of g localtime WARN] assms(4) by simp
  have "async_inv S" using assms(1) by (rule reachable_async_inv)
  then obtain a where a: "async_append (log_data b) (alog S) = Inr a"
    using async_append_ok [OF _ len, of "alog S"] by (auto simp: async_inv_def)
  have "LOG_WARN g localtime (setOutputFunc asyncOutputFunc G) c (alog S) = Inr a"
    using a assms(4) by (simp add: LOG_WARN_def log_object_def site_line_of_def setOutputFunc_def asyncOutputFunc_def)
  then show ?thesis using async_reachable.step [OF assms(1) async_step.append [OF len a]] by blast
qed

lemma log_statement_is_an_append_witness:
  "\<exists>a. LOG_WARN (\<lambda>_. []) demo_tm (setOutputFunc asyncOutputFunc (initial_globals length)) demo_site
     (alog init_AsyncSystem) = Inr a"
proof -
  have ok: "\<forall>x \<in> set (site_items demo_site). item_ok x" "int_ok (site_line demo_site)"
    by (simp_all add: demo_site_def item_ok_def int_ok_def)
  obtain b where b: "site_line_of (\<lambda>_. []) demo_tm WARN demo_site = Inr b" using site_line_bounded [OF ok] by blast
  then show ?thesis using log_statement_is_an_append [OF async_reachable.start ok] by blast
qed

end
