(* ===== verification/Proxy_Cache.thy ===== *)
theory Proxy_Cache
  imports Prelude
begin

text \<open>
  \<^verbatim>\<open>Proxy/Cache.h\<close>, \<^verbatim>\<open>Proxy/Cache.cc\<close>, \<^verbatim>\<open>Proxy/lovebing.h\<close> and the cache functions of
  \<^verbatim>\<open>Proxy/Proxy.cc\<close>: a doubly linked list of responses between two sentinels, with a reader count
  and two semaphores.

  Objects live in a store from addresses to \<open>obj_t\<close>; a freed address has none, and using it or a null
  pointer is a fault. \<open>None\<close> as the result of an operation means that it does not return: it waits at a
  semaphore that is zero or goes round in a loop.
\<close>

subsection \<open>State\<close>

record obj_t =
  flag :: char
  uri :: string
  respHeader :: bytes
  respBody :: bytes
  respHeaderLen :: int
  respBodyLen :: int
  prev :: "nat option"
  nextp :: "nat option"

type_synonym store = "nat \<rightharpoonup> obj_t"

record cache_t =
  cache_head :: nat
  cache_tail :: nat
  nitems :: int

record ProxyCache =
  mem :: store
  cache :: cache_t
  CacheSize :: int
  readcnt :: int
  mutex :: nat
  W :: nat

definition MAX_CACHE_SIZE :: int where
  "MAX_CACHE_SIZE = 1049000"

definition deref :: "store \<Rightarrow> nat option \<Rightarrow> fault + obj_t" where
  "deref h p =
     (case p of None \<Rightarrow> Inl NullDeref
      | Some a \<Rightarrow> (case h a of None \<Rightarrow> Inl OutOfBounds | Some obj \<Rightarrow> Inr obj))"

text \<open>\<open>p->prev = q\<close> and \<open>p->next = q\<close>.\<close>

definition set_prev :: "nat option \<Rightarrow> nat option \<Rightarrow> store \<Rightarrow> fault + store" where
  "set_prev p q h =
     (case deref h p of Inl f \<Rightarrow> Inl f | Inr obj \<Rightarrow> Inr (h(the p \<mapsto> obj\<lparr>prev := q\<rparr>)))"

definition set_next :: "nat option \<Rightarrow> nat option \<Rightarrow> store \<Rightarrow> fault + store" where
  "set_next p q h =
     (case deref h p of Inl f \<Rightarrow> Inl f | Inr obj \<Rightarrow> Inr (h(the p \<mapsto> obj\<lparr>nextp := q\<rparr>)))"

subsection \<open>Operations\<close>

text \<open>\<open>malloc\<close> leaves the other fields of the sentinels unset; \<open>junk\<close> is what they hold.\<close>

definition initializeCache :: "nat \<Rightarrow> nat \<Rightarrow> obj_t \<Rightarrow> store \<Rightarrow> store \<times> cache_t" where
  "initializeCache a b junk h =
     (let s = junk\<lparr>flag := CHR ''@'', prev := None, nextp := None\<rparr>;
          h1 = h(a \<mapsto> s, b \<mapsto> s)
      in (h1(a \<mapsto> s\<lparr>nextp := Some b\<rparr>, b \<mapsto> s\<lparr>prev := Some a\<rparr>),
          \<lparr>cache_head = a, cache_tail = b, nitems = 0\<rparr>))"

definition sem_P :: "nat \<Rightarrow> nat option" where
  "sem_P s = (if s > 0 then Some (s - 1) else None)"

definition sem_V :: "nat \<Rightarrow> nat" where
  "sem_V s = s + 1"

text \<open>The two ends of the reading section.\<close>

definition read_enter :: "ProxyCache \<Rightarrow> ProxyCache option" where
  "read_enter S =
     (case sem_P (mutex S) of
        None \<Rightarrow> None
      | Some m \<Rightarrow>
          (let S1 = S\<lparr>mutex := m, readcnt := readcnt S + 1\<rparr>
           in if readcnt S1 = 1
              then (case sem_P (W S1) of None \<Rightarrow> None | Some w \<Rightarrow> Some (S1\<lparr>W := w, mutex := sem_V (mutex S1)\<rparr>))
              else Some (S1\<lparr>mutex := sem_V (mutex S1)\<rparr>)))"

definition read_exit :: "ProxyCache \<Rightarrow> ProxyCache option" where
  "read_exit S =
     (case sem_P (mutex S) of
        None \<Rightarrow> None
      | Some m \<Rightarrow>
          (let S1 = S\<lparr>mutex := m, readcnt := readcnt S - 1\<rparr>;
               S2 = (if readcnt S1 = 0 then S1\<lparr>W := sem_V (W S1)\<rparr> else S1)
           in Some (S2\<lparr>mutex := sem_V (mutex S2)\<rparr>)))"

partial_function (option) find_item :: "store \<Rightarrow> string \<Rightarrow> nat option \<Rightarrow> (fault + nat option) option" where
  "find_item h targetURI cur =
     (case deref h cur of
        Inl f \<Rightarrow> Some (Inl f)
      | Inr obj \<Rightarrow>
          if flag obj \<noteq> CHR ''@''
          then (if targetURI = uri obj then Some (Inr cur) else find_item h targetURI (nextp obj))
          else Some (Inr None))"

text \<open>On a hit the function returns inside the reading section.\<close>

definition readItem :: "string \<Rightarrow> ProxyCache \<Rightarrow> (fault + (nat option \<times> ProxyCache)) option" where
  "readItem targetURI S =
     (case read_enter S of
        None \<Rightarrow> None
      | Some S1 \<Rightarrow>
          (case deref (mem S1) (Some (cache_head (cache S1))) of
             Inl f \<Rightarrow> Some (Inl f)
           | Inr hd0 \<Rightarrow>
               (case find_item (mem S1) targetURI (nextp hd0) of
                  None \<Rightarrow> None
                | Some (Inl f) \<Rightarrow> Some (Inl f)
                | Some (Inr (Some a)) \<Rightarrow> Some (Inr (Some a, S1))
                | Some (Inr None) \<Rightarrow>
                    (case read_exit S1 of None \<Rightarrow> None | Some S2 \<Rightarrow> Some (Inr (None, S2))))))"

text \<open>The body of the eviction loop: unlink and free the last object.\<close>

definition evict_last :: "ProxyCache \<Rightarrow> fault + ProxyCache" where
  "evict_last S =
     and_then (deref (mem S) (Some (cache_tail (cache S)))) (\<lambda>tl0.
     and_then (deref (mem S) (prev tl0)) (\<lambda>last0.
     and_then (set_prev (nextp last0) (prev last0) (mem S)) (\<lambda>h1.
     and_then (deref h1 (prev tl0)) (\<lambda>last1.
     and_then (set_next (prev last1) (nextp last1) h1) (\<lambda>h2.
       Inr (S\<lparr>mem := h2(the (prev tl0) := None)\<rparr>))))))"

definition must_evict :: "int \<Rightarrow> ProxyCache \<Rightarrow> fault + bool" where
  "must_evict len S =
     (if c_int (len + CacheSize S) > MAX_CACHE_SIZE
      then and_then (deref (mem S) (Some (cache_head (cache S)))) (\<lambda>hd0.
             Inr (nextp hd0 \<noteq> Some (cache_tail (cache S))))
      else Inr False)"

partial_function (option) evict_loop :: "int \<Rightarrow> ProxyCache \<Rightarrow> (fault + ProxyCache) option" where
  "evict_loop len S =
     (case must_evict len S of
        Inl f \<Rightarrow> Some (Inl f)
      | Inr b \<Rightarrow>
          if b then (case evict_last S of Inl f \<Rightarrow> Some (Inl f) | Inr S1 \<Rightarrow> evict_loop len S1)
          else Some (Inr S))"

definition link_front :: "nat \<Rightarrow> ProxyCache \<Rightarrow> fault + ProxyCache" where
  "link_front p S =
     (let hd = Some (cache_head (cache S))
      in and_then (deref (mem S) hd) (\<lambda>hd0.
         and_then (set_next (Some p) (nextp hd0) (mem S)) (\<lambda>h1.
         and_then (set_prev (Some p) hd h1) (\<lambda>h2.
         and_then (deref h2 hd) (\<lambda>hd2.
         and_then (set_prev (nextp hd2) (Some p) h2) (\<lambda>h3.
         and_then (set_next hd (Some p) h3) (\<lambda>h4.
         and_then (deref h4 (Some p)) (\<lambda>obj.
           Inr (S\<lparr>mem := h4, CacheSize := c_int (CacheSize S + respBodyLen obj)\<rparr>)))))))))"

definition writeToCache :: "nat \<Rightarrow> ProxyCache \<Rightarrow> (fault + ProxyCache) option" where
  "writeToCache p S =
     (case deref (mem S) (Some p) of
        Inl f \<Rightarrow> Some (Inl f)
      | Inr obj \<Rightarrow>
          (case evict_loop (respBodyLen obj) S of
             None \<Rightarrow> None
           | Some (Inl f) \<Rightarrow> Some (Inl f)
           | Some (Inr S1) \<Rightarrow> Some (link_front p S1)))"

subsection \<open>Doubly linked lists in the store\<close>

definition nx :: "store \<Rightarrow> nat \<Rightarrow> nat option" where
  "nx h a = (case h a of None \<Rightarrow> None | Some obj \<Rightarrow> nextp obj)"

definition pv :: "store \<Rightarrow> nat \<Rightarrow> nat option" where
  "pv h a = (case h a of None \<Rightarrow> None | Some obj \<Rightarrow> prev obj)"

fun dll :: "store \<Rightarrow> nat \<Rightarrow> nat list \<Rightarrow> nat \<Rightarrow> bool" where
  "dll h a [] b \<longleftrightarrow> nx h a = Some b \<and> pv h b = Some a"
| "dll h a (x # xs) b \<longleftrightarrow> nx h a = Some x \<and> pv h x = Some a \<and> dll h x xs b"

lemma dll_snoc: "dll h a (xs @ [x]) b \<longleftrightarrow> dll h a xs x \<and> nx h x = Some b \<and> pv h b = Some x"
  by (induction xs arbitrary: a) auto

lemma dll_cong:
  "(\<And>y. y \<in> set (a # xs) \<Longrightarrow> nx h' y = nx h y) \<Longrightarrow> (\<And>y. y \<in> set (xs @ [b]) \<Longrightarrow> pv h' y = pv h y) \<Longrightarrow>
    dll h' a xs b = dll h a xs b"
  by (induction xs arbitrary: a) auto

lemma nx_simps [simp]:
  "nx (h(a \<mapsto> obj)) y = (if y = a then nextp obj else nx h y)" "nx (h(a := None)) y = (if y = a then None else nx h y)"
  "pv (h(a \<mapsto> obj)) y = (if y = a then prev obj else pv h y)" "pv (h(a := None)) y = (if y = a then None else pv h y)"
  by (simp_all add: nx_def pv_def)

definition cache_inv :: "ProxyCache \<Rightarrow> nat list \<Rightarrow> bool" where
  "cache_inv S xs \<longleftrightarrow>
     (let a = cache_head (cache S); b = cache_tail (cache S); h = mem S
      in distinct (a # xs @ [b]) \<and> dll h a xs b \<and> set (a # xs @ [b]) \<subseteq> dom h \<and>
         flag (the (h a)) = CHR ''@'' \<and> flag (the (h b)) = CHR ''@'' \<and>
         (\<forall>x \<in> set xs. flag (the (h x)) \<noteq> CHR ''@''))"

text \<open>What the cache stores about an object, all but its links.\<close>

definition payload :: "store \<Rightarrow> nat \<Rightarrow> (char \<times> string \<times> bytes \<times> bytes \<times> int \<times> int) option" where
  "payload h a = map_option (\<lambda>obj. (flag obj, uri obj, respHeader obj, respBody obj, respHeaderLen obj, respBodyLen obj)) (h a)"

lemma payload_upd [simp]:
  "h a = Some obj \<Longrightarrow> payload (h(a \<mapsto> obj\<lparr>prev := q\<rparr>)) = payload h"
  "h a = Some obj \<Longrightarrow> payload (h(a \<mapsto> obj\<lparr>nextp := q\<rparr>)) = payload h"
  by (auto simp: payload_def fun_eq_iff)

lemma set_link_ok:
  "h a = Some obj \<Longrightarrow> set_prev (Some a) q h = Inr (h(a \<mapsto> obj\<lparr>prev := q\<rparr>))"
  "h a = Some obj \<Longrightarrow> set_next (Some a) q h = Inr (h(a \<mapsto> obj\<lparr>nextp := q\<rparr>))"
  by (simp_all add: set_prev_def set_next_def deref_def)

lemma payload_flag: "payload h' a = payload h a \<Longrightarrow> a \<in> dom h \<Longrightarrow> flag (the (h' a)) = flag (the (h a)) \<and> a \<in> dom h'"
  by (cases "h a"; cases "h' a") (auto simp: payload_def)

lemma dll_last: "dll h a xs b \<Longrightarrow> pv h b = Some (last (a # xs)) \<and> nx h (last (a # xs)) = Some b"
  by (induction xs arbitrary: a) auto

lemma dll_first: "dll h a xs b \<Longrightarrow> nx h a = Some (hd (xs @ [b]))"
  by (cases xs) auto

lemma dll_retarget:
  "dll h a xs x \<Longrightarrow> distinct (a # xs) \<Longrightarrow> (\<And>z. z \<in> set (a # xs) \<Longrightarrow> z \<noteq> last (a # xs) \<Longrightarrow> nx h' z = nx h z) \<Longrightarrow>
    nx h' (last (a # xs)) = Some b \<Longrightarrow> (\<And>z. z \<in> set xs \<Longrightarrow> pv h' z = pv h z) \<Longrightarrow>
    pv h' b = Some (last (a # xs)) \<Longrightarrow> dll h' a xs b"
proof (induction xs arbitrary: a)
  case (Cons y ys)
  have "a \<noteq> last (a # y # ys)" using Cons.prems(2) last_in_set [of "y # ys"] by auto
  then have "nx h' a = nx h a" using Cons.prems(3) by simp
  then show ?case using Cons.prems Cons.IH [of y] by (auto split: if_splits)
qed simp

lemma cache_invD:
  assumes "cache_inv S xs"
  shows "distinct (cache_head (cache S) # xs @ [cache_tail (cache S)])"
    and "dll (mem S) (cache_head (cache S)) xs (cache_tail (cache S))"
    and "set (cache_head (cache S) # xs @ [cache_tail (cache S)]) \<subseteq> dom (mem S)"
    and "flag (the (mem S (cache_head (cache S)))) = CHR ''@''"
    and "flag (the (mem S (cache_tail (cache S)))) = CHR ''@''"
    and "\<forall>x \<in> set xs. flag (the (mem S x)) \<noteq> CHR ''@''"
  using assms by (simp_all add: cache_inv_def Let_def)

lemma cache_inv_update:
  assumes "cache_inv S xs" and "dll h (cache_head (cache S)) ys (cache_tail (cache S))"
    and "distinct (cache_head (cache S) # ys @ [cache_tail (cache S)])"
    and "\<And>z. z \<in> set (cache_head (cache S) # ys @ [cache_tail (cache S)]) \<Longrightarrow>
      flag (the (h z)) = flag (the (mem S z)) \<and> z \<in> dom h"
    and "\<forall>x \<in> set ys. flag (the (mem S x)) \<noteq> CHR ''@''"
  shows "cache_inv (S\<lparr>mem := h\<rparr>) ys"
  using assms unfolding cache_inv_def Let_def by auto

lemma dom_nx: "nx h a = Some b \<Longrightarrow> \<exists>obj. h a = Some obj \<and> nextp obj = Some b"
  by (simp add: nx_def split: option.splits)

lemma dom_pv: "pv h a = Some b \<Longrightarrow> \<exists>obj. h a = Some obj \<and> prev obj = Some b"
  by (simp add: pv_def split: option.splits)

subsection \<open>The operations on the list\<close>

lemma find_item_dll:
  "dll h a xs b \<Longrightarrow> set (xs @ [b]) \<subseteq> dom h \<Longrightarrow> flag (the (h b)) = CHR ''@'' \<Longrightarrow>
    (\<forall>x \<in> set xs. flag (the (h x)) \<noteq> CHR ''@'') \<Longrightarrow>
    find_item h t (nx h a) = Some (Inr (find (\<lambda>x. t = uri (the (h x))) xs))"
proof (induction xs arbitrary: a)
  case Nil
  then show ?case by (subst find_item.simps) (auto simp: deref_def)
next
  case (Cons x xs)
  then obtain obj where obj: "h x = Some obj" by auto
  have "find_item h t (nextp obj) = Some (Inr (find (\<lambda>x. t = uri (the (h x))) xs))"
    using Cons.IH [of x] Cons.prems obj by (simp add: nx_def)
  then show ?case using Cons.prems obj by (subst find_item.simps) (auto simp: deref_def)
qed

lemma evict_last_ok:
  assumes inv: "cache_inv S (xs @ [x])"
  shows "\<exists>h. evict_last S = Inr (S\<lparr>mem := h\<rparr>) \<and> cache_inv (S\<lparr>mem := h\<rparr>) xs \<and>
    (\<forall>y. y \<noteq> x \<longrightarrow> payload h y = payload (mem S) y) \<and> h x = None"
proof -
  let ?a = "cache_head (cache S)" and ?b = "cache_tail (cache S)" and ?h = "mem S"
  note i = cache_invD [OF inv]
  let ?y = "last (?a # xs)"
  have d: "dll ?h ?a xs x" "nx ?h x = Some ?b" "pv ?h ?b = Some x" using i(2) by (simp_all add: dll_snoc)
  have y: "pv ?h x = Some ?y" "nx ?h ?y = Some x" using dll_last [OF d(1)] by simp_all
  have ne: "?y \<noteq> ?b" "?y \<noteq> x" "x \<noteq> ?b" "?y \<in> set (?a # xs)"
    using i(1) last_in_set [of "?a # xs"] by auto
  obtain ob where ob: "?h ?b = Some ob" "prev ob = Some x" using dom_pv [OF d(3)] by blast
  obtain ox where ox: "?h x = Some ox" "nextp ox = Some ?b" "prev ox = Some ?y"
    using dom_nx [OF d(2)] y(1) by (auto simp: pv_def)
  obtain oy where oy: "?h ?y = Some oy" using dom_nx [OF y(2)] by blast
  let ?h1 = "?h(?b \<mapsto> ob\<lparr>prev := Some ?y\<rparr>)"
  let ?h2 = "?h1(?y \<mapsto> oy\<lparr>nextp := Some ?b\<rparr>)"
  let ?h3 = "?h2(x := None)"
  have ev: "evict_last S = Inr (S\<lparr>mem := ?h3\<rparr>)"
    using ob ox oy ne by (simp add: evict_last_def deref_def set_link_ok)
  have "?h1 ?y = Some oy" using oy ne by simp
  then have "payload ?h2 = payload ?h" using ob(1) by simp
  then have pl: "payload ?h3 z = payload ?h z" if "z \<noteq> x" for z using that by (simp add: payload_def fun_eq_iff)
  have "dll ?h3 ?a xs ?b"
  proof (rule dll_retarget [OF d(1)])
    show "distinct (?a # xs)" using i(1) by simp
    show "nx ?h3 z = nx ?h z" if "z \<in> set (?a # xs)" "z \<noteq> ?y" for z
      using that i(1) ob(1) by (auto simp: nx_def)
    show "nx ?h3 ?y = Some ?b" "pv ?h3 ?b = Some ?y" using ne by (auto simp: nx_def pv_def)
    show "pv ?h3 z = pv ?h z" if "z \<in> set xs" for z
      using that i(1) oy by (auto simp: pv_def)
  qed
  moreover have "flag (the (?h3 z)) = flag (the (?h z)) \<and> z \<in> dom ?h3" if "z \<in> set (?a # xs @ [?b])" for z
  proof (rule payload_flag)
    show "payload ?h3 z = payload ?h z" using that i(1) by (intro pl) auto
    show "z \<in> dom ?h" using that i(3) by auto
  qed
  moreover have "distinct (?a # xs @ [?b])" "\<forall>z \<in> set xs. flag (the (?h z)) \<noteq> CHR ''@''" using i(1,6) by auto
  ultimately have "cache_inv (S\<lparr>mem := ?h3\<rparr>) xs" by (intro cache_inv_update [OF inv])
  then show ?thesis using ev pl by (intro exI [of _ ?h3]) simp
qed

lemma link_front_ok:
  assumes inv: "cache_inv S xs" and p: "mem S p = Some obj" "flag obj \<noteq> CHR ''@''"
    and fresh: "p \<notin> set (cache_head (cache S) # xs @ [cache_tail (cache S)])"
  shows "\<exists>h. link_front p S = Inr (S\<lparr>mem := h, CacheSize := c_int (CacheSize S + respBodyLen obj)\<rparr>) \<and>
    cache_inv (S\<lparr>mem := h\<rparr>) (p # xs) \<and> payload h = payload (mem S)"
proof -
  let ?a = "cache_head (cache S)" and ?b = "cache_tail (cache S)" and ?h = "mem S"
  note i = cache_invD [OF inv]
  let ?f = "hd (xs @ [?b])"
  have f: "nx ?h ?a = Some ?f" using i(2) by (rule dll_first)
  have fin: "?f \<in> set (xs @ [?b])" by (cases xs) simp_all
  have ne: "p \<noteq> ?a" "?f \<noteq> p" "?f \<noteq> ?a" "?a \<noteq> p" using fresh fin i(1) by auto
  obtain oa where oa: "?h ?a = Some oa" "nextp oa = Some ?f" using dom_nx [OF f] by blast
  obtain of0 where off: "?h ?f = Some of0" using i(3) fin by auto
  let ?o1 = "obj\<lparr>nextp := Some ?f\<rparr>" and ?o2 = "obj\<lparr>nextp := Some ?f, prev := Some ?a\<rparr>"
  let ?h1 = "?h(p \<mapsto> ?o1)" and ?h2 = "?h(p \<mapsto> ?o1, p \<mapsto> ?o2)"
  let ?h3 = "?h2(?f \<mapsto> of0\<lparr>prev := Some p\<rparr>)"
  let ?h4 = "?h3(?a \<mapsto> oa\<lparr>nextp := Some p\<rparr>)"
  have s1: "set_next (Some p) (Some ?f) ?h = Inr ?h1" using p(1) by (rule set_link_ok(2))
  have s2: "set_prev (Some p) (Some ?a) ?h1 = Inr ?h2"
    using set_link_ok(1) [of ?h1 p ?o1 "Some ?a"] by simp
  have s3: "set_prev (Some ?f) (Some p) ?h2 = Inr ?h3" using off ne by (intro set_link_ok(1)) simp
  have s4: "set_next (Some ?a) (Some p) ?h3 = Inr ?h4" using oa(1) ne by (intro set_link_ok(2)) simp
  have d2: "deref ?h (Some ?a) = Inr oa" "deref ?h2 (Some ?a) = Inr oa" "deref ?h4 (Some p) = Inr ?o2"
    using oa(1) ne by (simp_all add: deref_def)
  have lf: "link_front p S = Inr (S\<lparr>mem := ?h4, CacheSize := c_int (CacheSize S + respBodyLen obj)\<rparr>)"
    unfolding link_front_def Let_def d2(1) and_then_simps oa(2) s1 s2 d2(2) s3 s4 d2(3) by simp
  have pl: "payload ?h4 = payload ?h" using p(1) oa(1) off ne by (auto simp: payload_def fun_eq_iff)
  have "dll ?h4 p xs ?b"
  proof (cases xs)
    case Nil
    then show ?thesis using ne by (auto simp: nx_def pv_def)
  next
    case (Cons x ys)
    then have x: "?f = x" by simp
    have "dll ?h4 x ys ?b = dll ?h x ys ?b"
    proof (rule dll_cong)
      show "nx ?h4 y = nx ?h y" if "y \<in> set (x # ys)" for y
        using that fresh i(1) off x Cons by (auto simp: nx_def)
      show "pv ?h4 y = pv ?h y" if "y \<in> set (ys @ [?b])" for y
        using that fresh i(1) oa(1) x Cons by (auto simp: pv_def)
    qed
    then show ?thesis using i(2) Cons x ne by (auto simp: nx_def pv_def)
  qed
  then have "dll ?h4 ?a (p # xs) ?b" using ne by (auto simp: nx_def pv_def)
  moreover have "flag (the (?h4 z)) = flag (the (?h z)) \<and> z \<in> dom ?h4" if "z \<in> set (?a # (p # xs) @ [?b])" for z
  proof (rule payload_flag)
    show "payload ?h4 z = payload ?h z" by (simp only: pl)
    show "z \<in> dom ?h" using that i(3) p(1) by auto
  qed
  moreover have "distinct (?a # (p # xs) @ [?b])" using i(1) fresh by auto
  moreover have "\<forall>x \<in> set (p # xs). flag (the (?h x)) \<noteq> CHR ''@''" using i(6) p by simp
  ultimately have "cache_inv (S\<lparr>mem := ?h4\<rparr>) (p # xs)" by (intro cache_inv_update [OF inv])
  then show ?thesis using lf pl by blast
qed

lemma must_evict_eq:
  assumes "cache_inv S xs"
  shows "must_evict len S = Inr (c_int (len + CacheSize S) > MAX_CACHE_SIZE \<and> xs \<noteq> [])"
proof -
  note i = cache_invD [OF assms]
  obtain oa where oa: "mem S (cache_head (cache S)) = Some oa" "nextp oa = Some (hd (xs @ [cache_tail (cache S)]))"
    using dom_nx [OF dll_first [OF i(2)]] by blast
  have "hd (xs @ [cache_tail (cache S)]) = cache_tail (cache S) \<longleftrightarrow> xs = []"
    using i(1) by (cases xs) auto
  then show ?thesis using oa by (simp add: must_evict_def deref_def)
qed

text \<open>The loop does not run, or, as nothing it does changes \<open>CacheSize\<close>, it empties the list.\<close>

lemma evict_loop_none:
  "cache_inv S xs \<Longrightarrow> \<not> c_int (len + CacheSize S) > MAX_CACHE_SIZE \<Longrightarrow> evict_loop len S = Some (Inr S)"
  by (subst evict_loop.simps) (simp add: must_evict_eq)

lemma evict_loop_all:
  "cache_inv S xs \<Longrightarrow> c_int (len + CacheSize S) > MAX_CACHE_SIZE \<Longrightarrow>
    \<exists>h. evict_loop len S = Some (Inr (S\<lparr>mem := h\<rparr>)) \<and> cache_inv (S\<lparr>mem := h\<rparr>) [] \<and>
      (\<forall>y. y \<notin> set xs \<longrightarrow> payload h y = payload (mem S) y) \<and> (\<forall>x \<in> set xs. h x = None)"
proof (induction xs arbitrary: S rule: rev_induct)
  case Nil
  then have "evict_loop len S = Some (Inr S)" by (subst evict_loop.simps) (simp add: must_evict_eq)
  then show ?case using Nil(1) by (intro exI [of _ "mem S"]) simp
next
  case (snoc x xs)
  obtain h1 where h1: "evict_last S = Inr (S\<lparr>mem := h1\<rparr>)" "cache_inv (S\<lparr>mem := h1\<rparr>) xs"
    "\<forall>y. y \<noteq> x \<longrightarrow> payload h1 y = payload (mem S) y" "h1 x = None"
    using evict_last_ok [OF snoc.prems(1)] by blast
  obtain h where h: "evict_loop len (S\<lparr>mem := h1\<rparr>) = Some (Inr (S\<lparr>mem := h\<rparr>))" "cache_inv (S\<lparr>mem := h\<rparr>) []"
    "\<forall>y. y \<notin> set xs \<longrightarrow> payload h y = payload h1 y" "\<forall>y \<in> set xs. h y = None"
    using snoc.IH [OF h1(2)] snoc.prems(2) by auto
  have "x \<notin> set xs" using cache_invD(1) [OF snoc.prems(1)] by auto
  then have "payload h x = None" using h(3) h1(4) by (simp add: payload_def)
  then have "h x = None" by (simp add: payload_def)
  moreover have "evict_loop len S = Some (Inr (S\<lparr>mem := h\<rparr>))"
    using snoc.prems h1(1) h(1) by (subst evict_loop.simps) (simp add: must_evict_eq)
  ultimately show ?case using h h1(3) by (intro exI [of _ h]) simp
qed

subsection \<open>The cache as a list of entries\<close>

type_synonym entry = "string \<times> bytes \<times> int"

definition entry_at :: "store \<Rightarrow> nat \<Rightarrow> entry" where
  "entry_at h a = (uri (the (h a)), respBody (the (h a)), respBodyLen (the (h a)))"

text \<open>\<open>represents S es\<close>: the cache holds the entries \<open>es\<close>, the latest first, in the objects \<open>xs\<close>.\<close>

definition represents :: "ProxyCache \<Rightarrow> nat list \<Rightarrow> entry list \<Rightarrow> bool" where
  "represents S xs es \<longleftrightarrow> cache_inv S xs \<and> map (entry_at (mem S)) xs = es"

definition spec_write :: "entry \<Rightarrow> entry list \<times> int \<Rightarrow> entry list \<times> int" where
  "spec_write e s = (e # (if snd (snd e) + snd s > MAX_CACHE_SIZE then [] else fst s), snd s + snd (snd e))"

lemma payload_entry: "payload h' a = payload h a \<Longrightarrow> a \<in> dom h \<Longrightarrow> entry_at h' a = entry_at h a"
  by (cases "h a"; cases "h' a") (auto simp: payload_def entry_at_def)

lemma writeToCache_step:
  assumes rep: "represents S xs es" and p: "mem S p = Some obj" "flag obj \<noteq> CHR ''@''"
    and fresh: "p \<notin> set (cache_head (cache S) # xs @ [cache_tail (cache S)])"
    and size: "0 \<le> respBodyLen obj" "0 \<le> CacheSize S" "respBodyLen obj + CacheSize S < 2 ^ 31"
  shows "\<exists>h ys. writeToCache p S = Some (Inr (S\<lparr>mem := h, CacheSize := CacheSize S + respBodyLen obj\<rparr>)) \<and>
    represents (S\<lparr>mem := h\<rparr>) (p # ys) (fst (spec_write (entry_at (mem S) p) (es, CacheSize S))) \<and>
    (respBodyLen obj + CacheSize S > MAX_CACHE_SIZE \<longrightarrow> (\<forall>x \<in> set xs. h x = None))"
proof -
  let ?len = "respBodyLen obj"
  let ?full = "?len + CacheSize S > MAX_CACHE_SIZE"
  have ci: "c_int (?len + CacheSize S) = ?len + CacheSize S" "c_int (CacheSize S + ?len) = CacheSize S + ?len"
    using size by (auto intro!: c_int_id)
  have inv: "cache_inv S xs" and es: "map (entry_at (mem S)) xs = es" using rep by (simp_all add: represents_def)
  define ys where "ys = (if ?full then [] else xs)"
  obtain h1 where h1: "evict_loop ?len S = Some (Inr (S\<lparr>mem := h1\<rparr>))" "cache_inv (S\<lparr>mem := h1\<rparr>) ys"
    "\<forall>y. y = p \<or> y \<in> set ys \<longrightarrow> payload h1 y = payload (mem S) y" "?full \<longrightarrow> (\<forall>x \<in> set xs. h1 x = None)"
  proof (cases ?full)
    case True
    then show ?thesis using evict_loop_all [OF inv, of ?len] ci fresh that by (auto simp: ys_def)
  next
    case False
    then show ?thesis using evict_loop_none [OF inv, of ?len] ci inv that [of "mem S"] by (simp add: ys_def)
  qed
  obtain obj1 where obj1: "h1 p = Some obj1" "flag obj1 = flag obj" "respBodyLen obj1 = ?len"
    "entry_at h1 p = entry_at (mem S) p"
  proof -
    have "payload h1 p = payload (mem S) p" using h1(3) by simp
    then show ?thesis using that p(1) by (cases "h1 p") (auto simp: payload_def entry_at_def)
  qed
  have "p \<notin> set (cache_head (cache S) # ys @ [cache_tail (cache S)])" using fresh by (auto simp: ys_def)
  then obtain h where h: "link_front p (S\<lparr>mem := h1\<rparr>) = Inr (S\<lparr>mem := h, CacheSize := CacheSize S + ?len\<rparr>)"
    "cache_inv (S\<lparr>mem := h\<rparr>) (p # ys)" "payload h = payload h1"
    using link_front_ok [OF h1(2), of p obj1] obj1 p(2) ci(2) by auto
  have "entry_at h x = entry_at (mem S) x" if "x \<in> set (p # ys)" for x
  proof -
    have "payload h x = payload (mem S) x" using h1(3) h(3) that by auto
    moreover have "x \<in> dom (mem S)" using that p(1) cache_invD(3) [OF inv] by (auto simp: ys_def split: if_splits)
    ultimately show ?thesis by (rule payload_entry)
  qed
  then have "map (entry_at h) (p # ys) = map (entry_at (mem S)) (p # ys)" by simp
  moreover have "fst (spec_write (entry_at (mem S) p) (es, CacheSize S)) = map (entry_at (mem S)) (p # ys)"
    using es p(1) by (simp add: spec_write_def ys_def entry_at_def)
  ultimately have rep': "represents (S\<lparr>mem := h\<rparr>) (p # ys) (fst (spec_write (entry_at (mem S) p) (es, CacheSize S)))"
    using h(2) by (simp add: represents_def)
  have "writeToCache p S = Some (Inr (S\<lparr>mem := h, CacheSize := CacheSize S + ?len\<rparr>))"
    using p(1) h1(1) h(1) by (simp add: writeToCache_def deref_def)
  moreover have "?full \<longrightarrow> (\<forall>x \<in> set xs. h x = None)"
  proof (intro impI ballI)
    fix x assume "?full" "x \<in> set xs"
    then have "payload h x = None" using h1(4) h(3) by (simp add: payload_def)
    then show "h x = None" by (simp add: payload_def)
  qed
  ultimately show ?thesis using rep' by blast
qed

lemma readItem_step:
  assumes inv: "cache_inv S xs" and S1: "read_enter S = Some S1"
  shows "readItem t S = (case find (\<lambda>a. t = uri (the (mem S a))) xs of
      Some a \<Rightarrow> Some (Inr (Some a, S1))
    | None \<Rightarrow> map_option (\<lambda>S2. Inr (None, S2)) (read_exit S1))"
proof -
  note i = cache_invD [OF inv]
  have S1': "mem S1 = mem S" "cache S1 = cache S"
    using S1 by (auto simp: read_enter_def Let_def split: option.splits if_splits)
  obtain oa where oa: "mem S (cache_head (cache S)) = Some oa" using i(3) by auto
  have "find_item (mem S) t (nextp oa) = Some (Inr (find (\<lambda>a. t = uri (the (mem S a))) xs))"
    using find_item_dll [OF i(2) _ i(5,6), of t] i(3) oa by (simp add: nx_def)
  then show ?thesis using S1 S1' oa
    by (simp add: readItem_def deref_def split: option.splits)
qed

lemma find_entry:
  "map (entry_at h) xs = es \<Longrightarrow>
    map_option (entry_at h) (find (\<lambda>a. t = uri (the (h a))) xs) = find (\<lambda>e. t = fst e) es"
  by (induction xs arbitrary: es) (auto simp: entry_at_def)

subsection \<open>Properties\<close>

text \<open>The start of \<open>main\<close>: the semaphores, the counters and the empty list.\<close>

definition main_cache :: "nat \<Rightarrow> nat \<Rightarrow> obj_t \<Rightarrow> store \<Rightarrow> ProxyCache" where
  "main_cache a b junk h =
     (let (h1, c) = initializeCache a b junk h
      in \<lparr>mem = h1, cache = c, CacheSize = 0, readcnt = 0, mutex = 5, W = 1\<rparr>)"

lemma main_cache_represents: "a \<noteq> b \<Longrightarrow> represents (main_cache a b junk h) [] []"
  by (simp add: represents_def main_cache_def initializeCache_def cache_inv_def Let_def)

lemma main_cache_fields [simp]:
  "cache_head (cache (main_cache a b junk h)) = a" "cache_tail (cache (main_cache a b junk h)) = b"
  "CacheSize (main_cache a b junk h) = 0" "readcnt (main_cache a b junk h) = 0"
  "mutex (main_cache a b junk h) = 5" "W (main_cache a b junk h) = 1"
  "x \<noteq> a \<Longrightarrow> x \<noteq> b \<Longrightarrow> mem (main_cache a b junk h) x = h x"
  by (simp_all add: main_cache_def initializeCache_def Let_def)

text \<open>
  C15: \<open>writeToCache\<close> returns without a fault and does to the linked list what the list specification says:
  the new object becomes the first entry in front of the others; but as \<open>CacheSize\<close> is never lowered, once
  the bytes ever written exceed the limit every write first frees all other entries.
\<close>

theorem writeToCache_refines:
  assumes "represents S xs es" and "mem S p = Some obj" and "flag obj \<noteq> CHR ''@''"
    and "p \<notin> set (cache_head (cache S) # xs @ [cache_tail (cache S)])"
    and "0 \<le> respBodyLen obj" and "0 \<le> CacheSize S" and "respBodyLen obj + CacheSize S < 2 ^ 31"
  shows "\<exists>h ys. writeToCache p S = Some (Inr (S\<lparr>mem := h, CacheSize := CacheSize S + respBodyLen obj\<rparr>)) \<and>
    represents (S\<lparr>mem := h\<rparr>) (p # ys) (fst (spec_write (entry_at (mem S) p) (es, CacheSize S))) \<and>
    (respBodyLen obj + CacheSize S > MAX_CACHE_SIZE \<longrightarrow> (\<forall>x \<in> set xs. h x = None))"
  using assms by (rule writeToCache_step)

definition demo_obj :: obj_t where
  "demo_obj = \<lparr>flag = CHR ''$'', uri = ''/haha'', respHeader = ''Host: localhost'',
     respBody = ''This is the test body'', respHeaderLen = 15, respBodyLen = 21, prev = None, nextp = None\<rparr>"

definition demo_cache :: ProxyCache where
  "demo_cache = main_cache 0 1 demo_obj [2 \<mapsto> demo_obj]"

lemma demo_cache_fields:
  "represents demo_cache [] []" "mem demo_cache 2 = Some demo_obj" "CacheSize demo_cache = 0"
  "cache_head (cache demo_cache) = 0" "cache_tail (cache demo_cache) = 1"
  "readcnt demo_cache = 0" "W demo_cache = 1" "mutex demo_cache = 5"
  by (simp_all add: demo_cache_def main_cache_represents)

lemma demo_pre:
  "flag demo_obj \<noteq> CHR ''@''" "2 \<notin> set (cache_head (cache demo_cache) # [] @ [cache_tail (cache demo_cache)])"
  "0 \<le> respBodyLen demo_obj" "0 \<le> CacheSize demo_cache" "respBodyLen demo_obj + CacheSize demo_cache < 2 ^ 31"
  "fst (spec_write (entry_at (mem demo_cache) 2) ([], CacheSize demo_cache)) = [(''/haha'', ''This is the test body'', 21)]"
  "CacheSize demo_cache + respBodyLen demo_obj = 21"
  by (simp_all add: demo_cache_fields) (simp_all add: demo_obj_def spec_write_def entry_at_def demo_cache_fields)

lemma writeToCache_refines_witness:
  "\<exists>h. writeToCache 2 demo_cache = Some (Inr (demo_cache\<lparr>mem := h, CacheSize := 21\<rparr>)) \<and>
     represents (demo_cache\<lparr>mem := h\<rparr>) [2] [(''/haha'', ''This is the test body'', 21)]"
proof -
  obtain h ys where h: "writeToCache 2 demo_cache = Some (Inr (demo_cache\<lparr>mem := h, CacheSize := 21\<rparr>))"
    "represents (demo_cache\<lparr>mem := h\<rparr>) (2 # ys) [(''/haha'', ''This is the test body'', 21)]"
    using writeToCache_refines [OF demo_cache_fields(1,2) demo_pre(1-5)] unfolding demo_pre(6,7) by blast
  then have "ys = []" by (auto simp: represents_def)
  then show ?thesis using h by blast
qed

text \<open>What a further reader does while a first one has not left its section.\<close>

lemma readItem_inside:
  assumes "readcnt S \<ge> 1" and "readItem t S = Some (Inr (r, S'))"
  shows "W S' = W S \<and> readcnt S' \<ge> 1"
proof -
  obtain m where m: "sem_P (mutex S) = Some m" using assms(2) by (cases "sem_P (mutex S)") (auto simp: readItem_def read_enter_def)
  then have S1: "read_enter S = Some (S\<lparr>readcnt := readcnt S + 1, mutex := sem_V m\<rparr>)"
    using assms(1) by (simp add: read_enter_def Let_def)
  then show ?thesis using assms
    by (auto simp: readItem_def read_exit_def Let_def sem_P_def sem_V_def
        split: option.splits sum.splits if_splits)
qed

text \<open>
  C36: \<open>readItem\<close> finds exactly the latest entry with the requested uri, and a miss leaves everything as it
  was. But a hit returns inside the reading section: the reader count stays up and the write semaphore
  stays taken, also after any further lookup, so no writer could ever get it again.
\<close>

theorem cache_hit_keeps_the_lock:
  assumes "represents S xs es" and "readcnt S = 0" and "W S = 1" and "mutex S > 0"
  shows "\<exists>r S'. readItem t S = Some (Inr (r, S')) \<and>
    map_option (entry_at (mem S)) r = find (\<lambda>e. t = fst e) es \<and>
    (r = None \<longrightarrow> S' = S) \<and>
    (r \<noteq> None \<longrightarrow> W S' = 0 \<and> readcnt S' = 1 \<and>
      (\<forall>u r2 S2. readItem u S' = Some (Inr (r2, S2)) \<longrightarrow> W S2 = 0 \<and> readcnt S2 \<ge> 1))"
proof -
  let ?S1 = "S\<lparr>readcnt := 1, W := 0\<rparr>"
  let ?r = "find (\<lambda>a. t = uri (the (mem S a))) xs"
  have inv: "cache_inv S xs" "map (entry_at (mem S)) xs = es" using assms(1) by (simp_all add: represents_def)
  have S1: "read_enter S = Some ?S1"
    using assms(2-4) by (simp add: read_enter_def sem_P_def sem_V_def Let_def)
  have ex: "read_exit ?S1 = Some S"
    using assms(2-4) by (simp add: read_exit_def sem_P_def sem_V_def Let_def)
  have "readItem t S = Some (Inr (?r, if ?r = None then S else ?S1))"
    using readItem_step [OF inv(1) S1, of t] ex by (simp split: option.split)
  moreover have "map_option (entry_at (mem S)) ?r = find (\<lambda>e. t = fst e) es"
    by (rule find_entry [OF inv(2)])
  moreover have "W S2 = 0 \<and> readcnt S2 \<ge> 1" if "readItem u ?S1 = Some (Inr (r2, S2))" for u r2 S2
    using readItem_inside [OF _ that] by simp
  ultimately show ?thesis by (intro exI [of _ ?r] exI [of _ "if ?r = None then S else ?S1"]) auto
qed

lemma cache_hit_keeps_the_lock_witness:
  "\<exists>S r S'. readItem ''/haha'' S = Some (Inr (Some r, S')) \<and> W S = 1 \<and> W S' = 0"
proof -
  obtain h ys where h: "represents (demo_cache\<lparr>mem := h\<rparr>) (2 # ys) [(''/haha'', ''This is the test body'', 21)]"
    using writeToCache_step [OF demo_cache_fields(1,2) demo_pre(1-5)] unfolding demo_pre(6,7) by blast
  let ?S = "demo_cache\<lparr>mem := h\<rparr>"
  obtain r S' where "readItem ''/haha'' ?S = Some (Inr (r, S'))" "r \<noteq> None" "W S' = 0"
    using cache_hit_keeps_the_lock [OF h, of "''/haha''"] by (auto simp: demo_cache_fields)
  moreover have "W ?S = 1" by (simp add: demo_cache_fields)
  ultimately show ?thesis by blast
qed

end
