(* ===== verification/Proxy_Server.thy ===== *)
theory Proxy_Server
  imports Proxy_Cache Http_Request
begin

text \<open>
  \<^verbatim>\<open>Proxy/Proxy.cc\<close>: the request parser of the caching proxy and its message callback.

  The buffer is the one of the installed muduo library; what the proxy uses of it is its unread bytes,
  \<open>findCRLF\<close>, an argument, and \<open>retrieveAll\<close>. What the callback sends is a list of events. The globals
  of the file are a record; \<open>Version\<close> has the constructors of the enumeration in the file.
\<close>

subsection \<open>The parser\<close>

datatype ProxyMethod = PGet | POther

record ProxyGlobals =
  g_method :: ProxyMethod
  g_path :: string
  g_query :: string
  g_version :: Version

definition proxy_ParseRequestMethod ::
  "bytes \<Rightarrow> nat \<Rightarrow> nat \<Rightarrow> ProxyGlobals \<Rightarrow> bool \<times> ProxyGlobals" where
  "proxy_ParseRequestMethod m start end0 g =
     (let g1 = g\<lparr>g_method := (if seg m start end0 = ''GET'' then PGet else POther)\<rparr>
      in (g_method g1 = PGet, g1))"

definition proxy_target ::
  "bytes \<Rightarrow> nat \<Rightarrow> nat \<Rightarrow> nat \<Rightarrow> ProxyGlobals \<Rightarrow> fault + ProxyGlobals" where
  "proxy_target m start space end0 g =
     (let query_ptr = std_find m start end0 (CHR ''?'')
      in if query_ptr \<noteq> end0
         then and_then (assign m start query_ptr) (\<lambda>p.
              and_then (assign m (query_ptr + 1) space) (\<lambda>q. Inr (g\<lparr>g_path := p, g_query := q\<rparr>)))
         else and_then (assign m start space) (\<lambda>p. Inr (g\<lparr>g_path := p\<rparr>)))"

definition proxy_version :: "bytes \<Rightarrow> nat \<Rightarrow> nat \<Rightarrow> ProxyGlobals \<Rightarrow> bool \<times> ProxyGlobals" where
  "proxy_version m start end0 g =
     (let parseHttp = (start + 8 = end0 \<and> seg m start (end0 - 1) = http)
      in if \<not> parseHttp \<or> m ! (end0 - 1) \<noteq> CHR ''0'' \<and> m ! (end0 - 1) \<noteq> CHR ''1''
         then (False, g\<lparr>g_version := kUnknown\<rparr>)
         else (True, g\<lparr>g_version := (if m ! (end0 - 1) = CHR ''0'' then kHttp10 else kHttp11)\<rparr>))"

definition proxy_ParseRequestLine ::
  "bytes \<Rightarrow> nat \<Rightarrow> nat \<Rightarrow> ProxyGlobals \<Rightarrow> fault + (bool \<times> ProxyGlobals)" where
  "proxy_ParseRequestLine m start end0 g =
     (let space = std_find m start end0 (CHR '' '')
      in if space = end0 then Inr (False, g)
         else (let (ok, g1) = proxy_ParseRequestMethod m start space g
               in if \<not> ok then Inr (False, g1)
                  else (let start1 = space + 1;
                            space1 = std_find m (space + 1) end0 (CHR '' '')
                        in if space1 = end0 then Inr (False, g1)
                           else and_then (proxy_target m start1 space1 end0 g1) (\<lambda>g2.
                                  Inr (proxy_version m (space1 + 1) end0 g2)))))"

text \<open>
  \<open>ParseRequest\<close> on the unread bytes. The state never becomes \<open>kParseHeader\<close>, and each branch of
  \<open>kParseRequest\<close> ends the loop. Its first statement prints the bytes from \<open>peek\<close> on as a C string, which
  nothing terminates; the model leaves the output out, and with it what the overrun may do.
\<close>

definition proxy_ParseRequest ::
  "(bytes \<Rightarrow> nat option) \<Rightarrow> bytes \<Rightarrow> ProxyGlobals \<Rightarrow> fault + (int \<times> bytes \<times> ProxyGlobals)" where
  "proxy_ParseRequest findCRLF buffer g =
     (case findCRLF buffer of
        Some crlf \<Rightarrow>
          (let colon = std_find buffer 0 crlf (CHR ''H'')
           in if colon = crlf then Inr (2, buffer, g)
              else and_then (proxy_ParseRequestLine buffer 0 crlf g) (\<lambda>(parseOk, g1).
                     Inr (if parseOk then (1, [], g1) else (0, buffer, g1))))
      | None \<Rightarrow> Inr (0, buffer, g))"

subsection \<open>The message callback\<close>

datatype proxy_event = ToClient bytes | ToServer bytes | ShutdownClient

record Proxy =
  globals :: ProxyGlobals
  pcache :: ProxyCache
  inbuf :: bytes
  events :: "proxy_event list"

definition resStatus :: bytes where
  "resStatus = ''HTTP/1.0 200 OK'' @ CRLF"

definition resConn :: bytes where
  "resConn = ''Connection: close'' @ CRLF"

definition resError :: bytes where
  "resError = ''HTTP/1.0 404 Not Found'' @ CRLF"

text \<open>A \<open>char\<close> array as the C string that \<open>send\<close> takes it for.\<close>

definition c_str :: "bytes \<Rightarrow> bytes" where
  "c_str b = takeWhile (\<lambda>c. c \<noteq> CHR 0x00) b"

definition forward_request :: "ProxyGlobals \<Rightarrow> bytes" where
  "forward_request g =
     c_str (''GET '' @ g_path g @ (if g_version g = kHttp10 then '' HTTP/1.0'' else '' HTTP/1.1'') @ CRLF)"

definition emit :: "proxy_event list \<Rightarrow> Proxy \<Rightarrow> Proxy" where
  "emit es S = S\<lparr>events := events S @ es\<rparr>"

text \<open>\<open>has_context\<close>: the connection to the server is up. \<open>None\<close>: the callback does not return.\<close>

definition onServerMessage ::
  "(bytes \<Rightarrow> nat option) \<Rightarrow> bool \<Rightarrow> Proxy \<Rightarrow> (fault + Proxy) option" where
  "onServerMessage findCRLF has_context S =
     (if has_context
      then (case proxy_ParseRequest findCRLF (inbuf S) (globals S) of
              Inl f \<Rightarrow> Some (Inl f)
            | Inr (res, b, g) \<Rightarrow>
                (let S1 = S\<lparr>inbuf := b, globals := g\<rparr>
                 in if res = 1 then Some (Inr S1)
                    else if res = 2
                    then (case readItem (c_str (g_path g)) (pcache S1) of
                            None \<Rightarrow> None
                          | Some (Inl f) \<Rightarrow> Some (Inl f)
                          | Some (Inr (r, c)) \<Rightarrow>
                              (let S2 = S1\<lparr>pcache := c\<rparr>
                               in Some (Inr (case r of
                                    Some a \<Rightarrow> emit [ToClient resStatus, ToClient resConn, ToClient CRLF,
                                        ToClient (c_str (respBody (the (mem c a)))), ShutdownClient] S2
                                  | None \<Rightarrow> emit [ToServer (forward_request g), ToServer CRLF] S2))))
                    else Some (Inr (emit [ToClient resError, ToClient resConn, ToClient CRLF] S1))))
      else Some (Inr S))"

text \<open>New bytes from the client, then the callback.\<close>

definition client_sends :: "(bytes \<Rightarrow> nat option) \<Rightarrow> bytes \<Rightarrow> Proxy \<Rightarrow> (fault + Proxy) option" where
  "client_sends findCRLF d S = onServerMessage findCRLF True (S\<lparr>inbuf := inbuf S @ d\<rparr>)"

text \<open>What muduo documents of \<open>findCRLF\<close>: the position of the first CR LF of the unread bytes, or null.\<close>

definition finds_crlf :: "(bytes \<Rightarrow> nat option) \<Rightarrow> bool" where
  "finds_crlf f \<longleftrightarrow> (\<forall>b. f b = map_option (\<lambda>(l, r). length l) (split_crlf b))"

subsection \<open>The proxy's parser and the server's\<close>

definition agree :: "ProxyGlobals \<Rightarrow> HttpRequest \<Rightarrow> bool" where
  "agree g r \<longleftrightarrow> g_path g = path r \<and> g_query g = query r"

lemma proxy_target_agrees:
  assumes "agree g r"
  shows "(\<exists>f. proxy_target m s sp e g = Inl f \<and> ParseTarget m s sp e r = Inl f) \<or>
    (\<exists>g' r'. proxy_target m s sp e g = Inr g' \<and> ParseTarget m s sp e r = Inr r' \<and> agree g' r' \<and>
       g_method g' = g_method g \<and> http_method r' = http_method r)"
  using assms by (auto simp: proxy_target_def ParseTarget_def Let_def agree_def assign_def)

lemma proxy_version_agrees:
  "proxy_version m s e g = (ok, g') \<Longrightarrow> ParseVersion m s e r = (ok', r') \<Longrightarrow>
    ok = ok' \<and> http_version r' = Some (g_version g') \<and> (agree g r \<longrightarrow> agree g' r') \<and>
    g_method g' = g_method g \<and> http_method r' = http_method r"
  by (auto simp: proxy_version_def ParseVersion_def Let_def agree_def split: if_splits)

lemma proxy_line_agrees:
  assumes "agree g r" and "seg m s (std_find m s e (CHR '' '')) = ''GET''"
  shows "(\<exists>f. proxy_ParseRequestLine m s e g = Inl f \<and> ParseRequestLine m s e r = Inl f) \<or>
    (\<exists>ok g' r'. proxy_ParseRequestLine m s e g = Inr (ok, g') \<and> ParseRequestLine m s e r = Inr (ok, r') \<and>
       agree g' r' \<and> (ok \<longrightarrow> g_method g' = PGet \<and> http_method r' = Some kGet \<and> http_version r' = Some (g_version g')))"
proof -
  let ?sp = "std_find m s e (CHR '' '')"
  let ?g1 = "g\<lparr>g_method := PGet\<rparr>" and ?r1 = "r\<lparr>http_method := Some kGet\<rparr>"
  have pm: "proxy_ParseRequestMethod m s ?sp g = (True, ?g1)" "ParseRequestMethod m s ?sp r = (True, ?r1)"
    using assms(2) by (simp_all add: proxy_ParseRequestMethod_def ParseRequestMethod_def Let_def)
  have a1: "agree ?g1 ?r1" using assms(1) by (simp add: agree_def)
  let ?sp1 = "std_find m (Suc ?sp) e (CHR '' '')"
  consider "?sp = e" | "?sp \<noteq> e" "?sp1 = e" | "?sp \<noteq> e" "?sp1 \<noteq> e" by blast
  then show ?thesis
  proof cases
    case 3
    have pl: "proxy_ParseRequestLine m s e g = and_then (proxy_target m (Suc ?sp) ?sp1 e ?g1)
        (\<lambda>g2. Inr (proxy_version m (Suc ?sp1) e g2))"
      using 3 pm(1) by (simp add: proxy_ParseRequestLine_def Let_def)
    have hl: "ParseRequestLine m s e r = (case ParseTarget m (Suc ?sp) ?sp1 e ?r1 of
        Inl f \<Rightarrow> Inl f | Inr r2 \<Rightarrow> Inr (ParseVersion m (Suc ?sp1) e r2))"
      using 3 pm(2) by (simp add: ParseRequestLine_def Let_def split: sum.split)
    from proxy_target_agrees [OF a1, of m "Suc ?sp" ?sp1 e] show ?thesis
    proof (elim disjE exE conjE)
      fix f assume "proxy_target m (Suc ?sp) ?sp1 e ?g1 = Inl f" "ParseTarget m (Suc ?sp) ?sp1 e ?r1 = Inl f"
      then show ?thesis using pl hl by simp
    next
      fix g2 r2
      assume t: "proxy_target m (Suc ?sp) ?sp1 e ?g1 = Inr g2" "ParseTarget m (Suc ?sp) ?sp1 e ?r1 = Inr r2"
        "agree g2 r2" "g_method g2 = g_method ?g1" "http_method r2 = http_method ?r1"
      obtain ok g' where v: "proxy_version m (Suc ?sp1) e g2 = (ok, g')" by fastforce
      obtain ok' r' where v': "ParseVersion m (Suc ?sp1) e r2 = (ok', r')" by fastforce
      from proxy_version_agrees [OF v v'] have "ok = ok'" "http_version r' = Some (g_version g')" "agree g' r'"
        "g_method g' = PGet" "http_method r' = Some kGet" using t(3-5) by simp_all
      then show ?thesis using pl hl t(1,2) v v' by simp
    qed
  qed (use pm a1 assms(1) in \<open>auto simp: proxy_ParseRequestLine_def ParseRequestLine_def Let_def\<close>)
qed

lemma ParseRequestLine_method:
  assumes "ParseRequestLine m s e r = Inr (True, r')" and "http_method r' = Some kGet"
  shows "seg m s (std_find m s e (CHR '' '')) = ''GET''"
proof -
  have t: "ParseTarget a b c d r1 = Inr r2 \<Longrightarrow> http_method r2 = http_method r1" for a b c d r1 r2
    by (auto simp: ParseTarget_def Let_def assign_def split: if_splits)
  have v: "ParseVersion a b c r1 = (ok, r2) \<Longrightarrow> http_method r2 = http_method r1" for a b c ok r1 r2
    by (auto simp: ParseVersion_def Let_def split: if_splits)
  obtain r1 where r1: "ParseRequestMethod m s (std_find m s e (CHR '' '')) r = (True, r1)" "http_method r1 = Some kGet"
    using assms by (auto simp: ParseRequestLine_def Let_def split: prod.splits if_splits sum.splits dest!: t v)
  then show ?thesis by (auto simp: ParseRequestMethod_def Let_def split: if_splits)
qed

lemma proxy_method:
  "proxy_ParseRequestLine m s e g = Inr (True, g') \<Longrightarrow> seg m s (std_find m s e (CHR '' '')) = ''GET''"
  by (rule ccontr) (auto simp: proxy_ParseRequestLine_def proxy_ParseRequestMethod_def Let_def split: if_splits)

subsection \<open>Properties\<close>

text \<open>
  C39: The proxy accepts exactly the GET lines that the server's own parser accepts, and reads the same path,
  query and version from them.
\<close>

theorem proxy_accepts_get_lines:
  assumes "agree g r"
  shows "(\<exists>g'. proxy_ParseRequestLine m s e g = Inr (True, g') \<and> g_path g' = p \<and> g_query g' = q \<and> g_version g' = v) \<longleftrightarrow>
    (\<exists>r'. ParseRequestLine m s e r = Inr (True, r') \<and> http_method r' = Some kGet \<and> path r' = p \<and> query r' = q \<and>
       http_version r' = Some v)"
proof (cases "seg m s (std_find m s e (CHR '' '')) = ''GET''")
  case True
  from proxy_line_agrees [OF assms True] show ?thesis by (auto simp: agree_def)
next
  case False
  then show ?thesis using ParseRequestLine_method [of m s e r] proxy_method [of m s e g] by blast
qed

lemma proxy_accepts_get_lines_witness:
  "\<exists>g'. proxy_ParseRequestLine ''GET /a?b=1 HTTP/1.0'' 0 19 \<lparr>g_method = POther, g_path = [], g_query = [], g_version = kUnknown\<rparr> =
     Inr (True, g') \<and> g_path g' = ''/a'' \<and> g_query g' = ''b=1'' \<and> g_version g' = kHttp10"
proof -
  let ?g = "\<lparr>g_method = POther, g_path = [], g_query = [], g_version = kUnknown\<rparr>"
  have "agree ?g new_HttpRequest" by (simp add: agree_def new_HttpRequest_def)
  moreover have "ParseRequestLine ''GET /a?b=1 HTTP/1.0'' 0 19 new_HttpRequest =
      Inr (True, requested kGet ''/a'' (Some ''b=1'') False new_HttpRequest)"
  proof -
    have "seg ''GET /a?b=1 HTTP/1.0'' 0 19 = render_line kGet ''/a'' (Some ''b=1'') False" by code_simp
    then show ?thesis using ParseRequestLine_eq [of 0 19 "''GET /a?b=1 HTTP/1.0''" new_HttpRequest]
      by (simp add: parse_line_render target_ok_def CR_def)
  qed
  ultimately show ?thesis using proxy_accepts_get_lines [of ?g new_HttpRequest] by (simp add: requested_def)
qed

lemma render_line_parts:
  "target_ok p q \<Longrightarrow> CR \<notin> set (render_line m p q v)" "CHR ''H'' \<in> set (render_line m p q v)"
  "split_at (CHR '' '') (render_line m p q v) = Some (method_name m, render_target p q @ '' '' @ version_name v)"
proof -
  have m: "CHR '' '' \<notin> set (method_name m)" "CR \<notin> set (method_name m)" by (cases m; simp add: CR_def)+
  show "target_ok p q \<Longrightarrow> CR \<notin> set (render_line m p q v)"
    using m by (auto simp: render_line_def render_target_def target_ok_def version_name_def CR_def split: option.splits)
  show "CHR ''H'' \<in> set (render_line m p q v)" by (simp add: render_line_def version_name_def)
  show "split_at (CHR '' '') (render_line m p q v) = Some (method_name m, render_target p q @ '' '' @ version_name v)"
    using m(1) by (simp add: render_line_def)
qed


definition demo_findCRLF :: "bytes \<Rightarrow> nat option" where
  "demo_findCRLF b = map_option (\<lambda>(l, r). length l) (split_crlf b)"

lemma demo_findCRLF: "finds_crlf demo_findCRLF"
  by (simp add: finds_crlf_def demo_findCRLF_def)

definition demo_proxy :: Proxy where
  "demo_proxy = \<lparr>globals = \<lparr>g_method = POther, g_path = [], g_query = [], g_version = kUnknown\<rparr>,
     pcache = demo_cache, inbuf = [], events = []\<rparr>"


text \<open>
  An empty line in a piece of its own starts the lookup for the path read before: a cached object is
  sent to the client as it is, behind a status line and a Connection header, and the connection is shut;
  otherwise a request for the path is sent to the server, without the query and the client's headers.
\<close>

theorem empty_line_starts_lookup:
  assumes "finds_crlf f" and "inbuf S = []" and "represents (pcache S) xs es"
    and "readcnt (pcache S) = 0" and "W (pcache S) = 1" and "mutex (pcache S) > 0"
    and "path0 = g_path (globals S)" and "CHR 0x00 \<notin> set path0"
  shows "\<exists>S'. client_sends f CRLF S = Some (Inr S') \<and> events S' = events S @
    (case find (\<lambda>e. path0 = fst e) es of
       Some (u, body, len) \<Rightarrow> [ToClient resStatus, ToClient resConn, ToClient CRLF, ToClient (c_str body), ShutdownClient]
     | None \<Rightarrow> [ToServer (''GET '' @ path0 @ (if g_version (globals S) = kHttp10 then '' HTTP/1.0'' else '' HTTP/1.1'') @ CRLF),
         ToServer CRLF])"
proof -
  have "f CRLF = Some 0" using assms(1) split_crlf_line [of "[]" "[]"] by (simp add: finds_crlf_def)
  moreover have "std_find CRLF 0 0 (CHR ''H'') = 0" by (subst std_find.simps) simp
  ultimately have p: "proxy_ParseRequest f CRLF (globals S) = Inr (2, CRLF, globals S)"
    by (simp add: proxy_ParseRequest_def)
  have cs: "c_str path0 = path0" unfolding c_str_def by (rule takeWhile_eq_all_conv [THEN iffD2]) (use assms(8) in auto)
  obtain r c where r: "readItem path0 (pcache S) = Some (Inr (r, c))"
    "map_option (entry_at (mem (pcache S))) r = find (\<lambda>e. path0 = fst e) es" "mem c = mem (pcache S)"
  proof -
    let ?S1 = "(pcache S)\<lparr>readcnt := 1, W := 0\<rparr>"
    have inv: "cache_inv (pcache S) xs" "map (entry_at (mem (pcache S))) xs = es"
      using assms(3) by (simp_all add: represents_def)
    have S1: "read_enter (pcache S) = Some ?S1" "read_exit ?S1 = Some (pcache S)"
      using assms(4-6) by (simp_all add: read_enter_def read_exit_def sem_P_def sem_V_def Let_def)
    have "find (\<lambda>a. path0 = uri (the (mem (pcache S) a))) xs = None \<Longrightarrow> ?thesis"
      using readItem_step [OF inv(1) S1(1), of path0] S1(2) find_entry [OF inv(2), of path0] that [of None "pcache S"] by simp
    moreover have "find (\<lambda>a. path0 = uri (the (mem (pcache S) a))) xs = Some a \<Longrightarrow> ?thesis" for a
      using readItem_step [OF inv(1) S1(1), of path0] find_entry [OF inv(2), of path0] that [of "Some a" ?S1] by simp
    ultimately show ?thesis by (cases "find (\<lambda>a. path0 = uri (the (mem (pcache S) a))) xs") blast+
  qed
  have fw: "forward_request (globals S) = ''GET '' @ path0 @
      (if g_version (globals S) = kHttp10 then '' HTTP/1.0'' else '' HTTP/1.1'') @ CRLF"
    unfolding forward_request_def c_str_def assms(7) [symmetric]
    by (rule takeWhile_eq_all_conv [THEN iffD2]) (use assms(8) in \<open>auto simp: CRLF_def CR_def LF_def\<close>)
  show ?thesis
  proof (cases r)
    case None
    have call: "client_sends f CRLF S = Some (Inr (emit [ToServer (forward_request (globals S)), ToServer CRLF]
        (S\<lparr>inbuf := CRLF, pcache := c\<rparr>)))"
      using r(1) p cs assms(2) None by (simp add: client_sends_def onServerMessage_def Let_def assms(7) [symmetric])
    have "find (\<lambda>e. path0 = fst e) es = None" using r(2) None by simp
    then show ?thesis using call fw by (simp add: emit_def)
  next
    case (Some a)
    have call: "client_sends f CRLF S = Some (Inr (emit [ToClient resStatus, ToClient resConn, ToClient CRLF,
        ToClient (c_str (respBody (the (mem c a)))), ShutdownClient] (S\<lparr>inbuf := CRLF, pcache := c\<rparr>)))"
      using r(1) p cs assms(2) Some by (simp add: client_sends_def onServerMessage_def Let_def assms(7) [symmetric])
    have "find (\<lambda>e. path0 = fst e) es = Some (entry_at (mem c) a)" using r(2,3) Some by simp
    then show ?thesis using call by (simp add: emit_def entry_at_def)
  qed
qed

lemma empty_line_starts_lookup_witness:
  "\<exists>S'. client_sends demo_findCRLF CRLF (demo_proxy\<lparr>globals := \<lparr>g_method = PGet, g_path = ''/x'', g_query = ''q'', g_version = kHttp10\<rparr>\<rparr>) =
     Some (Inr S') \<and> events S' = [ToServer (''GET /x HTTP/1.0'' @ CRLF), ToServer CRLF]"
  using empty_line_starts_lookup [OF demo_findCRLF, of
      "demo_proxy\<lparr>globals := \<lparr>g_method = PGet, g_path = ''/x'', g_query = ''q'', g_version = kHttp10\<rparr>\<rparr>" "[]" "[]" "''/x''"]
  by (simp add: demo_proxy_def demo_cache_fields)

end
