(* ===== verification/Proxy_Tunnel.thy ===== *)
theory Proxy_Tunnel
  imports Proxy_Server
begin

text \<open>
  \<^verbatim>\<open>Proxy/tuunel.h\<close> and \<open>onServerConnection\<close> of \<^verbatim>\<open>Proxy/Proxy.cc\<close>: for every client of the proxy a
  tunnel with a connection of its own to the server behind it.

  The connections and the \<open>TcpClient\<close> belong to the installed muduo library. What the code asks of
  them is a list of calls; of their state the model keeps the context, which the code sets and reads. A
  connection to a client of the proxy is named by its string, one to the server by a number. The message
  callback \<open>onServerMessage\<close> of \<open>Proxy_Server\<close> sends on the same connections; it is part of the events below.
\<close>

subsection \<open>State and operations\<close>

datatype lib_call =
    SetTcpNoDelayServer string | StopRead string | StartRead string | SendServer string bytes
  | ShutdownServer string | SetTcpNoDelayClient nat | SendClient nat bytes
  | ClientConnect nat | ClientDisconnect nat

text \<open>\<open>own_connection_cb\<close>, \<open>own_message_cb\<close>: the callbacks of \<open>client_\<close> are the tunnel's own, which hold a
  shared pointer to the tunnel, and not the library's defaults.\<close>

record Tunnel =
  own_connection_cb :: bool
  own_message_cb :: bool
  serverConn :: "string option"
  clientConn :: "nat option"

record TunnelWorld =
  g_tunnels :: "string \<rightharpoonup> nat"
  tunnels :: "Tunnel list"
  conn_context :: "string \<rightharpoonup> nat"
  calls :: "lib_call list"

definition new_Tunnel :: "string \<Rightarrow> Tunnel" where
  "new_Tunnel conn = \<lparr>own_connection_cb = False, own_message_cb = False, serverConn = Some conn, clientConn = None\<rparr>"

definition lib :: "lib_call list \<Rightarrow> TunnelWorld \<Rightarrow> TunnelWorld" where
  "lib cs Tw = Tw\<lparr>calls := calls Tw @ cs\<rparr>"

definition on_tunnel :: "nat \<Rightarrow> (Tunnel \<Rightarrow> Tunnel) \<Rightarrow> TunnelWorld \<Rightarrow> TunnelWorld" where
  "on_tunnel i f Tw = Tw\<lparr>tunnels := (tunnels Tw)[i := f (tunnels Tw ! i)]\<rparr>"

definition tunnel_setup :: "Tunnel \<Rightarrow> Tunnel" where
  "tunnel_setup t = t\<lparr>own_connection_cb := True, own_message_cb := True\<rparr>"

definition connection :: "nat \<Rightarrow> TunnelWorld \<Rightarrow> TunnelWorld" where
  "connection i Tw = lib [ClientConnect i] Tw"

definition disconnection :: "nat \<Rightarrow> TunnelWorld \<Rightarrow> TunnelWorld" where
  "disconnection i Tw = lib [ClientDisconnect i] Tw"

definition teardown :: "nat \<Rightarrow> TunnelWorld \<Rightarrow> TunnelWorld" where
  "teardown i Tw =
     (let W1 = on_tunnel i (\<lambda>t. t\<lparr>own_connection_cb := False, own_message_cb := False\<rparr>) Tw;
          W2 = (case serverConn (tunnels W1 ! i) of
                  None \<Rightarrow> W1
                | Some n \<Rightarrow> lib [ShutdownServer n] (W1\<lparr>conn_context := (conn_context W1)(n := None)\<rparr>))
      in on_tunnel i (\<lambda>t. t\<lparr>clientConn := None\<rparr>) W2)"

text \<open>
  \<open>onClientConnection\<close> of tunnel \<open>i\<close>: \<open>up\<close> is what \<open>connected\<close> answers for the connection \<open>c\<close>, \<open>input\<close>
  the unread bytes of the other side's input buffer.
\<close>

definition onClientConnection :: "nat \<Rightarrow> nat \<Rightarrow> bool \<Rightarrow> bytes \<Rightarrow> TunnelWorld \<Rightarrow> fault + TunnelWorld" where
  "onClientConnection i c up input Tw =
     (if up
      then (case serverConn (tunnels Tw ! i) of
              None \<Rightarrow> Inl NullDeref
            | Some n \<Rightarrow>
                (let W1 = lib [SetTcpNoDelayClient c] Tw;
                     W2 = lib [StartRead n] (W1\<lparr>conn_context := (conn_context W1)(n \<mapsto> c)\<rparr>);
                     W3 = on_tunnel i (\<lambda>t. t\<lparr>clientConn := Some c\<rparr>) W2
                 in Inr (if length input > 0 then lib [SendClient c input] W3 else W3)))
      else Inr (teardown i Tw))"

text \<open>The \<open>abort\<close> of a tunnel without a client is a failed assertion.\<close>

definition onClientMessage :: "nat \<Rightarrow> bytes \<Rightarrow> TunnelWorld \<Rightarrow> fault + TunnelWorld" where
  "onClientMessage i data Tw =
     (case serverConn (tunnels Tw ! i) of
        Some n \<Rightarrow> Inr (lib [SendServer n data] Tw)
      | None \<Rightarrow> Inl AssertFailed)"

definition onServerConnection :: "string \<Rightarrow> bool \<Rightarrow> TunnelWorld \<Rightarrow> fault + TunnelWorld" where
  "onServerConnection name up Tw =
     (if up
      then (let W1 = lib [SetTcpNoDelayServer name, StopRead name] Tw;
                i = length (tunnels W1);
                W2 = W1\<lparr>tunnels := tunnels W1 @ [new_Tunnel name]\<rparr>;
                W3 = connection i (on_tunnel i tunnel_setup W2)
            in Inr (W3\<lparr>g_tunnels := (g_tunnels W3)(name \<mapsto> i)\<rparr>))
      else (case g_tunnels Tw name of
              None \<Rightarrow> Inl AssertFailed
            | Some i \<Rightarrow>
                (let W1 = disconnection i Tw
                 in Inr (W1\<lparr>g_tunnels := (g_tunnels W1)(name := None)\<rparr>))))"

text \<open>A tunnel lives while the map or a callback of its own client points to it.\<close>

definition tunnel_alive :: "nat \<Rightarrow> TunnelWorld \<Rightarrow> bool" where
  "tunnel_alive i Tw \<longleftrightarrow> Some i \<in> range (g_tunnels Tw) \<or> own_connection_cb (tunnels Tw ! i) \<or> own_message_cb (tunnels Tw ! i)"

subsection \<open>Events\<close>

text \<open>
  What the library promises: names are never used again; a connection reports up once and down once,
  and messages only in between. The link of a tunnel to the server may come up at any time after
  \<open>connect\<close>, even when its client has gone meanwhile.
\<close>

datatype link_phase = NotYet | LinkUp nat | LinkDown

text \<open>
  \<open>clients\<close> are the names of the proxy's clients in the order they connected. \<open>proxy\<close> holds the globals and the
  cache that all clients share, \<open>unread\<close> what each client's input buffer still holds. \<open>pieces n\<close> records what
  was to go to client \<open>n\<close>, in order: what the link of its tunnel delivered, and the replies of the proxy itself.
\<close>

datatype piece = FromLink bytes | Own bytes

fun piece_bytes :: "piece \<Rightarrow> bytes" where
  "piece_bytes (FromLink d) = d"
| "piece_bytes (Own r) = r"

record TunnelSystem =
  tworld :: TunnelWorld
  conns_up :: "string set"
  clients :: "string list"
  link :: "nat \<Rightarrow> link_phase"
  proxy :: Proxy
  unread :: "string \<Rightarrow> bytes"
  pieces :: "string \<Rightarrow> piece list"

text \<open>What \<open>onServerMessage\<close> on the connection \<open>n\<close>, whose context is \<open>c\<close>, asks of the library.\<close>

fun event_call :: "string \<Rightarrow> nat \<Rightarrow> proxy_event \<Rightarrow> lib_call" where
  "event_call n c (ToClient d) = SendServer n d"
| "event_call n c (ToServer d) = SendClient c d"
| "event_call n c ShutdownClient = ShutdownServer n"

definition context_calls :: "string \<Rightarrow> nat option \<Rightarrow> proxy_event list \<Rightarrow> lib_call list" where
  "context_calls n ctx es = (case ctx of None \<Rightarrow> [] | Some c \<Rightarrow> map (event_call n c) es)"

fun to_client :: "proxy_event list \<Rightarrow> bytes" where
  "to_client [] = []"
| "to_client (ToClient d # es) = d @ to_client es"
| "to_client (_ # es) = to_client es"

text \<open>
  \<open>server_message\<close>: more bytes from a client of the proxy. If the callback faults or does not return, the
  proxy ends there: no further event happens.
\<close>

inductive tunnel_step :: "(bytes \<Rightarrow> nat option) \<Rightarrow> TunnelSystem \<Rightarrow> TunnelSystem \<Rightarrow> bool" for findCRLF where
  server_up: "n \<notin> set (clients S) \<Longrightarrow> onServerConnection n True (tworld S) = Inr Tw \<Longrightarrow>
    tunnel_step findCRLF S (S\<lparr>tworld := Tw, conns_up := insert n (conns_up S), clients := clients S @ [n]\<rparr>)"
| server_down: "n \<in> conns_up S \<Longrightarrow> onServerConnection n False (tworld S) = Inr Tw \<Longrightarrow>
    tunnel_step findCRLF S (S\<lparr>tworld := Tw, conns_up := conns_up S - {n}\<rparr>)"
| server_message: "n \<in> conns_up S \<Longrightarrow> ctx = conn_context (tworld S) n \<Longrightarrow>
    onServerMessage findCRLF (ctx \<noteq> None) ((proxy S)\<lparr>inbuf := unread S n @ data, events := []\<rparr>) = Some (Inr P) \<Longrightarrow>
    tunnel_step findCRLF S (S\<lparr>tworld := lib (context_calls n ctx (events P)) (tworld S), proxy := P,
      unread := (unread S)(n := inbuf P), pieces := (pieces S)(n := pieces S n @ [Own (to_client (events P))])\<rparr>)"
| client_up: "i < length (tunnels (tworld S)) \<Longrightarrow> link S i = NotYet \<Longrightarrow>
    onClientConnection i c True input (tworld S) = Inr Tw \<Longrightarrow>
    tunnel_step findCRLF S (S\<lparr>tworld := Tw, link := (link S)(i := LinkUp c)\<rparr>)"
| client_message: "i < length (tunnels (tworld S)) \<Longrightarrow> link S i = LinkUp c \<Longrightarrow>
    onClientMessage i data (tworld S) = Inr Tw \<Longrightarrow> n = clients S ! i \<Longrightarrow>
    tunnel_step findCRLF S (S\<lparr>tworld := Tw, pieces := (pieces S)(n := pieces S n @ [FromLink data])\<rparr>)"
| client_down: "i < length (tunnels (tworld S)) \<Longrightarrow> link S i = LinkUp c \<Longrightarrow>
    onClientConnection i c False input (tworld S) = Inr Tw \<Longrightarrow>
    tunnel_step findCRLF S (S\<lparr>tworld := Tw, link := (link S)(i := LinkDown)\<rparr>)"

definition tunnel_start :: "Proxy \<Rightarrow> TunnelSystem" where
  "tunnel_start P = \<lparr>tworld = \<lparr>g_tunnels = Map.empty, tunnels = [], conn_context = Map.empty, calls = []\<rparr>,
     conns_up = {}, clients = [], link = (\<lambda>_. NotYet), proxy = P, unread = (\<lambda>_. []), pieces = (\<lambda>_. [])\<rparr>"

inductive tunnel_reachable :: "(bytes \<Rightarrow> nat option) \<Rightarrow> Proxy \<Rightarrow> TunnelSystem \<Rightarrow> bool" for findCRLF P where
  start: "tunnel_reachable findCRLF P (tunnel_start P)"
| step: "tunnel_reachable findCRLF P S \<Longrightarrow> tunnel_step findCRLF S S' \<Longrightarrow> tunnel_reachable findCRLF P S'"

text \<open>The bytes given to \<open>send\<close> on the connection of a client of the proxy.\<close>

fun sent_to :: "string \<Rightarrow> lib_call list \<Rightarrow> bytes" where
  "sent_to n [] = []"
| "sent_to n (SendServer m d # cs) = (if m = n then d else []) @ sent_to n cs"
| "sent_to n (_ # cs) = sent_to n cs"

lemma sent_to_append [simp]: "sent_to n (cs @ ds) = sent_to n cs @ sent_to n ds"
  by (induction n cs rule: sent_to.induct) simp_all

lemma sent_to_events: "sent_to m (map (event_call n c) es) = (if m = n then to_client es else [])"
  by (induction es rule: to_client.induct) simp_all

subsection \<open>The replies of the proxy itself\<close>

definition not_found_reply :: bytes where
  "not_found_reply = ''HTTP/1.0 404 Not Found'' @ CRLF @ ''Connection: close'' @ CRLF @ CRLF"

definition cached_reply :: "obj_t \<Rightarrow> bytes" where
  "cached_reply x = ''HTTP/1.0 200 OK'' @ CRLF @ ''Connection: close'' @ CRLF @ CRLF @ c_str (respBody x)"

definition proxy_replies :: "store \<Rightarrow> bytes set" where
  "proxy_replies h = {[], not_found_reply} \<union> {cached_reply x | a x. h a = Some x}"

lemma find_item_found:
  assumes "find_item h u cur = Some (Inr (Some a))"
  shows "h a \<noteq> None"
proof -
  have "r = Inr (Some a) \<longrightarrow> h a \<noteq> None" if "find_item h u cur = Some r" for r
    using that
  proof (induction rule: find_item.raw_induct [rotated, consumes 1, case_names step])
    case (step fi h u cur r)
    then show ?case by (auto simp: deref_def split: sum.splits option.splits if_splits)
  qed
  then show ?thesis using assms by blast
qed

lemma semaphores_mem: "read_enter S = Some S' \<Longrightarrow> mem S' = mem S" "read_exit S = Some S' \<Longrightarrow> mem S' = mem S"
  by (auto simp: read_enter_def read_exit_def Let_def split: option.splits if_splits)

lemma readItem_result:
  assumes "readItem u S = Some (Inr (r, S'))"
  shows "mem S' = mem S" "r = Some a \<Longrightarrow> mem S a \<noteq> None"
  using assms find_item_found
  by (auto simp: readItem_def semaphores_mem split: option.splits sum.splits)

text \<open>Every message is answered with one of these, or with nothing, and the objects of the cache stay as they are.\<close>

lemma onServerMessage_replies:
  assumes "onServerMessage findCRLF up S = Some (Inr P)" and "events S = []"
  shows "to_client (events P) \<in> proxy_replies (mem (pcache S))" "mem (pcache P) = mem (pcache S)"
    "\<not> up \<Longrightarrow> events P = []"
proof -
  note reply_defs = proxy_replies_def not_found_reply_def cached_reply_def emit_def resError_def resConn_def resStatus_def
  have "to_client (events P) \<in> proxy_replies (mem (pcache S)) \<and> mem (pcache P) = mem (pcache S)"
  proof (cases up)
    case False
    then show ?thesis using assms by (simp add: onServerMessage_def proxy_replies_def)
  next
    case True
    obtain res b g where p: "proxy_ParseRequest findCRLF (inbuf S) (globals S) = Inr (res, b, g)"
      using assms(1) True by (auto simp: onServerMessage_def split: sum.splits)
    consider "res = 1" | "res = 2" | "res \<noteq> 1" "res \<noteq> 2" by blast
    then show ?thesis
    proof cases
      case 2
      let ?S1 = "S\<lparr>inbuf := b, globals := g\<rparr>"
      obtain r c where r: "readItem (c_str (g_path g)) (pcache S) = Some (Inr (r, c))"
        using assms(1) True p 2 by (auto simp: onServerMessage_def Let_def split: option.splits sum.splits)
      note rr = readItem_result [OF r]
      show ?thesis
      proof (cases r)
        case None
        then have "P = emit [ToServer (forward_request g), ToServer CRLF] (?S1\<lparr>pcache := c\<rparr>)"
          using assms(1) True p 2 r by (simp add: onServerMessage_def)
        then show ?thesis using rr(1) assms(2) by (simp add: emit_def proxy_replies_def)
      next
        case (Some a)
        then obtain x where x: "mem (pcache S) a = Some x" using rr(2) by blast
        have "P = emit [ToClient resStatus, ToClient resConn, ToClient CRLF, ToClient (c_str (respBody x)), ShutdownClient]
            (?S1\<lparr>pcache := c\<rparr>)"
          using assms(1) True p 2 r Some rr(1) x by (simp add: onServerMessage_def)
        then have "to_client (events P) = cached_reply x" "mem (pcache P) = mem (pcache S)"
          using rr(1) assms(2) by (simp_all add: reply_defs)
        then show ?thesis using x by (auto simp: proxy_replies_def)
      qed
    qed (use assms True p in \<open>auto simp: onServerMessage_def reply_defs\<close>)
  qed
  then show "to_client (events P) \<in> proxy_replies (mem (pcache S))" "mem (pcache P) = mem (pcache S)" by blast+
  show "\<not> up \<Longrightarrow> events P = []" using assms by (simp add: onServerMessage_def)
qed

subsection \<open>Invariant\<close>

text \<open>The state of tunnel \<open>i\<close> in the phases of its link.\<close>

definition tunnel_ok :: "nat \<Rightarrow> string \<Rightarrow> TunnelSystem \<Rightarrow> bool" where
  "tunnel_ok i n S \<longleftrightarrow>
     (let t = tunnels (tworld S) ! i; on = (link S i \<noteq> LinkDown)
      in own_connection_cb t = on \<and> own_message_cb t = on \<and> serverConn t = Some n \<and>
         clientConn t = (case link S i of LinkUp c \<Rightarrow> Some c | _ \<Rightarrow> None) \<and>
         conn_context (tworld S) n = clientConn t \<and>
         (n \<in> conns_up S \<longleftrightarrow> g_tunnels (tworld S) n = Some i))"

definition tunnel_inv :: "TunnelSystem \<Rightarrow> bool" where
  "tunnel_inv S \<longleftrightarrow>
     length (clients S) = length (tunnels (tworld S)) \<and> distinct (clients S) \<and>
     (\<forall>i < length (clients S). tunnel_ok i (clients S ! i) S) \<and>
     dom (g_tunnels (tworld S)) = conns_up S \<and> conns_up S \<subseteq> set (clients S) \<and>
     (\<forall>i \<ge> length (clients S). link S i = NotYet) \<and>
     (\<forall>n. n \<notin> set (clients S) \<longrightarrow> conn_context (tworld S) n = None)"

lemma tunnel_invD:
  assumes "tunnel_inv S"
  shows "length (clients S) = length (tunnels (tworld S))" "distinct (clients S)"
    "\<And>i. i < length (tunnels (tworld S)) \<Longrightarrow> tunnel_ok i (clients S ! i) S"
    "dom (g_tunnels (tworld S)) = conns_up S" "conns_up S \<subseteq> set (clients S)"
    "\<And>i. i \<ge> length (tunnels (tworld S)) \<Longrightarrow> link S i = NotYet"
    "\<And>n. n \<notin> set (clients S) \<Longrightarrow> conn_context (tworld S) n = None"
  using assms by (simp_all add: tunnel_inv_def)

text \<open>What goes to the clients is what was recorded for them.\<close>

definition output_inv :: "store \<Rightarrow> TunnelSystem \<Rightarrow> bool" where
  "output_inv h S \<longleftrightarrow> mem (pcache (proxy S)) = h \<and>
     (\<forall>n. sent_to n (calls (tworld S)) = concat (map piece_bytes (pieces S n))) \<and>
     (\<forall>n r. Own r \<in> set (pieces S n) \<longrightarrow> r \<in> proxy_replies h)"

lemma tunnel_ok_name:
  "tunnel_ok j m S \<Longrightarrow> (m \<in> conns_up S \<longleftrightarrow> g_tunnels (tworld S) m = Some j) \<and>
     serverConn (tunnels (tworld S) ! j) = Some m"
  by (simp add: tunnel_ok_def Let_def)

lemma tunnel_ok_frame:
  assumes "tunnel_ok j m S" and "tunnels (tworld S') ! j = tunnels (tworld S) ! j" and "link S' j = link S j"
    and "conn_context (tworld S') m = conn_context (tworld S) m"
    and "m \<in> conns_up S' \<longleftrightarrow> g_tunnels (tworld S') m = Some j"
  shows "tunnel_ok j m S'"
  using assms by (simp add: tunnel_ok_def Let_def)

text \<open>An event of the link of tunnel \<open>i\<close> touches nothing of the others.\<close>

lemma tunnel_inv_link:
  assumes inv: "tunnel_inv S" and i: "i < length (tunnels (tworld S))"
    and frame: "g_tunnels (tworld S') = g_tunnels (tworld S)" "conns_up S' = conns_up S" "clients S' = clients S"
      "length (tunnels (tworld S')) = length (tunnels (tworld S))"
      "\<And>j. j \<noteq> i \<Longrightarrow> tunnels (tworld S') ! j = tunnels (tworld S) ! j \<and> link S' j = link S j"
      "\<And>m. m \<noteq> clients S ! i \<Longrightarrow> conn_context (tworld S') m = conn_context (tworld S) m"
    and ok: "tunnel_ok i (clients S ! i) S \<Longrightarrow> tunnel_ok i (clients S ! i) S'"
  shows "tunnel_inv S'"
proof -
  note ns = tunnel_invD [OF inv]
  have "tunnel_ok j (clients S ! j) S'" if j: "j < length (tunnels (tworld S))" for j
  proof (cases "j = i")
    case True
    then show ?thesis using ok ns(3) [OF j] by simp
  next
    case False
    then have "clients S ! j \<noteq> clients S ! i" using ns(1,2) i j by (simp add: nth_eq_iff_index_eq)
    then show ?thesis using frame False tunnel_ok_name [OF ns(3) [OF j]]
      by (intro tunnel_ok_frame [OF ns(3) [OF j]]) simp_all
  qed
  moreover have "link S' j = NotYet" if "j \<ge> length (tunnels (tworld S))" for j
    using ns(6) [OF that] frame(5) [of j] that i by (cases "j = i") simp_all
  moreover have "clients S ! i \<in> set (clients S)" using ns(1) i by simp
  then have "conn_context (tworld S') m = None" if "m \<notin> set (clients S)" for m
    using ns(7) [OF that] frame(6) [of m] that by (cases "m = clients S ! i") simp_all
  ultimately show ?thesis using ns(1,2,4,5) frame(1-4) by (simp add: tunnel_inv_def)
qed

lemmas world_ops = lib_def on_tunnel_def connection_def disconnection_def teardown_def onClientConnection_def
  onClientMessage_def onServerConnection_def Let_def

lemma tunnel_inv_start: "tunnel_inv (tunnel_start P)" "output_inv (mem (pcache P)) (tunnel_start P)"
  by (simp_all add: tunnel_inv_def output_inv_def tunnel_start_def)

lemma tunnel_inv_server_up:
  assumes inv: "tunnel_inv S" and n: "n \<notin> set (clients S)" and Tw: "onServerConnection n True (tworld S) = Inr Tw"
  shows "tunnel_inv (S\<lparr>tworld := Tw, conns_up := insert n (conns_up S), clients := clients S @ [n]\<rparr>)"
    (is "tunnel_inv ?S'")
proof -
  note ns = tunnel_invD [OF inv]
  let ?k = "length (tunnels (tworld S))"
  have W': "tunnels Tw = tunnels (tworld S) @ [tunnel_setup (new_Tunnel n)]"
    "g_tunnels Tw = (g_tunnels (tworld S))(n \<mapsto> ?k)" "conn_context Tw = conn_context (tworld S)"
    using Tw by (auto simp: world_ops list_update_append)
  have old: "tunnel_ok j (clients S ! j) ?S'" if j: "j < ?k" for j
  proof -
    have "clients S ! j \<noteq> n" using n ns(1) j by (metis nth_mem)
    then show ?thesis using W' j ns(1) tunnel_ok_name [OF ns(3) [OF j]]
      by (intro tunnel_ok_frame [OF ns(3) [OF j]]) (simp_all add: nth_append)
  qed
  have new: "tunnel_ok ?k n ?S'"
    using W' ns(6) [of ?k] ns(7) [OF n] by (simp add: tunnel_ok_def tunnel_setup_def new_Tunnel_def Let_def)
  have "tunnel_ok j ((clients S @ [n]) ! j) ?S'" if "j < Suc ?k" for j
    using that old new ns(1) by (cases "j = ?k") (simp_all add: nth_append)
  then show ?thesis unfolding tunnel_inv_def using W' ns n by (intro conjI) auto
qed

lemma tunnel_inv_server_down:
  assumes inv: "tunnel_inv S" and n: "n \<in> conns_up S" and Tw: "onServerConnection n False (tworld S) = Inr Tw"
  shows "tunnel_inv (S\<lparr>tworld := Tw, conns_up := conns_up S - {n}\<rparr>)" (is "tunnel_inv ?S'")
proof -
  note ns = tunnel_invD [OF inv]
  have W': "tunnels Tw = tunnels (tworld S)" "g_tunnels Tw = (g_tunnels (tworld S))(n := None)"
    "conn_context Tw = conn_context (tworld S)"
    using Tw by (auto simp: world_ops split: option.splits)
  have "tunnel_ok j (clients S ! j) ?S'" if j: "j < length (tunnels (tworld S))" for j
    using W' tunnel_ok_name [OF ns(3) [OF j]] by (intro tunnel_ok_frame [OF ns(3) [OF j]]) auto
  then show ?thesis unfolding tunnel_inv_def using W' ns n by (intro conjI) auto
qed

lemma tunnel_step_inv: "tunnel_step findCRLF S S' \<Longrightarrow> tunnel_inv S \<Longrightarrow> tunnel_inv S'"
proof (induction rule: tunnel_step.induct)
  case (server_message n S ctx data P)
  note ns = tunnel_invD [OF server_message(4)]
  show ?case unfolding tunnel_inv_def using ns tunnel_ok_name [OF ns(3)]
    by (intro conjI allI impI) (auto simp: lib_def intro: tunnel_ok_frame [OF ns(3)])
next
  case (client_up i S c input Tw)
  note ok = tunnel_ok_name [OF tunnel_invD(3) [OF client_up(4,1)]]
  show ?case
    using client_up ok by (intro tunnel_inv_link [OF client_up(4,1)]) (auto simp: world_ops tunnel_ok_def split: if_splits)
next
  case (client_message i S c data Tw n)
  note ok = tunnel_ok_name [OF tunnel_invD(3) [OF client_message(5,1)]]
  show ?case
    using client_message ok by (intro tunnel_inv_link [OF client_message(5,1)]) (auto simp: world_ops tunnel_ok_def)
next
  case (client_down i S c input Tw)
  note ok = tunnel_ok_name [OF tunnel_invD(3) [OF client_down(4,1)]]
  show ?case
    using client_down ok by (intro tunnel_inv_link [OF client_down(4,1)]) (auto simp: world_ops tunnel_ok_def)
qed (rule tunnel_inv_server_up tunnel_inv_server_down; assumption)+

lemma output_step_inv: "tunnel_step findCRLF S S' \<Longrightarrow> tunnel_inv S \<Longrightarrow> output_inv h S \<Longrightarrow> output_inv h S'"
proof (induction rule: tunnel_step.induct)
  case (server_message n S ctx data P)
  have mem: "mem (pcache (proxy S)) = h" using server_message(5) by (simp add: output_inv_def)
  note r = onServerMessage_replies [OF server_message(3)]
  have "sent_to m (context_calls n ctx (events P)) = (if m = n then to_client (events P) else [])" for m
    using r(3) by (cases ctx) (simp_all add: context_calls_def sent_to_events)
  then show ?case using server_message(5) r(1,2) mem by (simp add: output_inv_def lib_def)
next
  case (client_message i S c data Tw n)
  have "serverConn (tunnels (tworld S) ! i) = Some n"
    using tunnel_ok_name [OF tunnel_invD(3) [OF client_message(5,1)]] client_message(4) by simp
  then show ?case using client_message(3,6) by (auto simp: output_inv_def onClientMessage_def lib_def)
qed (auto simp: output_inv_def world_ops split: if_splits option.splits)

lemma tunnel_reachable_inv:
  "tunnel_reachable findCRLF P S \<Longrightarrow> tunnel_inv S \<and> output_inv (mem (pcache P)) S"
proof (induction rule: tunnel_reachable.induct)
  case (step S S')
  then show ?case using tunnel_step_inv output_step_inv by blast
qed (simp add: tunnel_inv_start)

subsection \<open>Properties\<close>

text \<open>
  C20: The proxy's map holds exactly the clients that are connected, and every client has a tunnel of its own. What
  the proxy sends on the connection of a client is, in the order in which it happened, exactly what the
  link of its own tunnel delivered and the replies that the proxy gives itself to the messages of that client: nothing, the
  error reply, or an object of the cache behind its two lines; nothing of another client. The context of a
  connection, by which the message callback decides whether to work on a request, is the link of its tunnel exactly
  while that link is up.
\<close>

theorem tunnels_forward:
  assumes "tunnel_reachable findCRLF P S"
  shows "dom (g_tunnels (tworld S)) = conns_up S \<and> distinct (clients S) \<and>
    length (clients S) = length (tunnels (tworld S)) \<and>
    (\<forall>n. sent_to n (calls (tworld S)) = concat (map piece_bytes (pieces S n)) \<and>
       (\<forall>r. Own r \<in> set (pieces S n) \<longrightarrow> r \<in> proxy_replies (mem (pcache P)))) \<and>
    (\<forall>i < length (tunnels (tworld S)). serverConn (tunnels (tworld S) ! i) = Some (clients S ! i) \<and>
       (\<forall>c. conn_context (tworld S) (clients S ! i) = Some c \<longleftrightarrow> link S i = LinkUp c) \<and>
       (clients S ! i \<in> conns_up S \<longleftrightarrow> g_tunnels (tworld S) (clients S ! i) = Some i))"
proof -
  have inv: "tunnel_inv S" and out: "output_inv (mem (pcache P)) S" using tunnel_reachable_inv [OF assms] by blast+
  have "(\<forall>c. conn_context (tworld S) (clients S ! i) = Some c \<longleftrightarrow> link S i = LinkUp c)"
    if "i < length (tunnels (tworld S))" for i
    using tunnel_invD(3) [OF inv that] by (auto simp: tunnel_ok_def Let_def split: link_phase.splits)
  then show ?thesis
    using tunnel_invD(1,2,4) [OF inv] tunnel_ok_name [OF tunnel_invD(3) [OF inv]] out by (auto simp: output_inv_def)
qed

text \<open>
  A client that connects, whose link comes up with a byte waiting and delivers three, and that then sends
  something that is no request.
\<close>

definition demo_tunnel_world :: TunnelWorld where
  "demo_tunnel_world =
     \<lparr>g_tunnels = [''c'' \<mapsto> 0],
      tunnels = [\<lparr>own_connection_cb = True, own_message_cb = True, serverConn = Some ''c'', clientConn = Some 7\<rparr>],
      conn_context = [''c'' \<mapsto> 7],
      calls = [SetTcpNoDelayServer ''c'', StopRead ''c'', ClientConnect 0, SetTcpNoDelayClient 7, StartRead ''c'',
        SendClient 7 ''q'', SendServer ''c'' ''abc'']\<rparr>"

definition demo_tunnel :: TunnelSystem where
  "demo_tunnel = \<lparr>tworld = lib [SendServer ''c'' resError, SendServer ''c'' resConn, SendServer ''c'' CRLF] demo_tunnel_world,
     conns_up = {''c''}, clients = [''c''],
     link = (\<lambda>_. NotYet)(0 := LinkUp 7),
     proxy = emit [ToClient resError, ToClient resConn, ToClient CRLF] (demo_proxy\<lparr>inbuf := ''zz''\<rparr>),
     unread = (\<lambda>_. [])(''c'' := ''zz''), pieces = (\<lambda>_. [])(''c'' := [FromLink ''abc'', Own not_found_reply])\<rparr>"

lemma demo_tunnel_reachable: "tunnel_reachable demo_findCRLF demo_proxy demo_tunnel"
proof -
  let ?W1 = "\<lparr>g_tunnels = [''c'' \<mapsto> 0], tunnels = [tunnel_setup (new_Tunnel ''c'')], conn_context = Map.empty,
    calls = [SetTcpNoDelayServer ''c'', StopRead ''c'', ClientConnect 0]\<rparr>"
  let ?S1 = "(tunnel_start demo_proxy)\<lparr>tworld := ?W1, conns_up := {''c''}, clients := [''c'']\<rparr>"
  let ?W2 = "demo_tunnel_world\<lparr>calls := butlast (calls demo_tunnel_world)\<rparr>"
  let ?S2 = "?S1\<lparr>tworld := ?W2, link := (\<lambda>_. NotYet)(0 := LinkUp 7)\<rparr>"
  let ?S3 = "?S2\<lparr>tworld := demo_tunnel_world, pieces := (\<lambda>_. [])(''c'' := [FromLink ''abc''])\<rparr>"
  have "onServerConnection ''c'' True (tworld (tunnel_start demo_proxy)) = Inr ?W1"
    by (simp add: world_ops tunnel_start_def)
  then have 1: "tunnel_step demo_findCRLF (tunnel_start demo_proxy) ?S1"
    using tunnel_step.server_up [of "''c''" "tunnel_start demo_proxy" ?W1] by (simp add: tunnel_start_def)
  have "onClientConnection 0 7 True ''q'' ?W1 = Inr ?W2"
    by (simp add: world_ops tunnel_setup_def new_Tunnel_def demo_tunnel_world_def)
  then have 2: "tunnel_step demo_findCRLF ?S1 ?S2"
    using tunnel_step.client_up [of 0 ?S1 7 "''q''" ?W2] by (simp add: tunnel_start_def)
  have "onClientMessage 0 ''abc'' ?W2 = Inr demo_tunnel_world"
    by (simp add: world_ops demo_tunnel_world_def)
  then have 3: "tunnel_step demo_findCRLF ?S2 ?S3"
    using tunnel_step.client_message [of 0 ?S2 7 "''abc''" demo_tunnel_world "''c''"]
    by (simp add: demo_tunnel_world_def tunnel_start_def)
  have none: "demo_findCRLF ''zz'' = None" by code_simp
  have msg: "onServerMessage demo_findCRLF True (demo_proxy\<lparr>inbuf := ''zz'', events := []\<rparr>) =
      Some (Inr (emit [ToClient resError, ToClient resConn, ToClient CRLF] (demo_proxy\<lparr>inbuf := ''zz''\<rparr>)))"
    by (simp add: onServerMessage_def proxy_ParseRequest_def none) (simp add: demo_proxy_def)
  let ?P = "emit [ToClient resError, ToClient resConn, ToClient CRLF] (demo_proxy\<lparr>inbuf := ''zz''\<rparr>)"
  have events: "events ?P = [ToClient resError, ToClient resConn, ToClient CRLF]" "inbuf ?P = ''zz''"
    by (simp_all add: emit_def demo_proxy_def)
  have reply: "to_client [ToClient resError, ToClient resConn, ToClient CRLF] = not_found_reply"
    by (simp add: not_found_reply_def resError_def resConn_def)
  have S3: "proxy ?S3 = demo_proxy" "unread ?S3 = (\<lambda>_. [])" "conn_context (tworld ?S3) ''c'' = Some 7"
    "''c'' \<in> conns_up ?S3" by (simp_all add: tunnel_start_def demo_tunnel_world_def)
  have "tunnel_step demo_findCRLF ?S3 (?S3\<lparr>tworld := lib (context_calls ''c'' (Some 7) (events ?P)) (tworld ?S3), proxy := ?P,
      unread := (unread ?S3)(''c'' := inbuf ?P), pieces := (pieces ?S3)(''c'' := pieces ?S3 ''c'' @ [Own (to_client (events ?P))])\<rparr>)"
    by (rule tunnel_step.server_message [OF S3(4), where data = "''zz''"]) (simp_all only: S3 msg append_Nil option.distinct not_False_eq_True)
  then have 4: "tunnel_step demo_findCRLF ?S3 demo_tunnel"
    unfolding events reply by (simp add: demo_tunnel_def tunnel_start_def context_calls_def)
  show ?thesis by (meson 1 2 3 4 tunnel_reachable.intros)
qed

lemma tunnels_forward_witness:
  "tunnel_reachable demo_findCRLF demo_proxy demo_tunnel \<and> dom (g_tunnels (tworld demo_tunnel)) = {''c''} \<and>
     sent_to ''c'' (calls (tworld demo_tunnel)) = ''abc'' @ not_found_reply"
  using tunnels_forward [OF demo_tunnel_reachable] demo_tunnel_reachable
  by (auto simp: demo_tunnel_def demo_tunnel_world_def lib_def)

text \<open>
  The assertion of \<open>onServerConnection\<close> and the \<open>abort\<close> of \<open>onClientMessage\<close> are never reached: a client
  that disconnects has an entry in the map, and a tunnel whose link delivers has a client to send to.
\<close>

theorem tunnel_never_aborts:
  assumes "tunnel_reachable findCRLF P S" and "n \<in> conns_up S" and "i < length (tunnels (tworld S))"
  shows "(\<exists>Tw. onServerConnection n False (tworld S) = Inr Tw) \<and> (\<exists>Tw. onClientMessage i data (tworld S) = Inr Tw) \<and>
    (\<exists>Tw. onClientConnection i c up input (tworld S) = Inr Tw)"
proof -
  have inv: "tunnel_inv S" using tunnel_reachable_inv [OF assms(1)] by blast
  have "n \<in> dom (g_tunnels (tworld S))" using assms(2) tunnel_invD(4) [OF inv] by simp
  moreover have "serverConn (tunnels (tworld S) ! i) = Some (clients S ! i)"
    using tunnel_ok_name [OF tunnel_invD(3) [OF inv assms(3)]] by blast
  ultimately show ?thesis
    by (auto simp: onServerConnection_def onClientMessage_def onClientConnection_def Let_def)
qed

lemma tunnel_never_aborts_witness:
  "\<exists>Tw. onServerConnection ''c'' False (tworld demo_tunnel) = Inr Tw"
  using tunnel_never_aborts [OF demo_tunnel_reachable, of "''c''" 0]
  by (simp add: demo_tunnel_def demo_tunnel_world_def lib_def)

text \<open>
  When a client has gone, its tunnel is freed exactly if the link to the server has come up and gone
  down: the callbacks of the tunnel's own client hold shared pointers to it, and only \<open>teardown\<close>, at the
  end of the link, drops them. A tunnel whose link never came up stays for ever.
\<close>

theorem unconnected_tunnel_leaks:
  assumes "tunnel_reachable findCRLF P S" and "i < length (tunnels (tworld S))"
    and "serverConn (tunnels (tworld S) ! i) = Some n" and "n \<notin> conns_up S"
  shows "tunnel_alive i (tworld S) \<longleftrightarrow> link S i \<noteq> LinkDown"
proof -
  have inv: "tunnel_inv S" using tunnel_reachable_inv [OF assms(1)] by blast
  note ok = tunnel_invD(3) [OF inv assms(2)]
  have n: "clients S ! i = n" using tunnel_ok_name [OF ok] assms(3) by simp
  have "g_tunnels (tworld S) m \<noteq> Some i" for m
  proof
    assume m: "g_tunnels (tworld S) m = Some i"
    then have up: "m \<in> conns_up S" using tunnel_invD(4) [OF inv] by auto
    then obtain j where j: "j < length (tunnels (tworld S))" "clients S ! j = m"
      using tunnel_invD(1,5) [OF inv] by (metis in_set_conv_nth subsetD)
    then have "j = i" using tunnel_ok_name [OF tunnel_invD(3) [OF inv j(1)]] up m by simp
    then show False using j(2) n up assms(4) by simp
  qed
  then have "Some i \<notin> range (g_tunnels (tworld S))" by (metis rangeE)
  then show ?thesis using ok by (auto simp: tunnel_alive_def tunnel_ok_def Let_def)
qed

lemma unconnected_tunnel_leaks_witness:
  "\<exists>S. tunnel_reachable demo_findCRLF demo_proxy S \<and> conns_up S = {} \<and> tunnel_alive 0 (tworld S)"
proof -
  let ?W = "\<lparr>g_tunnels = [''c'' \<mapsto> 0], tunnels = [tunnel_setup (new_Tunnel ''c'')], conn_context = Map.empty,
    calls = [SetTcpNoDelayServer ''c'', StopRead ''c'', ClientConnect 0]\<rparr>"
  let ?S1 = "(tunnel_start demo_proxy)\<lparr>tworld := ?W, conns_up := {''c''}, clients := [''c'']\<rparr>"
  let ?W2 = "?W\<lparr>g_tunnels := Map.empty, calls := calls ?W @ [ClientDisconnect 0]\<rparr>"
  let ?S2 = "(tunnel_start demo_proxy)\<lparr>tworld := ?W2, clients := [''c'']\<rparr>"
  have "onServerConnection ''c'' True (tworld (tunnel_start demo_proxy)) = Inr ?W"
    by (simp add: world_ops tunnel_start_def)
  then have 1: "tunnel_step demo_findCRLF (tunnel_start demo_proxy) ?S1"
    using tunnel_step.server_up [of "''c''" "tunnel_start demo_proxy" ?W] by (simp add: tunnel_start_def)
  have "onServerConnection ''c'' False ?W = Inr ?W2"
    by (simp add: world_ops)
  then have 2: "tunnel_step demo_findCRLF ?S1 ?S2"
    using tunnel_step.server_down [of "''c''" ?S1 ?W2 demo_findCRLF] by (simp add: tunnel_start_def)
  have S2: "tunnel_reachable demo_findCRLF demo_proxy ?S2"
    by (rule tunnel_reachable.step [OF tunnel_reachable.step [OF tunnel_reachable.start 1] 2])
  then have "tunnel_alive 0 (tworld ?S2)"
    using unconnected_tunnel_leaks [OF S2, of 0 "''c''"] by (simp add: tunnel_setup_def new_Tunnel_def tunnel_start_def)
  then show ?thesis using S2 by (intro exI [of _ ?S2]) (simp add: tunnel_start_def)
qed

end
