(* ===== verification/Chat_Codec.thy ===== *)
theory Chat_Codec
  imports Net_Buffer
begin

text \<open>
  \<^verbatim>\<open>Examples/chat/codec.h\<close>: messages with a length header of four bytes in network order.

  The buffer is the one of the installed muduo library: its operations are arguments of the
  definitions, \<open>unread\<close> the bytes that \<open>readableBytes\<close> counts and \<open>peek\<close> points at, and \<open>retr\<close> its
  \<open>retrieve\<close>. The contract they rely on is the locale \<open>byte_queue\<close>, which this repository's own
  \<open>Buffer\<close> satisfies as well.
\<close>

subsection \<open>The header\<close>

definition kHeaderLen :: nat where
  "kHeaderLen = 4"

definition byte_val :: "char \<Rightarrow> int" where
  "byte_val c = int (of_char c)"

text \<open>\<open>networkToHost32\<close> of the four bytes at the front, and \<open>hostToNetwork32\<close> as bytes in memory.\<close>

definition networkToHost32 :: "bytes \<Rightarrow> int" where
  "networkToHost32 b =
     c_int (byte_val (b ! 0) * 2 ^ 24 + byte_val (b ! 1) * 2 ^ 16 + byte_val (b ! 2) * 2 ^ 8 + byte_val (b ! 3))"

definition hostToNetwork32 :: "int \<Rightarrow> bytes" where
  "hostToNetwork32 n =
     [char_of (nat (n div 2 ^ 24 mod 256)), char_of (nat (n div 2 ^ 16 mod 256)),
      char_of (nat (n div 2 ^ 8 mod 256)), char_of (nat (n mod 256))]"

subsection \<open>Receiving and sending\<close>

text \<open>
  \<open>onMessage\<close>: the messages handed to the callback, whether the connection was shut down for an
  invalid length, and the buffer. \<open>None\<close> would be a loop that does not end.
\<close>

partial_function (option) codec_onMessage ::
  "('b \<Rightarrow> bytes) \<Rightarrow> (nat \<Rightarrow> 'b \<Rightarrow> 'b) \<Rightarrow> 'b \<Rightarrow> (bytes list \<times> bool \<times> 'b) option" where
  "codec_onMessage unread retr buf =
     (if length (unread buf) \<ge> kHeaderLen
      then (let len = networkToHost32 (unread buf)
            in if len > 65536 \<or> len < 0 then Some ([], True, buf)
               else if length (unread buf) \<ge> nat len + kHeaderLen
               then (let buf1 = retr kHeaderLen buf;
                         message = take (nat len) (unread buf1)
                     in Option.bind (codec_onMessage unread retr (retr (nat len) buf1))
                          (\<lambda>(ms, bad, b). Some (message # ms, bad, b)))
               else Some ([], False, buf))
      else Some ([], False, buf))"

text \<open>\<open>send\<close>: the message is appended to a fresh buffer and the header prepended.\<close>

definition codec_send :: "bytes \<Rightarrow> bytes" where
  "codec_send message = hostToNetwork32 (c_int (int (length message))) @ message"

subsection \<open>The same on a byte string\<close>

function decode :: "bytes \<Rightarrow> bytes list \<times> bool \<times> bytes" where
  "decode b =
     (if length b \<ge> kHeaderLen
      then (let len = networkToHost32 b
            in if len > 65536 \<or> len < 0 then ([], True, b)
               else if length b \<ge> nat len + kHeaderLen
               then (let (ms, bad, r) = decode (drop (nat len + kHeaderLen) b)
                     in (take (nat len) (drop kHeaderLen b) # ms, bad, r))
               else ([], False, b))
      else ([], False, b))"
  by pat_completeness auto
termination
  by (relation "measure length") (auto simp: kHeaderLen_def)

declare decode.simps [simp del]

lemma networkToHost32_append: "length b \<ge> kHeaderLen \<Longrightarrow> networkToHost32 (b @ c) = networkToHost32 b"
proof -
  assume "length b \<ge> kHeaderLen"
  then have "(b @ c) ! i = b ! i" if "i < 4" for i
    using that by (simp add: nth_append_left kHeaderLen_def)
  then show ?thesis by (simp add: networkToHost32_def)
qed

text \<open>More bytes do not change what was decoded before them.\<close>

lemma decode_append:
  "decode b = (ms, bad, r) \<Longrightarrow>
    decode (b @ c) = (if bad then (ms, True, r @ c)
      else (let (ms2, bad2, r2) = decode (r @ c) in (ms @ ms2, bad2, r2)))"
proof (induction b arbitrary: ms bad r rule: decode.induct)
  case (1 b)
  let ?len = "networkToHost32 b"
  show ?case
  proof (cases "length b \<ge> kHeaderLen \<and> \<not> (?len > 65536 \<or> ?len < 0) \<and> length b \<ge> nat ?len + kHeaderLen")
    case True
    obtain ms1 r1 where d: "decode (drop (nat ?len + kHeaderLen) b) = (ms1, bad, r1)"
      and ms: "ms = take (nat ?len) (drop kHeaderLen b) # ms1" "r = r1"
      using True 1(2) by (subst (asm) decode.simps) (auto simp: Let_def split: prod.splits)
    have IH: "decode (drop (nat ?len + kHeaderLen) b @ c) = (if bad then (ms1, True, r1 @ c)
        else (let (ms2, bad2, r2) = decode (r1 @ c) in (ms1 @ ms2, bad2, r2)))"
      using 1(1) [OF _ refl _ _ d] True by simp
    have "take (nat ?len) (drop kHeaderLen (b @ c)) = take (nat ?len) (drop kHeaderLen b)"
      "drop (nat ?len + kHeaderLen) (b @ c) = drop (nat ?len + kHeaderLen) b @ c"
      using True by simp_all
    moreover have "length (b @ c) \<ge> nat ?len + kHeaderLen" "length (b @ c) \<ge> kHeaderLen" using True by simp_all
    ultimately have "decode (b @ c) = (let (ms, bad, r) = decode (drop (nat ?len + kHeaderLen) b @ c)
        in (take (nat ?len) (drop kHeaderLen b) # ms, bad, r))"
      using True by (subst decode.simps) (simp add: networkToHost32_append Let_def)
    then show ?thesis using IH ms by (simp split: prod.splits)
  next
    case False
    then have b: "ms = []" "r = b" "bad \<longleftrightarrow> length b \<ge> kHeaderLen \<and> (?len > 65536 \<or> ?len < 0)"
      using 1(2) by (auto simp: decode.simps [of b] Let_def split: if_splits)
    show ?thesis
    proof (cases bad)
      case True
      then have "decode (b @ c) = ([], True, b @ c)"
        using b(3) by (subst decode.simps) (simp add: networkToHost32_append Let_def)
      then show ?thesis using b True by simp
    next
      case False
      then show ?thesis using b(1,2) by (simp split: prod.split)
    qed
  qed
qed

lemma byte_val_char_of: "0 \<le> n \<Longrightarrow> n < 256 \<Longrightarrow> byte_val (char_of (nat n)) = n"
  by (simp add: byte_val_def of_char_of)

lemma base_256:
  "q1 * 256 + r0 = n \<Longrightarrow> q2 * 256 + r1 = q1 \<Longrightarrow> q3 * 256 + r2 = q2 \<Longrightarrow>
    q3 * 2 ^ 24 + r2 * 2 ^ 16 + r1 * 2 ^ 8 + r0 = (n :: int)"
proof -
  assume "q1 * 256 + r0 = n" "q2 * 256 + r1 = q1" "q3 * 256 + r2 = q2"
  then have "n = ((q3 * 256 + r2) * 256 + r1) * 256 + r0" by simp
  then show ?thesis by simp
qed

lemma header_roundtrip:
  assumes "0 \<le> n" and "n < 2 ^ 31"
  shows "networkToHost32 (hostToNetwork32 n @ r) = n"
proof -
  let ?a = "n div 2 ^ 24 mod 256" and ?b = "n div 2 ^ 16 mod 256" and ?c = "n div 2 ^ 8 mod 256" and ?d = "n mod 256"
  have "networkToHost32 (hostToNetwork32 n @ r) = c_int (?a * 2 ^ 24 + ?b * 2 ^ 16 + ?c * 2 ^ 8 + ?d)"
    by (simp add: networkToHost32_def hostToNetwork32_def byte_val_char_of)
  also have "?a * 2 ^ 24 + ?b * 2 ^ 16 + ?c * 2 ^ 8 + ?d = n"
  proof -
    define q1 q2 q3 where "q1 = n div 256" and "q2 = q1 div 256" and "q3 = q2 div 256"
    have e: "q1 * 256 + n mod 256 = n" "q2 * 256 + q1 mod 256 = q1" "q3 * 256 + q2 mod 256 = q2"
      by (simp_all only: q1_def q2_def q3_def div_mult_mod_eq)
    have q: "n div 2 ^ 8 = q1" "n div 2 ^ 16 = q2" "n div 2 ^ 24 = q3"
      by (simp_all add: q1_def q2_def q3_def zdiv_zmult2_eq [symmetric])
    have "n div 2 ^ 24 < 256" "0 \<le> n div 2 ^ 24" using assms by simp_all
    then have "q3 mod 256 = q3" unfolding q by (intro mod_pos_pos_trivial)
    moreover have "q3 * 2 ^ 24 + q2 mod 256 * 2 ^ 16 + q1 mod 256 * 2 ^ 8 + n mod 256 = n"
      using e by (rule base_256)
    ultimately show ?thesis unfolding q by simp
  qed
  finally show ?thesis using assms by (simp add: c_int_id)
qed

lemma decode_send:
  assumes "length m \<le> 65536"
  shows "decode (codec_send m @ r) = (let (ms, bad, r') = decode r in (m # ms, bad, r'))"
proof -
  have len: "length (hostToNetwork32 n) = kHeaderLen" for n by (simp add: hostToNetwork32_def kHeaderLen_def)
  have c: "c_int (int (length m)) = int (length m)" using assms by (intro c_int_nat) simp
  have h: "networkToHost32 (codec_send m @ r) = int (length m)"
    using header_roundtrip [of "int (length m)" "m @ r"] assms by (simp add: codec_send_def c)
  have d: "drop kHeaderLen (codec_send m @ r) = m @ r" "length (codec_send m) = kHeaderLen + length m"
    by (simp_all add: codec_send_def len)
  have "drop (length m + kHeaderLen) (codec_send m @ r) = r"
    using d(1) by (metis append_eq_conv_conj drop_drop add.commute)
  then show ?thesis using assms h d by (subst decode.simps) simp
qed

lemma decode_Nil: "decode [] = ([], False, [])"
  by (subst decode.simps) (simp add: kHeaderLen_def)

lemma decode_frames: "(\<forall>m \<in> set ms. length m \<le> 65536) \<Longrightarrow> decode (concat (map codec_send ms)) = (ms, False, [])"
  by (induction ms) (simp_all add: decode_Nil decode_send)

subsection \<open>The codec on a byte queue\<close>

context byte_queue
begin

lemma codec_decodes:
  "invar q \<Longrightarrow> decode (bytes_of q) = (ms, bad, r) \<Longrightarrow>
    \<exists>q'. codec_onMessage bytes_of deq q = Some (ms, bad, q') \<and> invar q' \<and> bytes_of q' = r"
proof (induction "bytes_of q" arbitrary: q ms rule: decode.induct)
  case (1 q)
  let ?len = "networkToHost32 (bytes_of q)"
  show ?case
  proof (cases "length (bytes_of q) \<ge> kHeaderLen \<and> \<not> (?len > 65536 \<or> ?len < 0) \<and>
      length (bytes_of q) \<ge> nat ?len + kHeaderLen")
    case True
    obtain ms1 where d: "decode (drop (nat ?len + kHeaderLen) (bytes_of q)) = (ms1, bad, r)"
      and ms: "ms = take (nat ?len) (drop kHeaderLen (bytes_of q)) # ms1"
      using True 1(3) by (subst (asm) decode.simps) (auto simp: Let_def split: prod.splits)
    let ?q = "deq (nat ?len) (deq kHeaderLen q)"
    have q: "invar ?q" "bytes_of ?q = drop (nat ?len + kHeaderLen) (bytes_of q)"
      using 1(2) by (simp_all add: queue_laws)
    obtain q' where "codec_onMessage bytes_of deq ?q = Some (ms1, bad, q')" "invar q'" "bytes_of q' = r"
      using 1(1) [OF _ refl _ _ q(2) [symmetric] q(1)] True d q(2) by auto
    then show ?thesis using True ms 1(2) by (subst codec_onMessage.simps) (simp add: Let_def queue_laws)
  next
    case False
    then show ?thesis using 1(2,3)
      by (subst codec_onMessage.simps) (auto simp: decode.simps [of "bytes_of q"] Let_def split: if_splits)
  qed
qed

end

text \<open>Chunks of bytes arrive; each is appended to the buffer and the callback runs.\<close>

fun receive ::
  "('b \<Rightarrow> bytes) \<Rightarrow> (bytes \<Rightarrow> 'b \<Rightarrow> 'b) \<Rightarrow> (nat \<Rightarrow> 'b \<Rightarrow> 'b) \<Rightarrow> bytes list \<Rightarrow> 'b \<Rightarrow> (bytes list \<times> 'b) option" where
  "receive unread app retr [] b = Some ([], b)"
| "receive unread app retr (d # ds) b =
     (case codec_onMessage unread retr (app d b) of
        None \<Rightarrow> None
      | Some (ms, bad, b1) \<Rightarrow>
          if bad then Some (ms, b1)
          else (case receive unread app retr ds b1 of
                  None \<Rightarrow> None | Some (ms2, b2) \<Rightarrow> Some (ms @ ms2, b2)))"

lemma decode_rest: "decode b = (ms, False, r) \<Longrightarrow> decode r = ([], False, r)"
proof -
  assume d: "decode b = (ms, False, r)"
  then show ?thesis using decode_append [OF d, of "[]"] by (auto split: prod.splits)
qed

context byte_queue
begin

lemma receive_decodes:
  "invar q \<Longrightarrow> decode (bytes_of q) = ([], False, bytes_of q) \<Longrightarrow>
    decode (bytes_of q @ concat ds) = (ms, False, r) \<Longrightarrow>
    \<exists>q'. receive bytes_of enq deq ds q = Some (ms, q') \<and> invar q' \<and> bytes_of q' = r"
proof (induction ds arbitrary: q ms)
  case Nil
  then show ?case by simp
next
  case (Cons d ds)
  obtain ms1 bad r1 where d1: "decode (bytes_of q @ d) = (ms1, bad, r1)" by (metis surj_pair)
  note step = decode_append [OF d1, of "concat ds"]
  have good: "\<not> bad" using step Cons.prems(3) by (auto split: if_splits)
  then obtain ms2 where d2: "decode (r1 @ concat ds) = (ms2, False, r)" "ms = ms1 @ ms2"
    using step Cons.prems(3) by (auto split: prod.splits)
  have q: "invar (enq d q)" "bytes_of (enq d q) = bytes_of q @ d" using Cons.prems(1) by (simp_all add: queue_laws)
  obtain q1 where q1: "codec_onMessage bytes_of deq (enq d q) = Some (ms1, bad, q1)" "invar q1" "bytes_of q1 = r1"
    using codec_decodes [OF q(1), of ms1 bad r1] d1 q(2) by auto
  have "decode (bytes_of q1) = ([], False, bytes_of q1)" using decode_rest [of "bytes_of q @ d" ms1 r1] d1 good q1(3) by simp
  then obtain q' where "receive bytes_of enq deq ds q1 = Some (ms2, q')" "invar q'" "bytes_of q' = r"
    using Cons.IH [of q1 ms2] q1 d2 by auto
  then show ?case using q1 good d2(2) by simp
qed

end

subsection \<open>Properties\<close>

text \<open>
  C16: However the network cuts the byte stream, the receiver gets exactly the messages that were sent: for
  messages of at most 65536 bytes, framed by \<open>send\<close> one after the other, \<open>onMessage\<close> returns on every
  chunk, hands over all messages once, in order and unchanged, and leaves the buffer empty.
\<close>

theorem codec_roundtrip:
  assumes "byte_queue invar unread size_of app retr get" and "invar q" and "unread q = []"
    and "\<forall>m \<in> set ms. length m \<le> 65536" and "concat chunks = concat (map codec_send ms)"
  shows "\<exists>q'. receive unread app retr chunks q = Some (ms, q') \<and> unread q' = []"
proof -
  have "decode (unread q @ concat chunks) = (ms, False, [])" using assms(3-5) decode_frames by simp
  then show ?thesis using byte_queue.receive_decodes [OF assms(1,2), of chunks ms "[]"] assms(3) decode_Nil by auto
qed

lemma codec_roundtrip_witness:
  "\<exists>q'. receive content append_data retrieve
       [hostToNetwork32 2 @ ''h'', ''i'' @ take 3 (hostToNetwork32 0), drop 3 (hostToNetwork32 0)] (new_Buffer kInitialSize) =
     Some ([''hi'', []], q') \<and> content q' = []"
proof -
  have "c_int 2 = 2" "c_int 0 = 0" by (simp_all add: c_int_id)
  then show ?thesis
    using codec_roundtrip [OF netbuf.byte_queue_axioms, of "new_Buffer kInitialSize" "[''hi'', []]"
        "[hostToNetwork32 2 @ ''h'', ''i'' @ take 3 (hostToNetwork32 0), drop 3 (hostToNetwork32 0)]"]
    by (simp add: codec_send_def)
qed

end
