(* ===== verification/File_Server.thy ===== *)
theory File_Server
  imports Prelude
begin

text \<open>
  \<^verbatim>\<open>Examples/FileTrans/version2.cc\<close>: a server that sends a file piece by piece, the next piece whenever
  the last one has been written.

  The connection is one of the installed muduo library: \<open>send\<close> and \<open>shutdown\<close> are recorded. The context
  of the connection is empty, a null \<open>FILE*\<close> or an open file with its position; \<open>fread\<close> delivers the
  next bytes of the file, all that are left or a full buffer, as it does while no read fails: a read error is not
  modelled.
\<close>

definition kBufferSize :: nat where
  "kBufferSize = 64 * 1024"

datatype context0 = NoContext | NullFile | OpenFile nat

record FileConn =
  ctx :: context0
  sent :: bytes
  sends :: nat
  shut :: bool
  open_files :: int

definition new_FileConn :: FileConn where
  "new_FileConn = \<lparr>ctx = NoContext, sent = [], sends = 0, shut = False, open_files = 0\<rparr>"

definition fread :: "bytes \<Rightarrow> nat \<Rightarrow> bytes" where
  "fread file pos = take kBufferSize (drop pos file)"

definition send_piece :: "bytes \<Rightarrow> FileConn \<Rightarrow> FileConn" where
  "send_piece d c = c\<lparr>sent := sent c @ d, sends := sends c + 1\<rparr>"

text \<open>\<open>file\<close> is \<open>None\<close> when \<open>fopen\<close> fails.\<close>

definition onConnection :: "bytes option \<Rightarrow> bool \<Rightarrow> FileConn \<Rightarrow> FileConn" where
  "onConnection file connected c =
     (if connected
      then (case file of
              Some f \<Rightarrow>
                (let buf = fread f 0
                 in send_piece buf (c\<lparr>ctx := OpenFile (length buf), open_files := open_files c + 1\<rparr>))
            | None \<Rightarrow> c\<lparr>shut := True\<rparr>)
      else (case ctx c of OpenFile pos \<Rightarrow> c\<lparr>open_files := open_files c - 1\<rparr> | _ \<Rightarrow> c))"

text \<open>\<open>any_cast\<close> throws on an empty context; \<open>fread\<close> on a null stream is a fault.\<close>

definition onWriteComplete :: "bytes \<Rightarrow> FileConn \<Rightarrow> fault + FileConn" where
  "onWriteComplete file c =
     (case ctx c of
        NoContext \<Rightarrow> Inl BadFunctionCall
      | NullFile \<Rightarrow> Inl NullDeref
      | OpenFile pos \<Rightarrow>
          (let buf = fread file pos; nread = length buf
           in if nread \<noteq> 0 then Inr (send_piece buf (c\<lparr>ctx := OpenFile (pos + nread)\<rparr>))
              else Inr (c\<lparr>open_files := open_files c - 1, ctx := NullFile, shut := True\<rparr>)))"

text \<open>\<open>main\<close>: the file and the port of the server it starts, if a file is named.\<close>

definition file_main :: "string list \<Rightarrow> (string \<times> nat) option" where
  "file_main argv = (if length argv > 1 then Some (argv ! 1, 2021) else None)"

text \<open>
  The library calls \<open>onWriteComplete\<close> once for every \<open>send\<close>, when its bytes are written: \<open>k\<close> of these
  calls, one for each send so far, as long as the peer reads.
\<close>

fun write_completes :: "bytes \<Rightarrow> nat \<Rightarrow> FileConn \<Rightarrow> fault + FileConn" where
  "write_completes file 0 c = Inr c"
| "write_completes file (Suc k) c =
     (case onWriteComplete file c of Inl f \<Rightarrow> Inl f | Inr c1 \<Rightarrow> write_completes file k c1)"

lemma kBufferSize_pos: "0 < kBufferSize"
  by (simp add: kBufferSize_def)

text \<open>The number of pieces that are still to come behind position \<open>pos\<close>.\<close>

definition pieces :: "bytes \<Rightarrow> nat \<Rightarrow> nat" where
  "pieces file pos = (length file - pos + (kBufferSize - 1)) div kBufferSize"

lemma write_completes_ok:
  "ctx c = OpenFile pos \<Longrightarrow> pos \<le> length file \<Longrightarrow> sent c = take pos file \<Longrightarrow>
    \<exists>c'. write_completes file (pieces file pos + 1) c = Inr c' \<and> sent c' = file \<and> shut c' \<and> ctx c' = NullFile \<and>
      open_files c' = open_files c - 1 \<and> sends c' = sends c + pieces file pos"
proof (induction "length file - pos" arbitrary: pos c rule: less_induct)
  case less
  let ?d = "fread file pos"
  show ?case
  proof (cases "pos = length file")
    case True
    then have "?d = []" "pieces file pos = 0" using kBufferSize_pos by (simp_all add: fread_def pieces_def)
    then show ?thesis using less.prems True by (simp add: onWriteComplete_def)
  next
    case False
    then have lt: "pos < length file" using less.prems(2) by simp
    let ?n = "min kBufferSize (length file - pos)"
    have n: "length ?d = ?n" "0 < ?n" using lt kBufferSize_pos by (simp_all add: fread_def)
    let ?c1 = "send_piece ?d (c\<lparr>ctx := OpenFile (pos + ?n)\<rparr>)"
    have "?d \<noteq> []" using n by auto
    then have step: "onWriteComplete file c = Inr ?c1" using less.prems(1) n(1) by (simp add: onWriteComplete_def Let_def)
    have p: "pieces file pos = Suc (pieces file (pos + ?n))"
    proof (cases "length file - pos \<le> kBufferSize")
      case True
      then have "length file - pos + (kBufferSize - 1) = (length file - pos - 1) + kBufferSize"
        using lt kBufferSize_pos by simp
      moreover have "(length file - pos - 1 + kBufferSize) div kBufferSize = Suc ((length file - pos - 1) div kBufferSize)"
        using div_add_self2 [of kBufferSize "length file - pos - 1"] kBufferSize_pos by simp
      ultimately have "pieces file pos = Suc ((length file - pos - 1) div kBufferSize)"
        unfolding pieces_def by (simp only:)
      then show ?thesis using True lt kBufferSize_pos by (simp add: pieces_def)
    next
      case False
      then have "length file - pos + (kBufferSize - 1) = (length file - (pos + kBufferSize) + (kBufferSize - 1)) + kBufferSize"
        by simp
      moreover have "(length file - (pos + kBufferSize) + (kBufferSize - 1) + kBufferSize) div kBufferSize =
          Suc ((length file - (pos + kBufferSize) + (kBufferSize - 1)) div kBufferSize)"
        using div_add_self2 [of kBufferSize "length file - (pos + kBufferSize) + (kBufferSize - 1)"] kBufferSize_pos by simp
      moreover have "?n = kBufferSize" using False by simp
      ultimately show ?thesis unfolding pieces_def by (simp only:)
    qed
    have "take pos file @ ?d = take (pos + ?n) file"
      by (simp add: fread_def take_add [symmetric] min_def)
    then have "sent ?c1 = take (pos + ?n) file" using less.prems(3) by (simp add: send_piece_def)
    moreover have c1: "ctx ?c1 = OpenFile (pos + ?n)" "open_files ?c1 = open_files c" "sends ?c1 = Suc (sends c)"
      by (simp_all add: send_piece_def)
    moreover have "length file - (pos + ?n) < length file - pos" "pos + ?n \<le> length file" using lt n(2) by linarith+
    ultimately obtain c' where "write_completes file (pieces file (pos + ?n) + 1) ?c1 = Inr c'" "sent c' = file"
      "shut c'" "ctx c' = NullFile" "open_files c' = open_files c - 1" "sends c' = Suc (sends c) + pieces file (pos + ?n)"
      using less.hyps [of "pos + ?n" ?c1] by metis
    moreover have "write_completes file (pieces file pos + 1) c = write_completes file (pieces file (pos + ?n) + 1) ?c1"
      using step p by simp
    ultimately show ?thesis using p by (intro exI [of _ c']) simp
  qed
qed

text \<open>
  C40: The whole file is sent, in order and once: after the connection is up, one \<open>onWriteComplete\<close> per
  \<open>send\<close> delivers every byte, closes the file, shuts the connection and never touches the closed file.
\<close>

theorem file_is_sent_completely:
  assumes "c = onConnection (Some file) True new_FileConn"
  shows "\<exists>k c'. write_completes file k c = Inr c' \<and> sent c' = file \<and> shut c' \<and> open_files c' = 0 \<and> k = sends c'"
proof -
  have "length (fread file 0) = min kBufferSize (length file)" by (simp add: fread_def)
  then have c: "ctx c = OpenFile (min kBufferSize (length file))" "sent c = take (min kBufferSize (length file)) file"
    "open_files c = 1" "sends c = 1"
    using assms by (simp_all add: onConnection_def send_piece_def new_FileConn_def fread_def Let_def min_def)
  let ?k = "pieces file (min kBufferSize (length file)) + 1"
  obtain c' where "write_completes file ?k c = Inr c'" "sent c' = file" "shut c'" "open_files c' = 0" "sends c' = ?k"
    using write_completes_ok [OF c(1) _ c(2)] c(3,4) by auto
  then show ?thesis by (intro exI [of _ ?k] exI [of _ c']) simp
qed

lemma file_is_sent_completely_witness:
  "\<exists>k c'. write_completes ''file'' k (onConnection (Some ''file'') True new_FileConn) = Inr c' \<and> sent c' = ''file'' \<and> k = sends c'"
  using file_is_sent_completely [OF refl, of "''file''"] by blast

end
