(* ===== verification/Base_CString.thy ===== *)
theory Base_CString
  imports Prelude
begin

text \<open>
  What the programs use of the C string functions. A string is the list of its characters before the zero
  byte; a pointer into it is a position. An array of \<open>n\<close> characters holds a string of fewer than \<open>n\<close>.
\<close>

subsection \<open>Reading numbers\<close>

definition is_digit :: "char \<Rightarrow> bool" where
  "is_digit c \<longleftrightarrow> 48 \<le> (of_char c :: nat) \<and> (of_char c :: nat) \<le> 57"

definition is_space :: "char \<Rightarrow> bool" where
  "is_space c \<longleftrightarrow> c = CHR '' '' \<or> (9 \<le> (of_char c :: nat) \<and> (of_char c :: nat) \<le> 13)"

text \<open>\<open>atoi\<close> of the C library: leading space, a sign, digits.\<close>

definition atoi :: "string \<Rightarrow> int" where
  "atoi s =
     (let t = dropWhile is_space s;
          neg = (t \<noteq> [] \<and> hd t = CHR ''-'');
          u = (if t \<noteq> [] \<and> (hd t = CHR ''-'' \<or> hd t = CHR ''+'') then tl t else t);
          n = int (dec_value (takeWhile is_digit u))
      in if neg then - n else n)"

lemma digit_is_digit: "d < 10 \<Longrightarrow> is_digit (digit d)"
  by (auto simp: is_digit_def digit_def)

lemma dec_all_digits: "c \<in> set (dec n) \<Longrightarrow> is_digit c"
proof (induction n rule: dec.induct)
  case (1 n)
  then show ?case by (subst (asm) dec.simps) (auto simp: digit_is_digit split: if_splits)
qed

lemma digit_plain: "is_digit c \<Longrightarrow> \<not> is_space c \<and> c \<noteq> CHR ''-'' \<and> c \<noteq> CHR ''+''"
  by (auto simp: is_digit_def is_space_def)

text \<open>\<open>atoi\<close> reads what \<open>%u\<close> prints.\<close>

lemma atoi_dec: "atoi (dec n) = int n"
proof -
  have ne: "dec n \<noteq> []" by (subst dec.simps) simp
  then have hd: "\<not> is_space (hd (dec n))" "hd (dec n) \<noteq> CHR ''-''" "hd (dec n) \<noteq> CHR ''+''"
    using digit_plain [of "hd (dec n)"] dec_all_digits [of "hd (dec n)" n] by simp_all
  have "dropWhile is_space (dec n) = dec n" using ne hd(1) by (cases "dec n") simp_all
  moreover have "takeWhile is_digit (dec n) = dec n" using dec_all_digits takeWhile_eq_all_conv by blast
  ultimately show ?thesis using hd by (simp add: atoi_def del: takeWhile_eq_all_conv)
qed

subsection \<open>Searching\<close>

text \<open>\<open>strstr\<close>: where \<open>pat\<close> begins for the first time.\<close>

fun strstr :: "string \<Rightarrow> string \<Rightarrow> nat option" where
  "strstr pat [] = (if pat = [] then Some 0 else None)"
| "strstr pat (c # cs) =
     (if take (length pat) (c # cs) = pat then Some 0 else map_option Suc (strstr pat cs))"

text \<open>\<open>strcspn\<close> and the position \<open>strchr\<close> or \<open>index\<close> finds.\<close>

definition until_char :: "char \<Rightarrow> string \<Rightarrow> string" where
  "until_char c s = takeWhile (\<lambda>d. d \<noteq> c) s"

lemma until_char_append [simp]: "c \<notin> set xs \<Longrightarrow> until_char c (xs @ c # ys) = xs"
  unfolding until_char_def by (subst takeWhile_append2) auto

lemma until_char_absent: "c \<notin> set xs \<Longrightarrow> until_char c xs = xs"
  unfolding until_char_def by (auto simp: takeWhile_eq_all_conv)

text \<open>\<open>strcat\<close> into an array of \<open>n\<close> characters.\<close>

definition strcat :: "nat \<Rightarrow> string \<Rightarrow> string \<Rightarrow> fault + string" where
  "strcat n s r = (if length r + length s < n then Inr (r @ s) else Inl OutOfBounds)"

fun strcats :: "nat \<Rightarrow> string list \<Rightarrow> string \<Rightarrow> fault + string" where
  "strcats n [] r = Inr r"
| "strcats n (s # ss) r = and_then (strcat n s r) (strcats n ss)"

lemma strcats_ok:
  "length r + length (concat ss) < n \<Longrightarrow> strcats n ss r = Inr (r @ concat ss)"
  by (induction ss arbitrary: r) (simp_all add: strcat_def)

lemma strcats_fault: "strcats n ss r = Inl f \<Longrightarrow> f = OutOfBounds"
  by (induction ss arbitrary: r) (auto simp: strcat_def split: if_splits)

lemma strcats_exact:
  assumes "length r < n"
  shows "strcats n ss r =
    (if length r + length (concat ss) < n then Inr (r @ concat ss) else Inl OutOfBounds)"
proof (cases "length r + length (concat ss) < n")
  case True
  then show ?thesis by (simp add: strcats_ok)
next
  case False
  then have "\<exists>f. strcats n ss r = Inl f" using assms
    by (induction ss arbitrary: r) (auto simp: strcat_def)
  then show ?thesis using False strcats_fault by force
qed

end
