(* ===== verification/Http_Sample.thy ===== *)
theory Http_Sample
  imports Base_CString
begin

text \<open>
  \<^verbatim>\<open>Examples/FileTrans/version1.cc\<close>: the sample server, its page callback, its icon and its \<open>main\<close>.

  Request and response are classes of the installed muduo library. Of the request the code reads the path, the
  method's name and the headers; what it asks of the response is a list of calls. The time stamp's text is an argument.
\<close>

datatype SampleStatus = k200Ok | k404NotFound

datatype resp_call = SetStatusCode SampleStatus | SetStatusMessage string | SetContentType string | AddHeader string string
  | SetBody "char list" | SetCloseConnection bool

text \<open>The 555 characters of the icon, by their codes.\<close>

definition favicon_bytes :: "nat list" where
  "favicon_bytes = [
    137, 80, 78, 71, 13, 10, 26, 10, 0, 0, 0, 13, 73, 72, 68, 82, 0, 0, 0, 16, 0, 0, 0, 16,
    8, 6, 0, 0, 0, 31, 243, 255, 97, 0, 0, 0, 25, 116, 69, 88, 116, 83, 111, 102, 116, 119, 97, 114,
    101, 0, 65, 100, 111, 98, 101, 32, 73, 109, 97, 103, 101, 82, 101, 97, 100, 121, 113, 201, 101, 60, 0, 0,
    1, 205, 73, 68, 65, 84, 120, 218, 148, 147, 57, 72, 3, 65, 20, 134, 255, 93, 98, 167, 4, 82, 196, 109,
    34, 30, 160, 70, 36, 8, 22, 22, 118, 10, 54, 186, 74, 154, 128, 8, 65, 180, 113, 133, 88, 137, 71, 176,
    73, 169, 81, 36, 205, 166, 8, 164, 72, 99, 145, 66, 11, 175, 86, 193, 70, 180, 21, 207, 34, 88, 152, 11,
    84, 72, 138, 100, 147, 141, 251, 70, 103, 201, 26, 20, 125, 240, 102, 118, 102, 223, 124, 239, 231, 103, 70, 168,
    213, 106, 72, 36, 18, 42, 0, 5, 191, 71, 212, 239, 247, 47, 54, 236, 18, 32, 30, 143, 215, 170, 213, 234,
    175, 73, 53, 70, 170, 84, 95, 159, 34, 65, 42, 149, 10, 131, 229, 114, 57, 100, 179, 89, 150, 153, 76, 6,
    233, 116, 154, 37, 133, 44, 203, 84, 167, 196, 98, 49, 181, 94, 0, 3, 104, 154, 198, 22, 130, 32, 88, 82,
    20, 69, 54, 83, 148, 203, 101, 120, 189, 94, 170, 85, 84, 35, 76, 192, 224, 226, 193, 143, 0, 158, 188, 9,
    65, 124, 62, 31, 131, 68, 34, 17, 213, 84, 64, 63, 56, 128, 119, 229, 51, 7, 184, 92, 46, 72, 146, 4,
    135, 195, 129, 64, 32, 64, 103, 152, 233, 54, 26, 166, 103, 21, 4, 227, 215, 200, 189, 21, 225, 105, 183, 67,
    171, 234, 120, 47, 106, 88, 146, 187, 24, 32, 159, 207, 51, 195, 184, 233, 78, 167, 211, 108, 74, 0, 105, 54,
    124, 142, 225, 254, 86, 132, 231, 60, 159, 114, 43, 58, 66, 123, 55, 102, 119, 174, 142, 14, 243, 189, 82, 169,
    100, 2, 66, 175, 133, 50, 102, 70, 186, 12, 217, 159, 29, 154, 108, 34, 230, 199, 58, 44, 128, 239, 193, 21,
    144, 7, 147, 162, 40, 160, 83, 106, 177, 184, 223, 41, 53, 67, 14, 63, 88, 252, 152, 218, 121, 106, 80, 64,
    0, 135, 174, 27, 23, 66, 180, 58, 63, 190, 121, 199, 10, 38, 182, 238, 217, 154, 96, 20, 147, 219, 143, 13,
    10, 46, 233, 35, 149, 41, 88, 0, 39, 235, 110, 86, 112, 188, 214, 203, 214, 71, 171, 61, 108, 125, 184, 210,
    221, 160, 96, 131, 186, 239, 95, 164, 234, 204, 2, 78, 174, 94, 112, 26, 236, 179, 64, 57, 172, 254, 242, 145,
    137, 103, 145, 133, 33, 168, 135, 183, 88, 126, 126, 133, 187, 205, 78, 78, 98, 116, 64, 250, 147, 137, 236, 30,
    236, 134, 2, 72, 38, 147, 208, 117, 29, 127, 9, 50, 149, 191, 31, 219, 215, 99, 138, 26, 247, 92, 193, 255,
    34, 74, 195, 135, 0, 3, 0, 75, 187, 248, 214, 42, 118, 152, 73, 0, 0, 0, 0, 73, 69, 78, 68, 174,
    66, 96, 130]"

definition favicon :: "char list" where
  "favicon = map char_of favicon_bytes"

definition onRequest_output :: "bool \<Rightarrow> string \<Rightarrow> string \<Rightarrow> (string \<times> string) list \<Rightarrow> string" where
  "onRequest_output benchmark methodString path headers =
     ''Headers '' @ methodString @ '' '' @ path @ [LF] @
     (if \<not> benchmark then concat (map (\<lambda>(n, v). n @ '': '' @ v @ [LF]) headers) else [])"

definition onRequest :: "string \<Rightarrow> string \<Rightarrow> resp_call list" where
  "onRequest path now =
     (if path = ''/'' then
        [SetStatusCode k200Ok, SetStatusMessage ''OK'', SetContentType ''text/html'', AddHeader ''Server'' ''Muduo'',
         SetBody (''<html><head><title>This is title</title></head>'' @ ''<body><h1>Hello</h1>Now is '' @ now @ ''</body></html>'')]
      else if path = ''/favicon.ico'' then
        [SetStatusCode k200Ok, SetStatusMessage ''OK'', SetContentType ''image/png'', SetBody favicon]
      else if path = ''/hello'' then
        [SetStatusCode k200Ok, SetStatusMessage ''OK'', SetContentType ''text/plain'', AddHeader ''Server'' ''Muduo'',
         SetBody (''hello, world!'' @ [LF])]
      else [SetStatusCode k404NotFound, SetStatusMessage ''Not Found'', SetCloseConnection True])"

text \<open>\<open>main\<close> up to the loop: the flag, the log level if it is set, and what it asks of the library server.\<close>

datatype sample_call = SetLogLevelWarn | MakeServer nat string | SetHttpCallback | SetThreadNum int | ServerStart | LoopLoop

definition sample_main :: "string list \<Rightarrow> bool \<times> sample_call list" where
  "sample_main argv =
     (let benchmark = (length argv > 1);
          numThreads = (if benchmark then atoi (argv ! 1) else 0)
      in (benchmark, (if benchmark then [SetLogLevelWarn] else []) @
           [MakeServer 8000 ''dummy'', SetHttpCallback, SetThreadNum numThreads, ServerStart, LoopLoop]))"

subsection \<open>The icon is a PNG image\<close>

definition be32 :: "nat list \<Rightarrow> nat" where
  "be32 bs = foldl (\<lambda>n b. 256 * n + b) 0 (take 4 bs)"

text \<open>The chunks behind the signature: kind and data of each; \<open>None\<close> if they do not fill the bytes exactly.\<close>

function png_chunks :: "nat list \<Rightarrow> (nat list \<times> nat list) list option" where
  "png_chunks bs =
     (if bs = [] then Some []
      else if length bs < 12 + be32 bs then None
      else map_option (Cons (take 4 (drop 4 bs), take (be32 bs) (drop 8 bs))) (png_chunks (drop (12 + be32 bs) bs)))"
  by pat_completeness auto

termination
  by (relation "measure length") auto

declare png_chunks.simps [simp del]

lemma length_favicon: "length favicon = 555"
  by (simp add: favicon_def favicon_bytes_def)

lemma png_chunks_step:
  assumes "bs = drop k favicon_bytes" and "12 + be32 bs \<le> length bs"
  shows "png_chunks bs = map_option (Cons (take 4 (drop 4 bs), take (be32 bs) (drop 8 bs)))
    (png_chunks (drop (12 + be32 bs + k) favicon_bytes))"
  using assms by (subst png_chunks.simps) (auto simp: add.commute)

text \<open>
  The icon is a complete image of 16 by 16 pixels: the signature, a header, a text, the data, the end, and nothing else.
\<close>

definition ascii :: "string \<Rightarrow> nat list" where
  "ascii = map of_char"

lemma favicon_parts:
  "be32 (drop 8 favicon_bytes) = 13" "be32 (drop 33 favicon_bytes) = 25" "be32 (drop 70 favicon_bytes) = 461"
  "be32 (drop 543 favicon_bytes) = 0" "length favicon_bytes = 555"
  "take 4 (drop 12 favicon_bytes) = ascii ''IHDR''" "take 4 (drop 37 favicon_bytes) = ascii ''tEXt''"
  "take 4 (drop 74 favicon_bytes) = ascii ''IDAT''" "take 4 (drop 547 favicon_bytes) = ascii ''IEND''"
  "be32 (drop 16 favicon_bytes) = 16" "be32 (drop 20 favicon_bytes) = 16"
  by (simp_all add: favicon_bytes_def be32_def ascii_def)

lemma favicon_is_png:
  "take 8 favicon_bytes = [137, 80, 78, 71, 13, 10, 26, 10]"
  "\<exists>hdr comment pixels. png_chunks (drop 8 favicon_bytes) =
     Some [(ascii ''IHDR'', hdr), (ascii ''tEXt'', comment), (ascii ''IDAT'', pixels), (ascii ''IEND'', [])] \<and>
     be32 hdr = 16 \<and> be32 (drop 4 hdr) = 16 \<and> length pixels = 461"
proof -
  show "take 8 favicon_bytes = [137, 80, 78, 71, 13, 10, 26, 10]" by (simp add: favicon_bytes_def)
  have "png_chunks (drop 555 favicon_bytes) = Some []" by (subst png_chunks.simps) (simp add: favicon_parts)
  then have "png_chunks (drop 8 favicon_bytes) =
      Some [(ascii ''IHDR'', take 13 (drop 16 favicon_bytes)), (ascii ''tEXt'', take 25 (drop 41 favicon_bytes)),
        (ascii ''IDAT'', take 461 (drop 78 favicon_bytes)), (ascii ''IEND'', [])]"
    using png_chunks_step [OF refl, of 8] png_chunks_step [OF refl, of 33] png_chunks_step [OF refl, of 70]
      png_chunks_step [OF refl, of 543]
    by (simp add: favicon_parts)
  moreover have "be32 (take 13 (drop 16 favicon_bytes)) = 16" "be32 (drop 4 (take 13 (drop 16 favicon_bytes))) = 16"
    by (simp_all add: favicon_bytes_def be32_def)
  ultimately show "\<exists>hdr comment pixels. png_chunks (drop 8 favicon_bytes) =
     Some [(ascii ''IHDR'', hdr), (ascii ''tEXt'', comment), (ascii ''IDAT'', pixels), (ascii ''IEND'', [])] \<and>
     be32 hdr = 16 \<and> be32 (drop 4 hdr) = 16 \<and> length pixels = 461"
    by (simp add: favicon_parts)
qed

text \<open>Every page sets one status, and closes the connection exactly when the page is unknown.\<close>

lemma onRequest_pages:
  "(\<exists>m rest. onRequest path now = SetStatusCode (if path \<in> {''/'', ''/favicon.ico'', ''/hello''} then k200Ok else k404NotFound) #
      SetStatusMessage m # rest \<and> (\<forall>x \<in> set rest. (\<forall>s. x \<noteq> SetStatusCode s) \<and> (\<forall>s. x \<noteq> SetStatusMessage s))) \<and>
   (SetCloseConnection True \<in> set (onRequest path now) \<longleftrightarrow> path \<notin> {''/'', ''/favicon.ico'', ''/hello''})"
  by (simp add: onRequest_def)

end
