(* ===== verification/Http_Session.thy ===== *)
theory Http_Session
  imports Http_Server
begin

text \<open>
  The path of the bytes of a client through the server: the read event of a connection
  (\<open>TcpConnection::handleRead\<close> in \<^verbatim>\<open>Net/TcpConnection.cc\<close>), whose last call is the message callback
  (\<open>HttpServer::MessageCallback\<close> in \<^verbatim>\<open>Http/httpServer.cc\<close>), for a sequence of segments as TCP delivers
  them.
\<close>

subsection \<open>Read events\<close>

text \<open>
  One arrival: the time, what \<open>readFd\<close> seems to return, the bytes that \<open>readv\<close> delivers, and what \<open>write\<close>
  returns for a refusal and for a response, if the callback sends one.
\<close>

record arrival =
  arr_time :: TimeStamp
  arr_n :: int
  arr_data :: bytes
  arr_refusal :: int
  arr_reply :: int

text \<open>\<open>handleRead\<close> with the message callback of the HTTP server; it is the last thing the handler calls.\<close>

definition http_read ::
  "(HttpRequest \<Rightarrow> HttpResponse \<Rightarrow> fault + HttpResponse) \<Rightarrow> bool \<Rightarrow> arrival \<Rightarrow> TcpConnection \<Rightarrow>
   (fault + TcpConnection) option" where
  "http_read cb auto_close a c =
     (case conn_handleRead (\<lambda>_. (int (length (arr_data a)), arr_data a)) (arr_n a) quiet quiet quiet c of
        Inl f \<Rightarrow> Some (Inl f)
      | Inr c1 \<Rightarrow>
          if arr_n a > 0 then MessageCallback cb auto_close (arr_time a) (arr_refusal a) (arr_reply a) c1
          else Some (Inr c1))"

fun http_reads ::
  "(HttpRequest \<Rightarrow> HttpResponse \<Rightarrow> fault + HttpResponse) \<Rightarrow> bool \<Rightarrow> arrival list \<Rightarrow> TcpConnection \<Rightarrow>
   (fault + TcpConnection) option" where
  "http_reads cb auto_close [] c = Some (Inr c)"
| "http_reads cb auto_close (a # as) c =
     (case http_read cb auto_close a c of
        Some (Inr c1) \<Rightarrow> http_reads cb auto_close as c1
      | r \<Rightarrow> r)"

text \<open>A segment that the kernel may deliver to a live connection, and the bytes of several.\<close>

definition arrives :: "arrival \<Rightarrow> bool" where
  "arrives a \<longleftrightarrow> arr_n a > 0 \<and> length (arr_data a) \<le> extrabuf_size"

definition segment_bytes :: "arrival list \<Rightarrow> bytes" where
  "segment_bytes as = concat (map arr_data as)"

lemma segment_bytes_simps [simp]: "segment_bytes [] = []" "segment_bytes (a # as) = arr_data a @ segment_bytes as"
  "segment_bytes (as @ bs) = segment_bytes as @ segment_bytes bs"
  by (simp_all add: segment_bytes_def)

lemma http_reads_append:
  "http_reads cb auto (as @ bs) c =
     (case http_reads cb auto as c of Some (Inr c1) \<Rightarrow> http_reads cb auto bs c1 | r \<Rightarrow> r)"
  by (induction as arbitrary: c) (auto split: option.splits sum.splits)

subsection \<open>The size of the input buffer\<close>

lemma readFd_length:
  assumes "buf_inv b" and "length data \<le> extrabuf_size" and "readFd (\<lambda>_. (int (length data), data)) b = Inr b'"
  shows "length (buffer b') \<le> length (buffer b) + length data"
proof -
  let ?w = "writeableBytes b"
  let ?b1 = "b\<lparr>buffer := put_at (buffer b) (writeIdx b) (take ?w data)\<rparr>"
  have n: "to_size (int (length data)) = length data" using assms(2) by (simp add: to_size_def extrabuf_size_def)
  have len: "length (buffer ?b1) = length (buffer b)"
    using assms(1) by (auto simp: writeableBytes_def buf_inv_def put_at_def)
  show ?thesis
  proof (cases "length data \<le> ?w")
    case True
    then show ?thesis using assms(3) n len by (auto simp: readFd_def)
  next
    case False
    let ?full = "?b1\<lparr>writeIdx := length (buffer ?b1)\<rparr>"
    let ?more = "take (length data - ?w) (put_at (replicate extrabuf_size (CHR 0x00)) 0 (drop ?w data))"
    have "buf_inv ?full" using assms(1) len by (simp add: buf_inv_def)
    then have "length (buffer (append_data ?more ?full)) \<le> length (buffer ?full) + length ?more"
      by (auto simp: append_capacity len)
    moreover have "b' = append_data ?more ?full"
      using assms(2,3) False n by (auto simp: readFd_def Let_def split: if_splits)
    ultimately show ?thesis using len by simp
  qed
qed

text \<open>What a read event does before the message callback.\<close>

lemma http_read_start:
  assumes "stream_inv c acc" and "open_inv c" and "connected c" and "arrives a"
  shows "\<exists>c1. http_read cb auto_close a c = MessageCallback cb auto_close (arr_time a) (arr_refusal a) (arr_reply a) c1 \<and>
    stream_inv c1 acc \<and> open_inv c1 \<and> connected c1 \<and> http_content c1 = http_content c \<and> socket c1 = socket c \<and>
    direct_write c1 = direct_write c \<and> content (inputBuffer c1) = content (inputBuffer c) @ arr_data a \<and>
    length (buffer (inputBuffer c1)) \<le> length (buffer (inputBuffer c)) + length (arr_data a)"
proof -
  let ?readv = "\<lambda>_::nat. (int (length (arr_data a)), arr_data a)"
  have inb: "buf_inv (inputBuffer c)" using assms(1) by (simp add: stream_inv_def)
  have small: "length (arr_data a) < 2 ^ 64" "length (arr_data a) \<le> readFd_capacity (inputBuffer c)"
    using assms(4) by (auto simp: arrives_def readFd_capacity_def extrabuf_size_def)
  obtain b where b: "readFd ?readv (inputBuffer c) = Inr b" "buf_inv b"
    "content b = content (inputBuffer c) @ arr_data a"
    using readFd_success [OF inb _ small(2,1), of ?readv] by auto
  have "length (buffer b) \<le> length (buffer (inputBuffer c)) + length (arr_data a)"
    using readFd_length [OF inb _ b(1)] assms(4) by (simp add: arrives_def)
  then show ?thesis using assms b
    by (intro exI [of _ "c\<lparr>inputBuffer := b\<rparr>"])
      (simp add: http_read_def conn_handleRead_def call_def arrives_def open_inv_input stream_inv_def connected_def direct_write_def)
qed

subsection \<open>A request that is not all there\<close>

fun outcome_more ::
  "bytes \<Rightarrow> fault + (bool \<times> HttpRequestParseState \<times> HttpRequest \<times> bytes) \<Rightarrow>
   fault + (bool \<times> HttpRequestParseState \<times> HttpRequest \<times> bytes)" where
  "outcome_more ys (Inl f) = Inl f"
| "outcome_more ys (Inr (ok, st, req, rest)) = Inr (ok, st, req, rest @ ys)"

text \<open>The machine waits for more bytes.\<close>

definition waiting :: "fault + (bool \<times> HttpRequestParseState \<times> HttpRequest \<times> bytes) \<Rightarrow> bool" where
  "waiting out \<longleftrightarrow> (case out of Inr (ok, st, req, rest) \<Rightarrow> ok \<and> working st | Inl f \<Rightarrow> False)"

lemma parse_stream_final:
  "working st \<Longrightarrow> \<not> waiting (parse_stream st req xs) \<Longrightarrow>
     parse_stream st req (xs @ ys) = outcome_more ys (parse_stream st req xs)"
proof (induction st req xs rule: parse_stream.induct)
  case (1 st req bs)
  show ?case
  proof (cases "split_crlf bs")
    case None
    then show ?thesis using 1(3,4) by (simp add: parse_stream_no_line waiting_def)
  next
    case (Some lr)
    obtain l r where lr: "split_crlf bs = Some (l, r)" using Some by (cases lr) simp
    have lr': "split_crlf (bs @ ys) = Some (l, r @ ys)" using lr by (rule split_crlf_append)
    show ?thesis
    proof (cases "st = kParseRequestLine")
      case True
      show ?thesis
      proof (cases "\<exists>req2. parse_line l req = Inr (True, req2)")
        case True
        then obtain req2 where p: "parse_line l req = Inr (True, req2)" by blast
        have "parse_stream st req bs = parse_stream kParseRequestHeader req2 r"
          "parse_stream st req (bs @ ys) = parse_stream kParseRequestHeader req2 (r @ ys)"
          using lr lr' p \<open>st = kParseRequestLine\<close> by (simp_all add: parse_stream.simps [of kParseRequestLine])
        then show ?thesis
          using 1(1) [OF _ \<open>st = kParseRequestLine\<close> _ _ p] 1(4) lr by (simp add: working_def)
      next
        case False
        then show ?thesis using lr lr' \<open>st = kParseRequestLine\<close>
          by (cases "parse_line l req") (auto simp: parse_stream.simps [of kParseRequestLine])
      qed
    next
      case False
      then have st: "st = kParseRequestHeader" using 1(3) by (simp add: working_def)
      show ?thesis
      proof (cases "split_at (CHR '':'') l")
        case None
        then show ?thesis using st lr lr' by (simp add: parse_stream.simps [of kParseRequestHeader])
      next
        case (Some nv)
        obtain n v where nv: "split_at (CHR '':'') l = Some (n, v)" using Some by (cases nv) simp
        have "parse_stream st req bs = parse_stream kParseRequestHeader (parse_header n v req) r"
          "parse_stream st req (bs @ ys) = parse_stream kParseRequestHeader (parse_header n v req) (r @ ys)"
          using st lr lr' nv by (simp_all add: parse_stream.simps [of kParseRequestHeader])
        then show ?thesis using 1(2) [OF _ st _ _ nv] 1(4) lr by (simp add: working_def)
      qed
    qed
  qed
qed

lemma strict_prefix_waits:
  assumes "target_ok p q" and "\<forall>h \<in> set hs. header_ok h"
    and "render_request m p q v hs = xs @ ys" and "ys \<noteq> []"
  shows "waiting (parse_stream kParseRequestLine req xs)"
proof (rule ccontr)
  assume "\<not> ?thesis"
  from parse_stream_final [OF _ this, of ys] have "outcome_more ys (parse_stream kParseRequestLine req xs) =
      Inr (True, kParseGotCompleteRequest, add_headers hs (requested m p q v req), [])"
    using parse_stream_request [OF assms(1,2), of req m v "[]"] assms(3) by (simp add: working_def)
  then show False using assms(4)
    by (cases "(ys, parse_stream kParseRequestLine req xs)" rule: outcome_more.cases) auto
qed

subsection \<open>A connection in the middle of a request\<close>

text \<open>
  \<open>reading req0 pre acc c\<close>: the bytes \<open>pre\<close> of a request have arrived since the object held \<open>req0\<close>, and the
  parser has worked on them; \<open>acc\<close> is the output so far.
\<close>

definition reading :: "HttpRequest \<Rightarrow> bytes \<Rightarrow> bytes \<Rightarrow> TcpConnection \<Rightarrow> bool" where
  "reading req0 pre acc c \<longleftrightarrow> stream_inv c acc \<and> open_inv c \<and> connected c \<and> working (parse_state (http_content c)) \<and>
     parse_stream kParseRequestLine req0 pre =
       Inr (True, parse_state (http_content c), request (http_content c), content (inputBuffer c))"

lemma readingD:
  assumes "reading req0 pre acc c"
  shows "stream_inv c acc" "open_inv c" "connected c" "working (parse_state (http_content c))"
    "parse_stream kParseRequestLine req0 pre =
       Inr (True, parse_state (http_content c), request (http_content c), content (inputBuffer c))"
  using assms by (simp_all add: reading_def)

lemma reading_more:
  assumes "reading req0 pre acc c"
  shows "parse_stream kParseRequestLine req0 (pre @ d) =
    parse_stream (parse_state (http_content c)) (request (http_content c)) (content (inputBuffer c) @ d)"
  using parse_stream_append [OF readingD(5) [OF assms]] readingD(4) [OF assms] by (simp add: working_def)

lemma MessageCallback_waits:
  assumes "stream_inv c acc" and "open_inv c" and "connected c"
    and "ParseContent (http_content c) (inputBuffer c) = Some (Inr (True, hc, b))"
    and "\<not> GetCompleteRequest hc" and "buf_inv b"
  shows "\<exists>c'. MessageCallback cb auto_close t w w' c = Some (Inr c') \<and> stream_inv c' acc \<and> open_inv c' \<and>
    connected c' \<and> http_content c' = hc \<and> inputBuffer c' = b \<and> socket c' = socket c"
  using assms
  by (simp add: MessageCallback_def Let_def IsShutdown_def connected_def updateTimeStamp_def open_inv_input stream_inv_def)

lemma http_read_waits:
  assumes rd: "reading req0 pre acc c" and a: "arrives a"
    and small: "length (buffer (inputBuffer c)) + length (arr_data a) < 2 ^ 31"
    and wait: "waiting (parse_stream kParseRequestLine req0 (pre @ arr_data a))"
  shows "\<exists>c'. http_read cb auto_close a c = Some (Inr c') \<and> reading req0 (pre @ arr_data a) acc c' \<and>
    socket c' = socket c \<and>
    length (buffer (inputBuffer c')) \<le> length (buffer (inputBuffer c)) + length (arr_data a)"
proof -
  obtain c1 where c1: "http_read cb auto_close a c =
      MessageCallback cb auto_close (arr_time a) (arr_refusal a) (arr_reply a) c1"
    "stream_inv c1 acc" "open_inv c1" "connected c1" "http_content c1 = http_content c" "socket c1 = socket c"
    "content (inputBuffer c1) = content (inputBuffer c) @ arr_data a"
    "length (buffer (inputBuffer c1)) \<le> length (buffer (inputBuffer c)) + length (arr_data a)"
    using http_read_start [OF readingD(1-3) [OF rd] a] by blast
  have more: "parse_stream kParseRequestLine req0 (pre @ arr_data a) =
      parse_stream (parse_state (http_content c1)) (request (http_content c1)) (content (inputBuffer c1))"
    using reading_more [OF rd] c1(5,7) by simp
  then obtain st req rest where out:
    "parse_stream (parse_state (http_content c1)) (request (http_content c1)) (content (inputBuffer c1)) =
       Inr (True, st, req, rest)" "working st"
    using wait by (auto simp: waiting_def split: sum.splits)
  have "buf_inv (inputBuffer c1)" using c1(2) by (simp add: stream_inv_def)
  moreover have "length (buffer (inputBuffer c1)) < 2 ^ 31" using c1(8) small by simp
  moreover have "working (parse_state (http_content c1))" using readingD(4) [OF rd] c1(5) by simp
  ultimately obtain b where b: "ParseContent (http_content c1) (inputBuffer c1) =
      Some (Inr (True, (http_content c1)\<lparr>request := req, parse_state := st\<rparr>, b))"
    "buf_inv b" "content b = rest" "buffer b = buffer (inputBuffer c1)"
    using ParseContent_refines_stream [of "inputBuffer c1" "http_content c1"] out(1) by auto
  have "\<not> GetCompleteRequest ((http_content c1)\<lparr>request := req, parse_state := st\<rparr>)"
    using out(2) by (auto simp: GetCompleteRequest_def working_def)
  from MessageCallback_waits [OF c1(2-4) b(1) this b(2), of cb auto_close "arr_time a" "arr_refusal a" "arr_reply a"]
  obtain c' where "http_read cb auto_close a c = Some (Inr c')" "stream_inv c' acc" "open_inv c'" "connected c'"
    "http_content c' = (http_content c1)\<lparr>request := req, parse_state := st\<rparr>" "inputBuffer c' = b"
    "socket c' = socket c1" using c1(1) by auto
  then show ?thesis using b more out c1(6,8) by (auto simp: reading_def)
qed

lemma http_reads_wait:
  assumes "reading req0 pre acc c" and "\<forall>a \<in> set as. arrives a"
    and "length (buffer (inputBuffer c)) + length (segment_bytes as) < 2 ^ 31"
    and "\<forall>xs ys. segment_bytes as = xs @ ys \<longrightarrow> waiting (parse_stream kParseRequestLine req0 (pre @ xs))"
  shows "\<exists>c'. http_reads cb auto_close as c = Some (Inr c') \<and> reading req0 (pre @ segment_bytes as) acc c' \<and>
    socket c' = socket c \<and>
    length (buffer (inputBuffer c')) \<le> length (buffer (inputBuffer c)) + length (segment_bytes as)"
  using assms
proof (induction as arbitrary: c pre)
  case Nil
  then show ?case by simp
next
  case (Cons a as)
  have "waiting (parse_stream kParseRequestLine req0 (pre @ arr_data a))" using Cons.prems(4) by simp
  from http_read_waits [OF Cons.prems(1) _ _ this, of cb auto_close] Cons.prems(2,3)
  obtain c1 where c1: "http_read cb auto_close a c = Some (Inr c1)" "reading req0 (pre @ arr_data a) acc c1"
    "socket c1 = socket c" "length (buffer (inputBuffer c1)) \<le> length (buffer (inputBuffer c)) + length (arr_data a)"
    by auto
  have "\<forall>xs ys. segment_bytes as = xs @ ys \<longrightarrow> waiting (parse_stream kParseRequestLine req0 ((pre @ arr_data a) @ xs))"
    using Cons.prems(4) by simp
  from Cons.IH [OF c1(2) _ _ this] Cons.prems(2,3) c1
  obtain c' where "http_reads cb auto_close as c1 = Some (Inr c')"
    "reading req0 ((pre @ arr_data a) @ segment_bytes as) acc c'" "socket c' = socket c1"
    "length (buffer (inputBuffer c')) \<le> length (buffer (inputBuffer c1)) + length (segment_bytes as)" by auto
  then show ?case using c1 by simp
qed

lemma http_read_completes:
  assumes rd: "reading req0 pre acc c" and a: "arrives a"
    and small: "length (buffer (inputBuffer c)) + length (arr_data a) < 2 ^ 31"
    and full: "pre @ arr_data a = render_request m p q v hs @ rest" "target_ok p q" "\<forall>h \<in> set hs. header_ok h"
    and req: "req = add_headers hs (requested m p q v req0)"
    and reply: "cb req (new_HttpResponse (closes v req)) = Inr r" "response_message r = Inr msg"
      "length msg < 2 ^ 31" "write_ok (arr_reply a) (length msg) c"
  shows "\<exists>c'. http_read cb auto_close a c = Some (Inr c') \<and> stream_inv c' (acc @ kept (arr_reply a) c msg) \<and> open_inv c' \<and>
    content (inputBuffer c') = rest \<and> parse_state (http_content c') = kParseRequestLine \<and>
    conn_state c' = (if close_connection r then kDisConnecting else kConnected)"
proof -
  obtain c1 where c1: "http_read cb auto_close a c =
      MessageCallback cb auto_close (arr_time a) (arr_refusal a) (arr_reply a) c1"
    "stream_inv c1 acc" "open_inv c1" "connected c1" "http_content c1 = http_content c" "socket c1 = socket c"
    "content (inputBuffer c1) = content (inputBuffer c) @ arr_data a" "direct_write c1 = direct_write c"
    "length (buffer (inputBuffer c1)) \<le> length (buffer (inputBuffer c)) + length (arr_data a)"
    using http_read_start [OF readingD(1-3) [OF rd] a] by blast
  have out: "parse_stream (parse_state (http_content c1)) (request (http_content c1)) (content (inputBuffer c1)) =
      Inr (True, kParseGotCompleteRequest, req, rest)"
    using reading_more [OF rd, of "arr_data a"] parse_stream_request [OF full(2,3), of req0 m v rest] full(1) req c1(5,7)
    by simp
  have "buf_inv (inputBuffer c1)" using c1(2) by (simp add: stream_inv_def)
  moreover have "length (buffer (inputBuffer c1)) < 2 ^ 31" using c1(9) small by simp
  moreover have "working (parse_state (http_content c1))" using readingD(4) [OF rd] c1(5) by simp
  ultimately obtain b where b: "ParseContent (http_content c1) (inputBuffer c1) =
      Some (Inr (True, (http_content c1)\<lparr>request := req, parse_state := kParseGotCompleteRequest\<rparr>, b))"
    "buf_inv b" "content b = rest"
    using ParseContent_refines_stream [of "inputBuffer c1" "http_content c1"] out(1) by auto
  have k: "kept (arr_reply a) c msg = kept (arr_reply a) c1 msg" using c1(8) by (simp add: kept_def)
  show ?thesis unfolding c1(1) k
    by (rule complete_is_answered [where cb = cb, OF c1(2-4) b(1) _ _ b(2,3) req reply(1-3)])
      (use reply(4) c1(6) in \<open>simp_all add: GetCompleteRequest_def write_ok_def\<close>)
qed

subsection \<open>Reads of unset members\<close>

text \<open>
  The members \<open>method_\<close> and \<open>version_\<close> of a request have no initial value. The request is set as far as the state
  of the parser says.
\<close>

definition request_set :: "HttpRequestParseState \<Rightarrow> HttpRequest \<Rightarrow> bool" where
  "request_set st req \<longleftrightarrow> st = kParseRequestLine \<or>
     (st = kParseRequestHeader \<or> st = kParseGotCompleteRequest) \<and> http_method req \<noteq> None \<and> http_version req \<noteq> None"

lemma parse_line_sets: "parse_line l req = Inr (True, req1) \<Longrightarrow> request_set kParseRequestHeader req1"
  by (auto simp: parse_line_def parse_target_def request_set_def Let_def split: option.splits if_splits)

lemma parse_stream_sets:
  "request_set st req \<Longrightarrow> parse_stream st req bs = Inr (ok, st1, req1, rest) \<Longrightarrow> request_set st1 req1"
proof (induction st req bs rule: parse_stream.induct)
  case (1 st req bs)
  show ?case
  proof (cases "split_crlf bs")
    case None
    then show ?thesis using 1(3,4) by (simp add: parse_stream_no_line)
  next
    case (Some lr)
    obtain l r where lr: "split_crlf bs = Some (l, r)" using Some by (cases lr) simp
    consider (line) "st = kParseRequestLine" | (header) "st = kParseRequestHeader" | (complete) "st = kParseGotCompleteRequest"
      using 1(3) by (auto simp: request_set_def)
    then show ?thesis
    proof cases
      case line
      show ?thesis
      proof (cases "\<exists>req2. parse_line l req = Inr (True, req2)")
        case True
        then obtain req2 where p: "parse_line l req = Inr (True, req2)" by blast
        then have "parse_stream kParseRequestHeader req2 r = Inr (ok, st1, req1, rest)"
          using 1(4) lr line by (simp add: parse_stream.simps [of kParseRequestLine])
        then show ?thesis using 1(1) [OF _ line _ _ p] parse_line_sets [OF p] lr line by simp
      next
        case False
        then show ?thesis using 1(4) lr line
          by (cases "parse_line l req") (auto simp: parse_stream.simps [of kParseRequestLine] request_set_def split: if_splits)
      qed
    next
      case header
      show ?thesis
      proof (cases "split_at (CHR '':'') l")
        case None
        then show ?thesis using 1(3,4) lr header
          by (auto simp: parse_stream.simps [of kParseRequestHeader] request_set_def)
      next
        case (Some nv)
        obtain n v where nv: "split_at (CHR '':'') l = Some (n, v)" using Some by (cases nv) simp
        have "request_set kParseRequestHeader (parse_header n v req)"
          using 1(3) header by (simp add: request_set_def parse_header_def)
        moreover have "parse_stream kParseRequestHeader (parse_header n v req) r = Inr (ok, st1, req1, rest)"
          using 1(4) lr nv header by (simp add: parse_stream.simps [of kParseRequestHeader])
        ultimately show ?thesis using 1(2) [OF _ header _ _ nv] lr header by simp
      qed
    next
      case complete
      then show ?thesis using 1(3,4) by (simp add: parse_stream.simps [of kParseGotCompleteRequest])
    qed
  qed
qed

lemma ParseContent_sets:
  assumes "buf_inv b" and "length (buffer b) < 2 ^ 31" and "request_set (parse_state c) (request c)"
  shows "ParseContent c b = Some (Inl LengthError) \<or>
    (\<exists>ok c' b'. ParseContent c b = Some (Inr (ok, c', b')) \<and> request_set (parse_state c') (request c') \<and>
       (ok \<or> parse_state c' = kParseRequestLine) \<and> buf_inv b')"
proof -
  let ?out = "parse_stream (parse_state c) (request c) (content b)"
  have st: "working (parse_state c) \<or> GetCompleteRequest c"
    using assms(3) by (auto simp: request_set_def working_def GetCompleteRequest_def)
  obtain res where res: "ParseContent c b = Some res" "shows_outcome c b ?out res"
    using ParseContent_refines_stream [OF assms(1,2) st] by blast
  have fine: "proper_outcome (content b) True ?out"
    using parse_stream_outcome [of "content b" "parse_state c" "request c"] st by (simp add: GetCompleteRequest_def)
  show ?thesis
  proof (cases ?out)
    case (Inl f)
    then show ?thesis using res fine by (simp add: proper_outcome_def)
  next
    case (Inr x)
    obtain ok st1 req1 rest where x: "x = (ok, st1, req1, rest)" by (cases x)
    then have "request_set st1 req1" using parse_stream_sets [OF assms(3)] Inr by simp
    then show ?thesis using res fine Inr x by (auto simp: proper_outcome_def)
  qed
qed

lemma send_fault: "send w m c = Inl f \<Longrightarrow> f = AssertFailed"
  by (auto simp: send_def send_rest_def Let_def split: if_splits)

lemma dealWithRequest_set:
  assumes "request_set kParseGotCompleteRequest req"
  shows "dealWithRequest HttpResponseCallBack w req c \<noteq> Inl Indeterminate"
proof -
  obtain m v where mv: "http_method req = Some m" "http_version req = Some v"
    using assms by (auto simp: request_set_def)
  have "\<exists>cl. close_wanted req = Inr cl" using mv(2) by (auto simp: close_wanted_def Let_def)
  then obtain cl where cl: "close_wanted req = Inr cl" by blast
  have "\<exists>r code. HttpResponseCallBack req (new_HttpResponse cl) = Inr r \<and> status_code r = Some code"
    using mv(1) by (auto simp: HttpResponseCallBack_def setStatusCode_def setCloseConnection_def setStatusMessage_def
        setBody_def setBodyType_def)
  then obtain r code where r: "HttpResponseCallBack req (new_HttpResponse cl) = Inr r" "status_code r = Some code" by blast
  have "\<exists>b. AppendToBuffer r (new_Buffer kInitialSize) = Inr b"
    using r(2) by (simp add: AppendToBuffer_def response_message_def Let_def)
  then show ?thesis using cl r(1)
    by (auto simp: dealWithRequest_def send_buffer_def dest!: send_fault split: sum.splits if_splits)
qed

subsection \<open>Properties\<close>

text \<open>
  C7: However TCP cuts a client's request into segments, the server answers it once and when it is
  complete: after each segment but the last nothing has been sent; the last one makes the response of the
  callback join the output, unless its direct write fails, which drops it; the parser is ready for the next request and
  the bytes behind the request are kept. The callback is given the client's method, path, query, version and headers:
  exactly these on a connection that has had no query and no headers before, and otherwise with the earlier headers beside
  them, and the earlier query if there is no new one.
\<close>

theorem segmented_request_is_answered_once:
  assumes "stream_inv c acc" and "open_inv c" and "connected c"
    and "parse_state (http_content c) = kParseRequestLine" and "content (inputBuffer c) = []"
    and "\<forall>a \<in> set (as @ [e]). arrives a"
    and "segment_bytes (as @ [e]) = render_request m p q v hs @ rest" and "length (segment_bytes as) < length (render_request m p q v hs)"
    and "length (buffer (inputBuffer c)) + length (segment_bytes (as @ [e])) < 2 ^ 31"
    and "target_ok p q" and "\<forall>h \<in> set hs. header_ok h"
    and "req = add_headers hs (requested m p q v (request (http_content c)))"
    and "cb req (new_HttpResponse (closes v req)) = Inr r" and "response_message r = Inr msg"
    and "length msg < 2 ^ 31" and "write_ok (arr_reply e) (length msg) c"
  shows "\<exists>c1 c'. http_reads cb auto_close as c = Some (Inr c1) \<and>
    wire (socket c1) @ content (outputBuffer c1) = acc \<and>
    http_reads cb auto_close (as @ [e]) c = Some (Inr c') \<and>
    wire (socket c') @ content (outputBuffer c') = acc @ (if arr_reply e < 0 \<and> direct_write c1 then [] else msg) \<and>
    open_inv c' \<and>
    content (inputBuffer c') = rest \<and> parse_state (http_content c') = kParseRequestLine \<and>
    conn_state c' = (if close_connection r then kDisConnecting else kConnected) \<and>
    (unused_request (request (http_content c)) \<longrightarrow> req = sent_request m p q v hs)"
proof -
  have start: "reading (request (http_content c)) [] acc c"
    using assms(1-5) by (simp add: reading_def working_def parse_stream.simps split_crlf.simps)
  have "waiting (parse_stream kParseRequestLine (request (http_content c)) xs)" if "segment_bytes as = xs @ ys" for xs ys
  proof -
    have "length xs < length (render_request m p q v hs)" using that assms(8) by simp
    moreover have "render_request m p q v hs @ rest = xs @ ys @ arr_data e" using that assms(7) by simp
    ultimately have "render_request m p q v hs = xs @ drop (length xs) (render_request m p q v hs)"
      by (metis append_eq_conv_conj append_take_drop_id less_imp_le_nat take_all_iff take_append diff_is_0_eq take0 append_Nil2)
    then show ?thesis
      using strict_prefix_waits [OF assms(10,11)] \<open>length xs < length (render_request m p q v hs)\<close> by simp
  qed
  then obtain c1 where c1: "http_reads cb auto_close as c = Some (Inr c1)"
    "reading (request (http_content c)) (segment_bytes as) acc c1" "socket c1 = socket c"
    "length (buffer (inputBuffer c1)) \<le> length (buffer (inputBuffer c)) + length (segment_bytes as)"
    using http_reads_wait [OF start, of as cb auto_close] assms(6,9) by auto
  have "write_ok (arr_reply e) (length msg) c1" using assms(16) c1(3) by (simp add: write_ok_def)
  moreover have "length (buffer (inputBuffer c1)) + length (arr_data e) < 2 ^ 31" using assms(9) c1(4) by simp
  ultimately obtain c' where "http_read cb auto_close e c1 = Some (Inr c')"
    "stream_inv c' (acc @ kept (arr_reply e) c1 msg)" "open_inv c'"
    "content (inputBuffer c') = rest" "parse_state (http_content c') = kParseRequestLine"
    "conn_state c' = (if close_connection r then kDisConnecting else kConnected)"
    using http_read_completes [where cb = cb and rest = rest and auto_close = auto_close, OF c1(2) _ _ _ assms(10-15)]
      assms(6,7) by auto
  moreover have "wire (socket c1) @ content (outputBuffer c1) = acc"
    using readingD(1) [OF c1(2)] by (simp add: stream_inv_def)
  moreover have "unused_request (request (http_content c)) \<Longrightarrow> req = sent_request m p q v hs"
    using assms(12) request_of_unused by simp
  ultimately show ?thesis using c1(1) by (auto simp: http_reads_append stream_inv_def kept_def)
qed

text \<open>Segments for a concrete run: the write of the response takes nothing at once.\<close>

definition demo_arrival :: "bytes \<Rightarrow> arrival" where
  "demo_arrival d = \<lparr>arr_time = TimeStamp 5, arr_n = int (length d), arr_data = d, arr_refusal = 0, arr_reply = 0\<rparr>"

lemma segmented_request_is_answered_once_witness:
  "\<exists>c'. http_reads HttpDefaultCallback True
       [demo_arrival ''GE'', demo_arrival ''T /a HTTP/'', demo_arrival (''1.1'' @ CRLF @ CRLF @ ''GET'')] (demo_with []) =
     Some (Inr c') \<and>
     wire (socket c') @ content (outputBuffer c') =
       ''HTTP/1.1 404 Not Found'' @ CRLF @ ''Connection: close'' @ CRLF @ CRLF \<and> content (inputBuffer c') = ''GET''"
proof -
  let ?c = "demo_with []"
  let ?e = "demo_arrival (''1.1'' @ CRLF @ CRLF @ ''GET'')"
  let ?as = "[demo_arrival ''GE'', demo_arrival ''T /a HTTP/'']"
  let ?req = "add_headers [] (requested kGet ''/a'' None True (request (http_content ?c)))"
  let ?r = "setCloseConnection True (setStatusMessage ''Not Found'' (setStatusCode k404NotFound
    (new_HttpResponse (closes True ?req))))"
  let ?msg = "''HTTP/1.1 404 Not Found'' @ CRLF @ ''Connection: close'' @ CRLF @ CRLF"
  have line: "render_request kGet ''/a'' None True [] = ''GET /a HTTP/1.1'' @ CRLF @ CRLF" by code_simp
  have "dec 404 = ''404''" by code_simp
  then have msg: "response_message ?r = Inr ?msg"
    by (simp add: response_message_def setStatusCode_def setStatusMessage_def
        setCloseConnection_def new_HttpResponse_def server_http_version_def)
  have cb: "HttpDefaultCallback ?req (new_HttpResponse (closes True ?req)) = Inr ?r"
    by (simp add: HttpDefaultCallback_def)
  have small: "length (buffer (inputBuffer ?c)) + length (segment_bytes (?as @ [?e])) < 2 ^ 31"
    by (simp add: demo_with_ok(5) buffer_of_ok(3) demo_arrival_def CRLF_def)
  have arr: "\<forall>a \<in> set (?as @ [?e]). arrives a"
    by (simp add: arrives_def demo_arrival_def CRLF_def extrabuf_size_def)
  have eq: "segment_bytes (?as @ [?e]) = render_request kGet ''/a'' None True [] @ ''GET''"
    "length (segment_bytes ?as) < length (render_request kGet ''/a'' None True [])"
    unfolding line by (simp_all add: demo_arrival_def CRLF_def)
  have "target_ok ''/a'' None" by (simp add: target_ok_def CR_def)
  moreover have "content (inputBuffer ?c) = []" by (simp add: demo_with_ok(5) buffer_of_ok(2))
  moreover have "write_ok (arr_reply ?e) (length ?msg) ?c" "0 \<le> arr_reply ?e" "length ?msg < 2 ^ 31"
    by (simp_all add: write_ok_def demo_with_ok(6) demo_arrival_def CRLF_def)
  ultimately obtain c' where "http_reads HttpDefaultCallback True (?as @ [?e]) ?c = Some (Inr c')"
    "wire (socket c') @ content (outputBuffer c') = [] @ ?msg" "content (inputBuffer c') = ''GET''"
    using segmented_request_is_answered_once [of ?c "[]" ?as ?e kGet "''/a''" None True "[]" "''GET''" ?req
        HttpDefaultCallback ?r ?msg True, OF demo_with_ok(1-4) _ arr eq small _ _ refl cb msg]
    by auto
  then show ?thesis by auto
qed

text \<open>
  C22: The server never reads an unset member. A fresh request is set as far as its parser state says, every
  message callback keeps that, whatever bytes have arrived, and so neither the decision to close, which
  reads the version, nor the callback of \<open>Main.cc\<close>, which reads the method, nor the serialisation, which reads
  the status code, sees an indeterminate value.
\<close>

theorem no_unset_member_is_read:
  assumes "buf_inv (inputBuffer c)" and "length (buffer (inputBuffer c)) < 2 ^ 31"
    and "request_set (parse_state (http_content c)) (request (http_content c))"
  shows "request_set (parse_state new_HttpContent) (request new_HttpContent) \<and>
    MessageCallback HttpResponseCallBack auto_close t w w' c \<notin> {None, Some (Inl Indeterminate)} \<and>
    (\<forall>c'. MessageCallback HttpResponseCallBack auto_close t w w' c = Some (Inr c') \<longrightarrow>
       request_set (parse_state (http_content c')) (request (http_content c')))"
proof -
  let ?c1 = "if auto_close then updateTimeStamp t c else c"
  have c1: "http_content ?c1 = http_content c" "inputBuffer ?c1 = inputBuffer c" by (simp_all add: updateTimeStamp_def)
  have new: "request_set (parse_state new_HttpContent) (request new_HttpContent)" by (simp add: request_set_def)
  show ?thesis
  proof (cases "IsShutdown ?c1")
    case True
    then show ?thesis using assms(3) new c1 by (auto simp: MessageCallback_def Let_def)
  next
    case False
    consider (thrown) "ParseContent (http_content c) (inputBuffer c) = Some (Inl LengthError)"
      | (parsed) ok hc b where "ParseContent (http_content c) (inputBuffer c) = Some (Inr (ok, hc, b))"
        "request_set (parse_state hc) (request hc)" "ok \<or> parse_state hc = kParseRequestLine"
      using ParseContent_sets [OF assms] by blast
    then show ?thesis
    proof cases
      case thrown
      then show ?thesis using False new c1 by (simp add: MessageCallback_def Let_def)
    next
      case parsed
      let ?c2 = "?c1\<lparr>http_content := hc, inputBuffer := b\<rparr>"
      have mc: "MessageCallback HttpResponseCallBack auto_close t w w' c =
          (case (if ok then Inr ?c2 else refuse w ?c2) of
             Inl f \<Rightarrow> Some (Inl f)
           | Inr c3 \<Rightarrow>
               if GetCompleteRequest (http_content c3)
               then (case dealWithRequest HttpResponseCallBack w' (request (http_content c3)) c3 of
                       Inl f \<Rightarrow> Some (Inl f)
                     | Inr c4 \<Rightarrow> Some (Inr (c4\<lparr>http_content := ResetContentState (http_content c4)\<rparr>)))
               else Some (Inr c3))"
        using False parsed(1) c1 by (simp add: MessageCallback_def Let_def)
      show ?thesis
      proof (cases "ok \<and> GetCompleteRequest hc")
        case True
        then have "dealWithRequest HttpResponseCallBack w' (request hc) ?c2 \<noteq> Inl Indeterminate"
          using dealWithRequest_set [of "request hc"] parsed(2) by (simp add: GetCompleteRequest_def)
        then show ?thesis using mc new True
          by (auto simp: ResetContentState_def request_set_def split: sum.splits)
      next
        case incomplete: False
        show ?thesis
        proof (cases ok)
          case True
          then show ?thesis using mc new incomplete parsed(2) by simp
        next
          case False
          then have "parse_state hc = kParseRequestLine" using parsed(3) by simp
          then show ?thesis using mc new False
            by (cases "refuse w ?c2")
              (auto simp: refuse_def request_set_def GetCompleteRequest_def dest: send_fault send_frame split: sum.splits)
        qed
      qed
    qed
  qed
qed

lemma no_unset_member_is_read_witness:
  "MessageCallback HttpResponseCallBack True (TimeStamp 5) 0 0 (demo_with ''GET /'') \<noteq> Some (Inl Indeterminate)"
proof -
  let ?c = "demo_with ''GET /''"
  have "buf_inv (inputBuffer ?c)" "length (buffer (inputBuffer ?c)) < 2 ^ 31"
    by (simp_all add: demo_with_ok(5) buffer_of_ok)
  moreover have "request_set (parse_state (http_content ?c)) (request (http_content ?c))"
    by (simp add: request_set_def demo_with_ok(4))
  ultimately show ?thesis using no_unset_member_is_read [of ?c True "TimeStamp 5" 0 0] by simp
qed

end
