(* ===== verification/Net_Socket.thy ===== *)
theory Net_Socket
  imports Net_Accepter
begin

text \<open>
  \<^verbatim>\<open>Net/Socket.h\<close>, \<^verbatim>\<open>Net/Socket.cc\<close>: the options of a socket, binding and listening, and what \<open>Accepter\<close>
  does with them (\<^verbatim>\<open>Net/Accepter.cc\<close>). What the kernel keeps of a socket is a record; the results of \<open>bind\<close> and \<open>listen\<close>
  are arguments, and the messages that are printed or logged are collected.
\<close>

subsection \<open>State and operations\<close>

datatype sock_option = SO_REUSEADDR | SO_REUSEPORT | SO_KEEPALIVE | TCP_NODELAY

record KernelSocket =
  sockfd :: int
  file_flags :: "32 word"
  sock_options :: "sock_option \<Rightarrow> int"
  bound_to :: "InetAddress option"
  backlog :: "nat option"
  closed :: bool
  messages :: "string list"

definition O_NONBLOCK :: "32 word" where
  "O_NONBLOCK = 2048"

text \<open>\<open>createNonBlockFd\<close>; a failure is only printed.\<close>

definition createNonBlockFd :: "int \<Rightarrow> KernelSocket" where
  "createNonBlockFd fd0 =
     \<lparr>sockfd = fd0, file_flags = O_NONBLOCK, sock_options = (\<lambda>_. 0), bound_to = None, backlog = None, closed = False,
      messages = (if fd0 < 0 then [''create sockfd error''] else [])\<rparr>"

definition setNoblock :: "KernelSocket \<Rightarrow> KernelSocket" where
  "setNoblock s = (let old_options = file_flags s; new_options = old_options OR O_NONBLOCK in s\<lparr>file_flags := new_options\<rparr>)"

definition close_socket :: "KernelSocket \<Rightarrow> KernelSocket" where
  "close_socket s = s\<lparr>closed := True\<rparr>"

definition socket_listen :: "int \<Rightarrow> KernelSocket \<Rightarrow> KernelSocket" where
  "socket_listen r s =
     (if r < 0 then s\<lparr>messages := messages s @ [''listen sockfd faild:'' @ fmt_int (sockfd s)]\<rparr>
      else s\<lparr>backlog := Some 1024\<rparr>)"

definition bindAddr :: "int \<Rightarrow> InetAddress \<Rightarrow> KernelSocket \<Rightarrow> KernelSocket" where
  "bindAddr r localaddr s =
     (if r < 0
      then s\<lparr>messages := messages s @ [''bind sockfd:'' @ fmt_int (sockfd s) @ ''error, May be Address in use.'']\<rparr>
      else s\<lparr>bound_to := Some localaddr\<rparr>)"

definition set_sock_option :: "sock_option \<Rightarrow> bool \<Rightarrow> KernelSocket \<Rightarrow> KernelSocket" where
  "set_sock_option opt on s = s\<lparr>sock_options := (sock_options s)(opt := if on then 1 else 0)\<rparr>"

definition setReuseAddr :: "bool \<Rightarrow> KernelSocket \<Rightarrow> KernelSocket" where
  "setReuseAddr on = set_sock_option SO_REUSEADDR on"

definition setNoDelay :: "bool \<Rightarrow> KernelSocket \<Rightarrow> KernelSocket" where
  "setNoDelay on = set_sock_option TCP_NODELAY on"

definition setReusePort :: "bool \<Rightarrow> KernelSocket \<Rightarrow> KernelSocket" where
  "setReusePort on = set_sock_option SO_REUSEPORT on"

definition keepAlive :: "bool \<Rightarrow> KernelSocket \<Rightarrow> KernelSocket" where
  "keepAlive on = set_sock_option SO_KEEPALIVE on"

text \<open>The socket of an acceptor: the constructor, which ignores its parameter \<open>reuseport\<close>, and \<open>listen\<close>.\<close>

definition accepter_socket :: "int \<Rightarrow> InetAddress \<Rightarrow> int \<Rightarrow> KernelSocket" where
  "accepter_socket fd0 listenAddr bind_result =
     (let s = createNonBlockFd fd0; s1 = setReuseAddr True s in bindAddr bind_result listenAddr s1)"

definition accepter_listens :: "int \<Rightarrow> Accepter \<Rightarrow> KernelSocket \<Rightarrow> Epoller \<Rightarrow> Accepter \<times> KernelSocket \<times> Epoller" where
  "accepter_listens listen_result a s ep =
     (let s1 = socket_listen listen_result s; (a1, ep1) = accepter_listen a ep in (a1, s1, ep1))"

subsection \<open>Properties\<close>

text \<open>Options do not touch each other, and a socket that is set not to block keeps its other flags.\<close>

lemma options_independent:
  "sock_options (set_sock_option o1 b s) o2 = (if o1 = o2 then (if b then 1 else 0) else sock_options s o2)"
  "o1 \<noteq> o2 \<Longrightarrow> set_sock_option o1 b (set_sock_option o2 d s) = set_sock_option o2 d (set_sock_option o1 b s)"
  "sock_options (setNoblock s) = sock_options s" "setNoblock (setNoblock s) = setNoblock s"
  by (auto simp: set_sock_option_def setNoblock_def fun_upd_twist or.assoc)

lemma setNoblock_flags: "bit (file_flags (setNoblock s)) n \<longleftrightarrow> bit (file_flags s) n \<or> n = 11"
proof -
  have eq: "O_NONBLOCK = push_bit 11 1" by (simp add: O_NONBLOCK_def push_bit_eq_mult)
  have "bit O_NONBLOCK n \<longleftrightarrow> n = 11" unfolding eq bit_push_bit_iff bit_1_iff possible_bit_word by auto
  then show ?thesis by (auto simp: setNoblock_def bit_simps)
qed

text \<open>
  An acceptor listens on a socket that does not block and whose address may be reused, with its channel
  registered for reading under its descriptor; but on the address it was given only if \<open>bind\<close> succeeded: a failure is
  printed, and the server goes on to listen on whatever address the kernel chooses.
\<close>

theorem accepter_listens_anyway:
  assumes "interest ep = Some K" and "K f = None" and "0 \<le> listen_result"
    and "accepter_listens listen_result (new_Accepter p f) (accepter_socket f addr bind_result) ep = (a, s, ep')"
  shows "listening a \<and> backlog s = Some 1024 \<and> bit (file_flags s) 11 \<and> sock_options s SO_REUSEADDR = 1 \<and>
    interest ep' = Some (K(f \<mapsto> (kReadEvent, p))) \<and> bound_to s = (if bind_result < 0 then None else Some addr) \<and>
    (bind_result < 0 \<longrightarrow> messages s \<noteq> [])"
proof -
  obtain a1 ep1 where l: "accepter_listen (new_Accepter p f) ep = (a1, ep1)" by fastforce
  then have eqs: "a = a1" "ep' = ep1" "s = socket_listen listen_result (accepter_socket f addr bind_result)"
    using assms(4) by (simp_all add: accepter_listens_def Let_def)
  have flags: "file_flags s = O_NONBLOCK" "sock_options s SO_REUSEADDR = 1" "backlog s = Some 1024"
    "bound_to s = (if bind_result < 0 then None else Some addr)" "bind_result < 0 \<longrightarrow> messages s \<noteq> []"
    using assms(3) unfolding eqs(3)
    by (simp_all add: socket_listen_def accepter_socket_def createNonBlockFd_def setReuseAddr_def set_sock_option_def
        bindAddr_def Let_def)
  have "bit O_NONBLOCK 11" by (simp add: O_NONBLOCK_def bit_numeral_rec)
  then show ?thesis using accepter_listen_registers [OF assms(1,2) l] flags eqs by simp
qed

lemma accepter_listens_anyway_witness:
  "\<exists>a s ep'. accepter_listens 0 (new_Accepter 5 7) (accepter_socket 7 addr (- 1)) new_Epoller = (a, s, ep') \<and>
     listening a \<and> backlog s = Some 1024 \<and> bound_to s = None \<and> interest ep' = Some [7 \<mapsto> (kReadEvent, 5)]"
proof -
  obtain a s ep' where r: "accepter_listens 0 (new_Accepter 5 7) (accepter_socket 7 addr (- 1)) new_Epoller = (a, s, ep')"
    using prod_cases3 by blast
  have "interest new_Epoller = Some Map.empty" by (simp add: interest_def new_Epoller_def)
  from accepter_listens_anyway [OF this _ _ r] r show ?thesis by simp
qed

end
