(* ===== verification/Main_Program.thy ===== *)
theory Main_Program
  imports Http_Session Net_TcpServer Net_Socket Base_CString
begin

text \<open>
  \<^verbatim>\<open>Main.cc\<close> and the constructor of \<open>HttpServer\<close> (\<^verbatim>\<open>Http/httpServer.cc\<close>): how the program builds its
  server from the command line, with the acceptor's socket (\<^verbatim>\<open>Net/Accepter.cc\<close>, theory Net_Socket). The results of
  \<open>socket\<close>, \<open>bind\<close> and \<open>listen\<close>, the loops that the threads report and \<open>inet_pton\<close> are arguments.
\<close>

subsection \<open>The HTTP server\<close>

record HttpServer =
  hs_tcp :: TcpServer
  auto_close_idleconnection :: bool
  response_callback :: "HttpRequest \<Rightarrow> HttpResponse \<Rightarrow> fault + HttpResponse"

definition kThreaNums :: int where
  "kThreaNums = 4"

definition setHttpResponseCallback ::
  "(HttpRequest \<Rightarrow> HttpResponse \<Rightarrow> fault + HttpResponse) \<Rightarrow> HttpServer \<Rightarrow> HttpServer" where
  "setHttpResponseCallback cb hs = hs\<lparr>response_callback := cb\<rparr>"

text \<open>
  The constructor of \<open>Accepter\<close>: the object, its channel at the address \<open>p\<close>, and the socket it creates and binds.
\<close>

definition accepter_construct :: "nat \<Rightarrow> int \<Rightarrow> int \<Rightarrow> InetAddress \<Rightarrow> Accepter \<times> KernelSocket" where
  "accepter_construct p fd0 bind_result listenAddr =
     (new_Accepter p fd0, accepter_socket fd0 listenAddr bind_result)"

definition new_HttpServer ::
  "nat \<Rightarrow> nat \<Rightarrow> int \<Rightarrow> int \<Rightarrow> InetAddress \<Rightarrow> bool \<Rightarrow> fault + (HttpServer \<times> KernelSocket)" where
  "new_HttpServer l p fd0 bind_result address closeIdleConn =
     (let (acc, sock) = accepter_construct p fd0 bind_result address
      in case setThreadNum kThreaNums (new_TcpServer l acc ''HttpServer'') of
           Inl e \<Rightarrow> Inl e
         | Inr s \<Rightarrow> Inr (\<lparr>hs_tcp = s, auto_close_idleconnection = closeIdleConn,
             response_callback = HttpDefaultCallback\<rparr>, sock))"

text \<open>
  \<open>main\<close> up to its loop, on the loop \<open>l\<close>; \<open>None\<close> is the end of the program after the usage line. The server
  object is the one in the world from here on. \<open>start\<close> runs \<open>Accepter::listen\<close>, which calls \<open>listen\<close> on the socket and
  registers the channel; the world has the second, \<open>started_socket\<close> the first.
\<close>

definition started_socket :: "int \<Rightarrow> World \<Rightarrow> KernelSocket \<Rightarrow> KernelSocket" where
  "started_socket listen_result W sock = (if listening (accepter (server W)) then socket_listen listen_result sock else sock)"

definition main_program ::
  "(string \<Rightarrow> 32 word option) \<Rightarrow> (nat \<Rightarrow> nat) \<Rightarrow> nat \<Rightarrow> nat \<Rightarrow> int \<Rightarrow> int \<Rightarrow> int \<Rightarrow> string list \<Rightarrow>
   (fault + (HttpServer \<times> World \<times> KernelSocket)) option" where
  "main_program inet_pton startLoop l p fd0 bind_result listen_result argv =
     (if length argv \<le> 1 then None
      else Some
        (let addr = new_InetAddress inet_pton (word_of_int (atoi (argv ! 1))) ''127.0.0.1''
         in case new_HttpServer l p fd0 bind_result addr True of
              Inl e \<Rightarrow> Inl e
            | Inr (hs, sock) \<Rightarrow>
                (let hs1 = setHttpResponseCallback HttpResponseCallBack hs
                 in case server_start (Some Inr) startLoop l (init_World (hs_tcp hs1)) of
                      Inl e \<Rightarrow> Inl e
                    | Inr W \<Rightarrow> Inr (hs1, W, started_socket listen_result W sock))))"

subsection \<open>Properties\<close>

text \<open>
  C21: Started with a port number, the program creates a socket that does not block, binds it to that port of the local host, and
  its acceptor listens on it, with its channel in the kernel's list of the main loop; four
  threads with their loops serve the connections, the responses come from the callback of \<open>Main.cc\<close>, idle
  connections are closed, and the server is in a reachable state: what holds of every reachable server
  holds of the running program. If \<open>bind\<close> or \<open>listen\<close> fails, a message is printed and the program goes on all the same,
  with a socket that is not bound or has no queue.
\<close>

theorem main_program_serves:
  assumes "length argv > 1" and "argv ! 1 = dec n" and "n < 2 ^ 16" and "0 \<le> fd0"
    and "addr = new_InetAddress inet_pton (of_nat n) ''127.0.0.1''"
  shows "\<exists>hs W sock. main_program inet_pton startLoop l p fd0 bind_result listen_result argv = Some (Inr (hs, W, sock)) \<and>
    unat (port addr) = n \<and>
    KernelSocket.sockfd sock = fd0 \<and> acceptSocket (accepter (server W)) = fd0 \<and> bit (file_flags sock) 11 \<and>
    bound_to sock = (if bind_result < 0 then None else Some addr) \<and>
    backlog sock = (if listen_result < 0 then None else Some 1024) \<and>
    (messages sock = [] \<longleftrightarrow> 0 \<le> bind_result \<and> 0 \<le> listen_result) \<and>
    interest (pollers W l) = Some [fd0 \<mapsto> (kReadEvent, p)] \<and> listening (accepter (server W)) \<and>
    response_callback hs = HttpResponseCallBack \<and> auto_close_idleconnection hs \<and>
    server_reachable startLoop W \<and>
    loops (threadPool (server W)) = map startLoop [0..<4] \<and> srv_name (server W) = ''HttpServer''"
proof -
  let ?s = "(new_TcpServer l (new_Accepter p fd0) ''HttpServer'')\<lparr>threadPool :=
    setThreaadNum kThreaNums (new_EventLoopThreadPool l)\<rparr>"
  let ?sock = "socket_listen listen_result (accepter_socket fd0 addr bind_result)"
  have s: "setThreadNum kThreaNums (new_TcpServer l (new_Accepter p fd0) ''HttpServer'') = Inr ?s"
    by (simp add: setThreadNum_def kThreaNums_def new_TcpServer_def)
  obtain a ep where l: "accepter_listen (new_Accepter p fd0) new_Epoller = (a, ep)" by fastforce
  have "interest new_Epoller = Some Map.empty" by (simp add: interest_def new_Epoller_def)
  from accepter_listen_registers [OF this _ l]
  have reg: "listening a" "interest ep = Some [fd0 \<mapsto> (kReadEvent, p)]" by simp_all
  have fd: "acceptSocket a = fd0"
    using l by (auto simp: accepter_listen_def new_Accepter_def Let_def split: prod.splits)
  obtain W where W: "server_start (Some Inr) startLoop l (init_World ?s) = Inr W" "accepter (server W) = a"
    "pollers W l = ep" "loops (threadPool (server W)) = map startLoop [0..<4]" "srv_name (server W) = ''HttpServer''"
    using l
    by (auto simp: server_start_def run_in_loop_def init_World_def new_TcpServer_def listen_in_loop_def Let_def
        setThreaadNum_def new_EventLoopThreadPool_def kThreaNums_def new_Accepter_def split: prod.splits)
  have "server_reachable startLoop W"
    using server_reachable.step [OF server_reachable.init [OF s] server_step.start [OF W(1)]] .
  moreover have "word_of_int (atoi (argv ! 1)) = (of_nat n :: 16 word)"
    unfolding assms(2) by (simp add: atoi_dec)
  moreover have "unat (of_nat n :: 16 word) = n" using assms(3) by (simp add: unat_of_nat take_bit_nat_eq_self)
  moreover have "bit O_NONBLOCK 11" by (simp add: O_NONBLOCK_def bit_numeral_rec)
  then have "KernelSocket.sockfd ?sock = fd0" "bit (file_flags ?sock) 11"
    "bound_to ?sock = (if bind_result < 0 then None else Some addr)"
    "backlog ?sock = (if listen_result < 0 then None else Some 1024)"
    "messages ?sock = [] \<longleftrightarrow> 0 \<le> bind_result \<and> 0 \<le> listen_result"
    using assms(4) by (simp_all add: socket_listen_def accepter_socket_def createNonBlockFd_def setReuseAddr_def
        set_sock_option_def bindAddr_def Let_def)
  ultimately show ?thesis using assms(1,5) s W reg fd
    by (simp add: main_program_def new_HttpServer_def accepter_construct_def setHttpResponseCallback_def started_socket_def)
qed

lemma main_program_serves_witness:
  "\<exists>hs W sock. main_program (\<lambda>_. Some 0x0100007F) Suc 0 5 3 0 0 [''./server'', ''80''] =
     Some (Inr (hs, W, sock)) \<and> (\<exists>addr. bound_to sock = Some addr \<and> unat (port addr) = 80) \<and> listening (accepter (server W))"
proof -
  let ?argv = "[''./server'', ''80'']"
  have "dec 80 = ''80''" by code_simp
  then have argv: "length ?argv > 1" "?argv ! 1 = dec 80" by simp_all
  from main_program_serves [OF argv _ _ refl, of 3 "\<lambda>_. Some 0x0100007F" Suc 0 5 0 0] show ?thesis by auto
qed

end
