(* ===== verification/Webbench.thy ===== *)
theory Webbench
  imports Http_Server Base_CString
begin

text \<open>
  \<^verbatim>\<open>webbench/webbench.c\<close>: the load generator that is kept beside the server. The request it builds from a URL,
  the loop of one of its processes, the sum over all of them, and the options.

  What \<open>socket\<close>, \<open>connect\<close>, \<open>read\<close> and \<open>write\<close> return, the values that \<open>fscanf\<close> reads from the pipe, and
  the options that \<open>getopt_long\<close> reports are arguments. The global variables are a record; writing behind the end of an
  array, or reading a string that does not end in it, is a fault.
\<close>

subsection \<open>Options\<close>

record WebbenchOptions =
  http10 :: int
  wb_method :: int
  clients :: int
  force :: bool
  force_reload :: bool
  proxyport :: int
  proxyhost :: "string option"
  benchtime :: int

definition initial_options :: WebbenchOptions where
  "initial_options = \<lparr>http10 = 1, wb_method = 0, clients = 1, force = False, force_reload = False, proxyport = 80,
     proxyhost = None, benchtime = 30\<rparr>"

definition METHOD_GET :: int where "METHOD_GET = 0"
definition METHOD_HEAD :: int where "METHOD_HEAD = 1"
definition METHOD_OPTIONS :: int where "METHOD_OPTIONS = 2"
definition METHOD_TRACE :: int where "METHOD_TRACE = 3"

definition REQUEST_SIZE :: nat where
  "REQUEST_SIZE = 2048"

text \<open>\<open>MAXHOSTNAMELEN\<close> as the system header defines it.\<close>

definition MAXHOSTNAMELEN :: nat where
  "MAXHOSTNAMELEN = 64"

text \<open>What \<open>getopt_long\<close> reports: a long option of the table that sets a variable, or a character and its argument.\<close>

datatype wb_option = LongFlag string | Opt char string

fun long_flag :: "string \<Rightarrow> WebbenchOptions \<Rightarrow> WebbenchOptions" where
  "long_flag n o0 =
     (if n = ''force'' then o0\<lparr>force := True\<rparr>
      else if n = ''reload'' then o0\<lparr>force_reload := True\<rparr>
      else if n = ''get'' then o0\<lparr>wb_method := METHOD_GET\<rparr>
      else if n = ''head'' then o0\<lparr>wb_method := METHOD_HEAD\<rparr>
      else if n = ''options'' then o0\<lparr>wb_method := METHOD_OPTIONS\<rparr>
      else if n = ''trace'' then o0\<lparr>wb_method := METHOD_TRACE\<rparr>
      else o0)"

text \<open>The option \<open>p\<close>: a host, and behind the last colon a port. \<open>Inl\<close> is the exit status.\<close>

definition proxy_option :: "string \<Rightarrow> WebbenchOptions \<Rightarrow> int + WebbenchOptions" where
  "proxy_option optarg o0 =
     (if CHR '':'' \<notin> set optarg then Inr (o0\<lparr>proxyhost := Some optarg\<rparr>)
      else
        (let port0 = rev (until_char (CHR '':'') (rev optarg));
             host0 = take (length optarg - length port0 - 1) optarg
         in if host0 = [] then Inl 2
            else if port0 = [] then Inl 2
            else Inr (o0\<lparr>proxyhost := Some host0, proxyport := atoi port0\<rparr>)))"

definition set_option :: "wb_option \<Rightarrow> WebbenchOptions \<Rightarrow> int + WebbenchOptions" where
  "set_option x o0 =
     (case x of
        LongFlag n \<Rightarrow> Inr (long_flag n o0)
      | Opt c optarg \<Rightarrow>
          if c = CHR ''f'' then Inr (o0\<lparr>force := True\<rparr>)
          else if c = CHR ''r'' then Inr (o0\<lparr>force_reload := True\<rparr>)
          else if c = CHR ''9'' then Inr (o0\<lparr>http10 := 0\<rparr>)
          else if c = CHR ''1'' then Inr (o0\<lparr>http10 := 1\<rparr>)
          else if c = CHR ''2'' then Inr (o0\<lparr>http10 := 2\<rparr>)
          else if c = CHR ''V'' then Inl 0
          else if c = CHR ''t'' then Inr (o0\<lparr>benchtime := atoi optarg\<rparr>)
          else if c = CHR ''p'' then proxy_option optarg o0
          else if c = CHR '':'' \<or> c = CHR ''h'' \<or> c = CHR ''?'' then Inl 2
          else if c = CHR ''c'' then Inr (o0\<lparr>clients := atoi optarg\<rparr>)
          else Inr o0)"

fun set_options :: "wb_option list \<Rightarrow> WebbenchOptions \<Rightarrow> int + WebbenchOptions" where
  "set_options [] o0 = Inr o0"
| "set_options (x # xs) o0 = (case set_option x o0 of Inl e \<Rightarrow> Inl e | Inr o1 \<Rightarrow> set_options xs o1)"

subsection \<open>The request\<close>

definition adjust_version :: "WebbenchOptions \<Rightarrow> WebbenchOptions" where
  "adjust_version o0 =
     (let o1 = (if force_reload o0 \<and> proxyhost o0 \<noteq> None \<and> http10 o0 < 1 then o0\<lparr>http10 := 1\<rparr> else o0);
          o2 = (if wb_method o1 = METHOD_HEAD \<and> http10 o1 < 1 then o1\<lparr>http10 := 1\<rparr> else o1);
          o3 = (if wb_method o2 = METHOD_OPTIONS \<and> http10 o2 < 2 then o2\<lparr>http10 := 2\<rparr> else o2)
      in if wb_method o3 = METHOD_TRACE \<and> http10 o3 < 2 then o3\<lparr>http10 := 2\<rparr> else o3)"

definition wb_method_name :: "int \<Rightarrow> string" where
  "wb_method_name m =
     (if m = METHOD_HEAD then ''HEAD'' else if m = METHOD_OPTIONS then ''OPTIONS''
      else if m = METHOD_TRACE then ''TRACE'' else ''GET'')"

definition to_lower :: "char \<Rightarrow> char" where
  "to_lower c = (if 65 \<le> (of_char c :: nat) \<and> (of_char c :: nat) \<le> 90 then char_of ((of_char c :: nat) + 32) else c)"

text \<open>
  Host and port in front of the first slash of \<open>rest\<close>. \<open>strncpy\<close> copies exactly as many characters as it is
  told; the port has to end in the ten characters of \<open>tmp\<close>, since \<open>atoi\<close> reads it.
\<close>

definition split_host :: "string \<Rightarrow> int \<Rightarrow> fault + (string \<times> int)" where
  "split_host rest port0 =
     (let before_slash = until_char (CHR ''/'') rest
      in if CHR '':'' \<in> set before_slash
         then (let host0 = until_char (CHR '':'') rest;
                   digits = drop (length host0 + 1) before_slash
               in if length host0 > MAXHOSTNAMELEN \<or> length digits \<ge> 10 then Inl OutOfBounds
                  else Inr (host0, if atoi digits = 0 then 80 else atoi digits))
         else if length before_slash > MAXHOSTNAMELEN then Inl OutOfBounds
         else Inr (before_slash, port0))"

text \<open>The strings that are appended to the request, one after another.\<close>

definition request_parts :: "WebbenchOptions \<Rightarrow> string \<Rightarrow> string \<Rightarrow> string \<Rightarrow> string list" where
  "request_parts o0 host0 url rest =
     [wb_method_name (wb_method o0), '' ''] @
     [if proxyhost o0 = None then drop (length (until_char (CHR ''/'') rest)) rest else url] @
     (if http10 o0 = 1 then ['' HTTP/1.0''] else if http10 o0 = 2 then ['' HTTP/1.1''] else []) @ [CRLF] @
     (if http10 o0 > 0 then [''User-Agent: WebBench 1.5'' @ CRLF] else []) @
     (if proxyhost o0 = None \<and> http10 o0 > 0 then [''Host: '', host0, CRLF] else []) @
     (if force_reload o0 \<and> proxyhost o0 \<noteq> None then [''Pragma: no-cache'' @ CRLF] else []) @
     (if http10 o0 > 1 then [''Connection: close'' @ CRLF] else []) @
     (if http10 o0 > 0 then [CRLF] else [])"

datatype build_result = Exit int | Built WebbenchOptions string string

definition build_request :: "string \<Rightarrow> WebbenchOptions \<Rightarrow> fault + build_result" where
  "build_request url o0 =
     (let o1 = adjust_version o0
      in case strstr ''://'' url of
           None \<Rightarrow> Inr (Exit 2)
         | Some k \<Rightarrow>
             if length url > 1500 then Inr (Exit 2)
             else if proxyhost o1 = None \<and> map to_lower (take 7 url) \<noteq> ''http://'' then Inr (Exit 2)
             else
               (let rest = drop (k + 3) url
                in if CHR ''/'' \<notin> set rest then Inr (Exit 2)
                   else and_then (if proxyhost o1 = None then split_host rest (proxyport o1) else Inr ([], proxyport o1))
                     (\<lambda>(host0, port0).
                        let o2 = o1\<lparr>proxyport := port0\<rparr>
                        in if proxyhost o2 = None \<and> http10 o2 > 0 \<and> length host0 \<ge> MAXHOSTNAMELEN then Inl OutOfBounds
                           else and_then (strcats REQUEST_SIZE (request_parts o2 host0 url rest) [])
                             (\<lambda>r. Inr (Built o2 host0 r)))))"

text \<open>\<open>main\<close> up to the benchmark: the exit status, or what to run.\<close>

definition webbench_main :: "wb_option list \<Rightarrow> string list \<Rightarrow> fault + build_result" where
  "webbench_main opts rest_args =
     (if opts = [] \<and> rest_args = [] then Inr (Exit 2)
      else (case set_options opts initial_options of
              Inl e \<Rightarrow> Inr (Exit e)
            | Inr o0 \<Rightarrow>
                (case rest_args of
                   [] \<Rightarrow> Inr (Exit 2)
                 | url # _ \<Rightarrow>
                     (let o1 = (if clients o0 = 0 then o0\<lparr>clients := 1\<rparr> else o0);
                          o2 = (if benchtime o1 = 0 then o1\<lparr>benchtime := 60\<rparr> else o1)
                      in build_request url o2))))"

subsection \<open>\<open>Socket\<close>\<close>

text \<open>
  \<^verbatim>\<open>webbench/socket.c\<close>: the result and the descriptors that are open afterwards. \<open>inet_addr\<close> reports \<open>INADDR_NONE\<close>
  for what is no dotted address; then \<open>gethostbyname\<close> is asked. The port is cut to 16 bits.
\<close>

definition INADDR_NONE :: "32 word" where
  "INADDR_NONE = 0xFFFFFFFF"

definition Socket ::
  "(string \<Rightarrow> 32 word) \<Rightarrow> (string \<Rightarrow> 32 word option) \<Rightarrow> int \<Rightarrow> (int \<Rightarrow> 32 word \<Rightarrow> 16 word \<Rightarrow> int) \<Rightarrow>
   string \<Rightarrow> int \<Rightarrow> int list \<Rightarrow> int \<times> int list" where
  "Socket inet_addr gethostbyname sock connect host0 clientPort fds =
     (case (if inet_addr host0 \<noteq> INADDR_NONE then Some (inet_addr host0) else gethostbyname host0) of
        None \<Rightarrow> (- 1, fds)
      | Some addr \<Rightarrow>
          if sock < 0 then (sock, fds)
          else if connect sock addr (word_of_int clientPort) < 0 then (- 1, sock # fds)
          else (sock, sock # fds))"

text \<open>A refused connection leaves its descriptor open, and the caller does not learn which it is.\<close>

lemma Socket_leaks:
  assumes "inet_addr h \<noteq> INADDR_NONE" and "0 \<le> sock" and "connect sock (inet_addr h) (word_of_int port) < 0"
  shows "Socket inet_addr ghbn sock connect h port fds = (- 1, sock # fds)"
  using assms by (simp add: Socket_def)

lemma Socket_result:
  "fst (Socket inet_addr ghbn sock connect h port fds) \<ge> 0 \<Longrightarrow>
     Socket inet_addr ghbn sock connect h port fds = (sock, sock # fds)"
  by (auto simp: Socket_def split: option.splits if_splits)

subsection \<open>The benchmark loop of one process\<close>

record Counters =
  wb_speed :: int
  wb_failed :: int
  wb_bytes :: int

text \<open>
  One round: what \<open>Socket\<close>, \<open>write\<close>, \<open>shutdown\<close> and \<open>close\<close> return, and the results of \<open>read\<close>; they end where
  the alarm breaks the inner loop.
\<close>

record attempt =
  att_socket :: int
  att_write :: int
  att_shutdown :: int
  att_reads :: "int list"
  att_close :: int

definition fail :: "Counters \<Rightarrow> Counters" where
  "fail c = c\<lparr>wb_failed := c_int (wb_failed c + 1)\<rparr>"

text \<open>\<open>False\<close>: a read failed and the round is over.\<close>

fun read_all :: "int list \<Rightarrow> Counters \<Rightarrow> bool \<times> Counters" where
  "read_all [] c = (True, c)"
| "read_all (i # is) c =
     (if i < 0 then (False, fail c)
      else if i = 0 then (True, c)
      else read_all is (c\<lparr>wb_bytes := c_int (wb_bytes c + i)\<rparr>))"

definition bench_round :: "WebbenchOptions \<Rightarrow> int \<Rightarrow> attempt \<Rightarrow> Counters \<Rightarrow> Counters" where
  "bench_round o0 rlen a c =
     (if att_socket a < 0 then fail c
      else if rlen \<noteq> att_write a then fail c
      else if http10 o0 = 0 \<and> att_shutdown a \<noteq> 0 then fail c
      else
        (let (go, c1) = (if \<not> force o0 then read_all (att_reads a) c else (True, c))
         in if \<not> go then c1
            else if att_close a \<noteq> 0 then fail c1
            else c1\<lparr>wb_speed := c_int (wb_speed c1 + 1)\<rparr>))"

text \<open>The rounds until the alarm; then one failure is taken back, as the alarm may have caused it.\<close>

definition benchcore :: "WebbenchOptions \<Rightarrow> int \<Rightarrow> attempt list \<Rightarrow> Counters \<Rightarrow> Counters" where
  "benchcore o0 rlen as c =
     (let c1 = fold (bench_round o0 rlen) as c
      in if wb_failed c1 > 0 then c1\<lparr>wb_failed := wb_failed c1 - 1\<rparr> else c1)"

text \<open>
  The parent's loop over what \<open>fscanf\<close> reports: the number of values it read and the three variables after it.
  \<open>i\<close> is the first of them, which \<open>bench\<close> returns.
\<close>

fun bench_collect :: "int \<Rightarrow> (int \<times> int \<times> int \<times> int) list \<Rightarrow> int \<Rightarrow> Counters \<Rightarrow> int \<times> Counters" where
  "bench_collect n [] i0 c = (i0, c)"
| "bench_collect n ((got, i, j, k) # rs) i0 c =
     (if got < 2 then (i, c)
      else
        (let c1 = \<lparr>wb_speed = c_int (wb_speed c + i), wb_failed = c_int (wb_failed c + j),
                   wb_bytes = c_int (wb_bytes c + k)\<rparr>
         in if n - 1 = 0 then (i, c1) else bench_collect (n - 1) rs i c1))"

text \<open>
  \<open>bench\<close>: the first connection, the pipe, the results of \<open>fork\<close> in turn (0 in the child), what \<open>fdopen\<close> gives; \<open>as\<close> are
  the rounds of this process if it is a child, \<open>rs\<close> the reports if it is the parent.
\<close>

datatype bench_end = Status int | Wrote Counters | Summed int Counters

fun fork_loop :: "nat \<Rightarrow> int list \<Rightarrow> int \<Rightarrow> int" where
  "fork_loop 0 ps pid = pid"
| "fork_loop (Suc n) [] pid = pid"
| "fork_loop (Suc n) (p # ps) pid = (if p \<le> 0 then p else fork_loop n ps p)"

definition bench :: "WebbenchOptions \<Rightarrow> int \<Rightarrow> int \<Rightarrow> int \<Rightarrow> int list \<Rightarrow> bool \<Rightarrow> attempt list \<Rightarrow>
    (int \<times> int \<times> int \<times> int) list \<Rightarrow> bench_end" where
  "bench o0 rlen first_socket pipe_result ps fdopen_ok as rs =
     (if first_socket < 0 then Status 1
      else if pipe_result \<noteq> 0 then Status 3
      else
        (let pid = fork_loop (nat (clients o0)) ps 0
         in if pid < 0 then Status 3
            else if pid = 0 then
              (let c = benchcore o0 rlen as \<lparr>wb_speed = 0, wb_failed = 0, wb_bytes = 0\<rparr>
               in if \<not> fdopen_ok then Status 3 else Wrote c)
            else if \<not> fdopen_ok then Status 3
            else
              (let (i, c) = bench_collect (clients o0) rs (clients o0) \<lparr>wb_speed = 0, wb_failed = 0, wb_bytes = 0\<rparr>
               in Summed i c)))"

subsection \<open>What is built from a URL\<close>

lemma strstr_colon: "strstr ''://'' (''http://'' @ s) = Some 4"
  by simp

definition url_port :: "nat option \<Rightarrow> string" where
  "url_port p = (case p of None \<Rightarrow> [] | Some n \<Rightarrow> CHR '':'' # dec n)"

definition url_of :: "string \<Rightarrow> nat option \<Rightarrow> string \<Rightarrow> string option \<Rightarrow> string" where
  "url_of h n p q = ''http://'' @ h @ url_port n @ render_target (CHR ''/'' # p) q"

definition host_name_ok :: "string \<Rightarrow> bool" where
  "host_name_ok h \<longleftrightarrow> CHR ''/'' \<notin> set h \<and> CHR '':'' \<notin> set h"

lemma is_digit_plain: "is_digit c \<Longrightarrow> c \<noteq> CHR ''/'' \<and> c \<noteq> CHR '':''"
  by (auto simp: is_digit_def)

lemma url_port_no_slash: "CHR ''/'' \<notin> set (url_port n)"
  using dec_all_digits is_digit_plain by (fastforce simp: url_port_def split: option.splits)

lemma split_host_ok:
  assumes "host_name_ok h" and "length h \<le> MAXHOSTNAMELEN" and "\<forall>k. n = Some k \<longrightarrow> length (dec k) < 10"
  shows "split_host (h @ url_port n @ CHR ''/'' # s) port0 =
    Inr (h, case n of None \<Rightarrow> port0 | Some k \<Rightarrow> if k = 0 then 80 else int k)"
proof -
  have before: "until_char (CHR ''/'') (h @ url_port n @ CHR ''/'' # s) = h @ url_port n"
    using until_char_append [of "CHR ''/''" "h @ url_port n" s] assms(1) url_port_no_slash
    by (simp add: host_name_ok_def)
  show ?thesis
  proof (cases n)
    case None
    then show ?thesis using before assms(1,2) by (simp add: split_host_def url_port_def host_name_ok_def)
  next
    case (Some k)
    have "until_char (CHR '':'') (h @ url_port n @ CHR ''/'' # s) = h"
      using assms(1) Some by (simp add: url_port_def host_name_ok_def)
    then show ?thesis using before assms Some by (simp add: split_host_def url_port_def atoi_dec)
  qed
qed

text \<open>The headers of a request that goes straight to the server.\<close>

definition wb_headers :: "bool \<Rightarrow> string \<Rightarrow> (string \<times> string) list" where
  "wb_headers is_11 h = [(''User-Agent'', ''WebBench 1.5''), (''Host'', h)] @
     (if is_11 then [(''Connection'', ''close'')] else [])"

lemma request_parts_port: "request_parts (o0\<lparr>proxyport := x\<rparr>) h url rest = request_parts o0 h url rest"
  by (simp add: request_parts_def)

lemma request_parts_render:
  assumes "proxyhost o0 = None" and "wb_method o0 = METHOD_GET" and "http10 o0 = 1 \<or> http10 o0 = 2"
    and "until_char (CHR ''/'') rest = pre" and "rest = pre @ render_target (CHR ''/'' # p) q"
  shows "concat (request_parts o0 h url rest) =
    render_request kGet (CHR ''/'' # p) q (http10 o0 = 2) (wb_headers (http10 o0 = 2) h)"
  using assms
  by (auto simp: request_parts_def render_request_def render_line_def render_header_def wb_headers_def
      version_name_def wb_method_name_def METHOD_GET_def METHOD_HEAD_def METHOD_OPTIONS_def METHOD_TRACE_def)

lemma length_wb_request:
  assumes "length (render_target p q) \<le> 1500" and "length h < MAXHOSTNAMELEN"
  shows "length (render_request kGet p q v (wb_headers v h)) < REQUEST_SIZE"
  using assms
  by (simp add: render_request_def render_line_def render_header_def wb_headers_def version_name_def CRLF_def
      MAXHOSTNAMELEN_def REQUEST_SIZE_def)

lemma build_request_direct:
  assumes "strstr ''://'' url = Some k" and "length url \<le> 1500" and "proxyhost o0 = None"
    and "adjust_version o0 = o0" and "map to_lower (take 7 url) = ''http://''" and "drop (k + 3) url = rest"
    and "CHR ''/'' \<in> set rest" and "split_host rest (proxyport o0) = Inr (h, port0)" and "length h < MAXHOSTNAMELEN"
    and "strcats REQUEST_SIZE (request_parts (o0\<lparr>proxyport := port0\<rparr>) h url rest) [] = Inr r"
  shows "build_request url o0 = Inr (Built (o0\<lparr>proxyport := port0\<rparr>) h r)"
  using assms by (simp add: build_request_def)

lemma build_request_get:
  assumes "proxyhost o0 = None" and "wb_method o0 = METHOD_GET" and "http10 o0 = 1 \<or> http10 o0 = 2"
    and "host_name_ok h" and "length h < MAXHOSTNAMELEN" and "\<forall>k. n = Some k \<longrightarrow> length (dec k) < 10"
    and "length (url_of h n p q) \<le> 1500"
  shows "build_request (url_of h n p q) o0 =
    Inr (Built (o0\<lparr>proxyport := (case n of None \<Rightarrow> proxyport o0 | Some k \<Rightarrow> if k = 0 then 80 else int k)\<rparr>) h
      (render_request kGet (CHR ''/'' # p) q (http10 o0 = 2) (wb_headers (http10 o0 = 2) h)))"
proof -
  let ?t = "render_target (CHR ''/'' # p) q"
  let ?rest = "h @ url_port n @ ?t"
  let ?url = "url_of h n p q"
  have adj: "adjust_version o0 = o0"
    using assms(1-3) by (auto simp: adjust_version_def METHOD_GET_def METHOD_HEAD_def METHOD_OPTIONS_def METHOD_TRACE_def)
  have url: "?url = ''http://'' @ ?rest" by (simp add: url_of_def)
  have t: "?t = CHR ''/'' # drop 1 ?t" by (simp add: render_target_def split: option.splits)
  have before: "until_char (CHR ''/'') ?rest = h @ url_port n"
    using until_char_append [of "CHR ''/''" "h @ url_port n" "drop 1 ?t"] assms(4) url_port_no_slash t
    by (simp add: host_name_ok_def)
  let ?port = "case n of None \<Rightarrow> proxyport o0 | Some k \<Rightarrow> if k = 0 then 80 else int k"
  have host: "split_host ?rest (proxyport o0) = Inr (h, ?port)"
    using split_host_ok [OF assms(4) _ assms(6), of "drop 1 ?t" "proxyport o0"] assms(5) t by simp
  have parts: "concat (request_parts (o0\<lparr>proxyport := ?port\<rparr>) h ?url ?rest) =
      render_request kGet (CHR ''/'' # p) q (http10 o0 = 2) (wb_headers (http10 o0 = 2) h)"
    unfolding request_parts_port by (rule request_parts_render [OF assms(1-3) before]) simp
  have "length ?t \<le> 1500" using assms(7) by (simp add: url_of_def)
  from length_wb_request [OF this assms(5), of "http10 o0 = 2"]
  have cats: "strcats REQUEST_SIZE (request_parts (o0\<lparr>proxyport := ?port\<rparr>) h ?url ?rest) [] =
      Inr (render_request kGet (CHR ''/'' # p) q (http10 o0 = 2) (wb_headers (http10 o0 = 2) h))"
    using strcats_ok [of "[]" "request_parts (o0\<lparr>proxyport := ?port\<rparr>) h ?url ?rest" REQUEST_SIZE]
    unfolding parts by simp
  have found: "strstr ''://'' ?url = Some 4" unfolding url by (rule strstr_colon)
  have slash: "CHR ''/'' \<in> set ?rest" using t by (metis Un_iff list.set_intros(1) set_append)
  have rest: "drop (4 + 3) ?url = ?rest" unfolding url by simp
  have scheme: "map to_lower (take 7 ?url) = ''http://''" unfolding url by (simp add: to_lower_def)
  show ?thesis
    by (rule build_request_direct [OF found assms(7,1) adj scheme rest slash host assms(5) cats])
qed

text \<open>What goes wrong when host or port are too long for their arrays.\<close>

lemma split_host_too_long:
  assumes "host_name_ok h" and "length h > MAXHOSTNAMELEN \<or> (\<exists>k. n = Some k \<and> length (dec k) \<ge> 10)"
  shows "split_host (h @ url_port n @ CHR ''/'' # s) port0 = Inl OutOfBounds"
proof -
  have before: "until_char (CHR ''/'') (h @ url_port n @ CHR ''/'' # s) = h @ url_port n"
    using until_char_append [of "CHR ''/''" "h @ url_port n" s] assms(1) url_port_no_slash
    by (simp add: host_name_ok_def)
  show ?thesis
  proof (cases n)
    case None
    then show ?thesis using before assms by (simp add: split_host_def url_port_def host_name_ok_def)
  next
    case (Some k)
    have "until_char (CHR '':'') (h @ url_port n @ CHR ''/'' # s) = h"
      using assms(1) Some by (simp add: url_port_def host_name_ok_def)
    then show ?thesis using before assms Some by (auto simp: split_host_def url_port_def)
  qed
qed

lemma build_request_host_fault:
  assumes "strstr ''://'' url = Some k" and "length url \<le> 1500" and "proxyhost o0 = None"
    and "adjust_version o0 = o0" and "map to_lower (take 7 url) = ''http://''" and "drop (k + 3) url = rest"
    and "CHR ''/'' \<in> set rest" and "http10 o0 > 0"
    and "split_host rest (proxyport o0) = Inl OutOfBounds \<or>
      (\<exists>h port0. split_host rest (proxyport o0) = Inr (h, port0) \<and> length h \<ge> MAXHOSTNAMELEN)"
  shows "build_request url o0 = Inl OutOfBounds"
  using assms(9)
proof
  assume "split_host rest (proxyport o0) = Inl OutOfBounds"
  then show ?thesis using assms(1-8) by (simp add: build_request_def)
next
  assume "\<exists>h port0. split_host rest (proxyport o0) = Inr (h, port0) \<and> length h \<ge> MAXHOSTNAMELEN"
  then obtain h port0 where "split_host rest (proxyport o0) = Inr (h, port0)" "length h \<ge> MAXHOSTNAMELEN" by blast
  then show ?thesis using assms(1-8) by (simp add: build_request_def)
qed

lemma build_request_fault:
  assumes "proxyhost o0 = None" and "wb_method o0 = METHOD_GET" and "http10 o0 = 1 \<or> http10 o0 = 2"
    and "host_name_ok h" and "length (url_of h n p q) \<le> 1500"
    and long: "length h \<ge> MAXHOSTNAMELEN \<or> (\<exists>k. n = Some k \<and> length (dec k) \<ge> 10)"
  shows "build_request (url_of h n p q) o0 = Inl OutOfBounds"
proof -
  let ?t = "render_target (CHR ''/'' # p) q"
  let ?rest = "h @ url_port n @ ?t"
  let ?url = "url_of h n p q"
  have adj: "adjust_version o0 = o0"
    using assms(1-3) by (auto simp: adjust_version_def METHOD_GET_def METHOD_HEAD_def METHOD_OPTIONS_def METHOD_TRACE_def)
  have url: "?url = ''http://'' @ ?rest" by (simp add: url_of_def)
  have "?t = CHR ''/'' # drop 1 ?t" by (simp add: render_target_def split: option.splits)
  then obtain s where t: "?t = CHR ''/'' # s" by blast
  have host: "split_host ?rest (proxyport o0) = Inl OutOfBounds \<or>
      (\<exists>h port0. split_host ?rest (proxyport o0) = Inr (h, port0) \<and> length h \<ge> MAXHOSTNAMELEN)"
  proof (cases "length h > MAXHOSTNAMELEN \<or> (\<exists>k. n = Some k \<and> length (dec k) \<ge> 10)")
    case True
    then show ?thesis unfolding t using split_host_too_long [OF assms(4)] by blast
  next
    case False
    then have "length h \<le> MAXHOSTNAMELEN" "\<forall>k. n = Some k \<longrightarrow> length (dec k) < 10" "length h \<ge> MAXHOSTNAMELEN"
      using long by (auto simp: not_le)
    then show ?thesis unfolding t using split_host_ok [OF assms(4), of n s "proxyport o0"] by blast
  qed
  have found: "strstr ''://'' ?url = Some 4" unfolding url by (rule strstr_colon)
  have slash: "CHR ''/'' \<in> set ?rest" unfolding t by simp
  have rest: "drop (4 + 3) ?url = ?rest" unfolding url by simp
  have scheme: "map to_lower (take 7 ?url) = ''http://''" unfolding url by (simp add: to_lower_def)
  have "http10 o0 > 0" using assms(3) by auto
  from build_request_host_fault [OF found assms(5,1) adj scheme rest slash this host] show ?thesis .
qed

subsection \<open>Counting\<close>

definition zero_counters :: Counters where
  "zero_counters = \<lparr>wb_speed = 0, wb_failed = 0, wb_bytes = 0\<rparr>"

text \<open>An attempt that is answered: everything succeeds.\<close>

definition attempt_ok :: "WebbenchOptions \<Rightarrow> int \<Rightarrow> attempt \<Rightarrow> bool" where
  "attempt_ok o0 rlen a \<longleftrightarrow> att_socket a \<ge> 0 \<and> att_write a = rlen \<and> (http10 o0 = 0 \<longrightarrow> att_shutdown a = 0) \<and>
     (force o0 \<or> fst (read_all (att_reads a) zero_counters)) \<and> att_close a = 0"

lemma read_all_counts:
  "fst (read_all is c) = fst (read_all is d)" "wb_speed (snd (read_all is c)) = wb_speed c"
  "wb_failed (snd (read_all is c)) = (if fst (read_all is c) then wb_failed c else c_int (wb_failed c + 1))"
proof (induction "is" arbitrary: c d)
  case (Cons i "is")
  { case 1 show ?case using Cons(1) by (simp add: fail_def) }
  { case 2 show ?case using Cons(2) by (simp add: fail_def) }
  { case 3 show ?case using Cons(3) by (simp add: fail_def) }
qed simp_all

lemma bench_round_counts:
  "wb_speed (bench_round o0 rlen a c) = (if attempt_ok o0 rlen a then c_int (wb_speed c + 1) else wb_speed c)"
  "wb_failed (bench_round o0 rlen a c) = (if attempt_ok o0 rlen a then wb_failed c else c_int (wb_failed c + 1))"
  using read_all_counts(1) [of "att_reads a" c zero_counters] read_all_counts(2,3) [of "att_reads a" c]
  by (auto simp: bench_round_def attempt_ok_def fail_def split: prod.splits)

lemma bench_rounds_count:
  assumes "0 \<le> wb_speed c" and "0 \<le> wb_failed c" and "wb_speed c + wb_failed c + int (length as) < 2 ^ 31"
  shows "wb_speed (fold (bench_round o0 rlen) as c) = wb_speed c + int (length (filter (attempt_ok o0 rlen) as)) \<and>
    wb_failed (fold (bench_round o0 rlen) as c) = wb_failed c + int (length (filter (\<lambda>a. \<not> attempt_ok o0 rlen a) as))"
  using assms
proof (induction as arbitrary: c)
  case (Cons a as)
  let ?c = "bench_round o0 rlen a c"
  have "wb_speed ?c = wb_speed c + (if attempt_ok o0 rlen a then 1 else 0)"
    "wb_failed ?c = wb_failed c + (if attempt_ok o0 rlen a then 0 else 1)"
    using Cons.prems by (simp_all add: bench_round_counts c_int_id)
  then show ?case using Cons.IH [of ?c] Cons.prems by auto
qed simp

lemma benchcore_counts:
  assumes "int (length as) < 2 ^ 31"
  shows "wb_speed (benchcore o0 rlen as zero_counters) = int (length (filter (attempt_ok o0 rlen) as))"
    "wb_failed (benchcore o0 rlen as zero_counters) = int (length (filter (\<lambda>a. \<not> attempt_ok o0 rlen a) as) - 1)"
proof -
  have "0 \<le> wb_speed zero_counters" "0 \<le> wb_failed zero_counters"
    "wb_speed zero_counters + wb_failed zero_counters + int (length as) < 2 ^ 31"
    using assms by (simp_all add: zero_counters_def)
  note n = bench_rounds_count [OF this, of o0 rlen]
  have zero: "wb_speed zero_counters = 0" "wb_failed zero_counters = 0" by (simp_all add: zero_counters_def)
  show "wb_speed (benchcore o0 rlen as zero_counters) = int (length (filter (attempt_ok o0 rlen) as))"
    using n zero by (simp add: benchcore_def Let_def)
  show "wb_failed (benchcore o0 rlen as zero_counters) = int (length (filter (\<lambda>a. \<not> attempt_ok o0 rlen a) as) - 1)"
    using n zero
    by (cases "filter (\<lambda>a. \<not> attempt_ok o0 rlen a) as") (simp_all add: benchcore_def Let_def)
qed

text \<open>The line a child writes into the pipe, as \<open>fscanf\<close> reads it.\<close>

definition report :: "Counters \<Rightarrow> int \<times> int \<times> int \<times> int" where
  "report c = (3, wb_speed c, wb_failed c, wb_bytes c)"

lemma bench_collect_sums:
  assumes "cs \<noteq> []" and "\<forall>x \<in> set cs. 0 \<le> wb_speed x \<and> 0 \<le> wb_failed x" and "0 \<le> wb_speed c" and "0 \<le> wb_failed c"
    and "wb_speed c + sum_list (map wb_speed cs) < 2 ^ 31" and "wb_failed c + sum_list (map wb_failed cs) < 2 ^ 31"
  shows "\<exists>c'. bench_collect (int (length cs)) (map report cs) i0 c = (wb_speed (last cs), c') \<and>
    wb_speed c' = wb_speed c + sum_list (map wb_speed cs) \<and> wb_failed c' = wb_failed c + sum_list (map wb_failed cs)"
  using assms
proof (induction cs arbitrary: c i0)
  case (Cons x cs)
  let ?c = "\<lparr>wb_speed = c_int (wb_speed c + wb_speed x), wb_failed = c_int (wb_failed c + wb_failed x),
    wb_bytes = c_int (wb_bytes c + wb_bytes x)\<rparr>"
  have "0 \<le> sum_list (map wb_speed cs)" "0 \<le> sum_list (map wb_failed cs)"
    using Cons.prems(2) by (auto intro!: sum_list_nonneg)
  then have c: "wb_speed ?c = wb_speed c + wb_speed x" "wb_failed ?c = wb_failed c + wb_failed x"
    using Cons.prems by (auto intro!: c_int_id)
  show ?case
  proof (cases "cs = []")
    case True
    then show ?thesis using c by (simp add: report_def)
  next
    case False
    have step: "bench_collect (int (length (x # cs))) (map report (x # cs)) i0 c =
        bench_collect (int (length cs)) (map report cs) (wb_speed x) ?c"
      using False by (simp add: report_def [of x])
    have "\<exists>c'. bench_collect (int (length cs)) (map report cs) (wb_speed x) ?c = (wb_speed (last cs), c') \<and>
      wb_speed c' = wb_speed ?c + sum_list (map wb_speed cs) \<and> wb_failed c' = wb_failed ?c + sum_list (map wb_failed cs)"
      using Cons.prems False unfolding c by (intro Cons.IH [of ?c "wb_speed x", unfolded c]) auto
    then show ?thesis unfolding step c using False by (simp add: add.assoc)
  qed
qed simp

lemma fork_loop_parent:
  assumes "\<forall>p \<in> set ps. 0 < p" and "length ps = n" and "0 < n"
  shows "0 < fork_loop n ps pid"
  using assms
proof (induction n arbitrary: ps pid)
  case (Suc n)
  then obtain p qs where "ps = p # qs" by (cases ps) auto
  then show ?case using Suc.prems Suc.IH [of qs p] by (cases n) auto
qed simp

text \<open>The headers decide how the server treats the connection.\<close>

lemma wb_request_closes:
  assumes "hearders req = Map.empty"
  shows "closes v (add_headers (wb_headers v h) (requested m p q v req)) \<longleftrightarrow> \<not> v"
  using assms by (simp add: closes_def add_headers_def GetHeader_def requested_def wb_headers_def)

subsection \<open>Properties\<close>

text \<open>
  C24: The request the benchmark sends. For a URL of at most 1500 characters, with a host, possibly a port, a
  path and possibly a query, \<open>build_request\<close> makes exactly the GET request for that path and query with its
  three headers (the request that the server's parser reads back), and the port that was given, 80 for none or zero;
  it writes behind an array exactly if the host has 64 or more characters or the port ten or more.
\<close>

theorem build_request_bounds:
  assumes "proxyhost o0 = None" and "wb_method o0 = METHOD_GET" and "http10 o0 = 1 \<or> http10 o0 = 2"
    and "host_name_ok h" and "length (url_of h n p q) \<le> 1500"
  shows "build_request (url_of h n p q) o0 =
    (if length h < 64 \<and> (\<forall>k. n = Some k \<longrightarrow> length (dec k) < 10)
     then Inr (Built (o0\<lparr>proxyport := (case n of None \<Rightarrow> proxyport o0 | Some k \<Rightarrow> if k = 0 then 80 else int k)\<rparr>) h
       (render_request kGet (CHR ''/'' # p) q (http10 o0 = 2) (wb_headers (http10 o0 = 2) h)))
     else Inl OutOfBounds)"
proof (cases "length h < 64 \<and> (\<forall>k. n = Some k \<longrightarrow> length (dec k) < 10)")
  case True
  then have ok: "length h < MAXHOSTNAMELEN" "\<forall>k. n = Some k \<longrightarrow> length (dec k) < 10" by (simp_all add: MAXHOSTNAMELEN_def)
  show ?thesis using True build_request_get [OF assms(1-4) ok assms(5)] by simp
next
  case False
  then have long: "length h \<ge> MAXHOSTNAMELEN \<or> (\<exists>k. n = Some k \<and> length (dec k) \<ge> 10)"
    by (auto simp: MAXHOSTNAMELEN_def not_less)
  show ?thesis using False build_request_fault [OF assms long] by simp
qed

lemma build_request_bounds_witness:
  "build_request (url_of ''localhost'' None ''a'' (Some ''k=1'')) initial_options =
     Inr (Built initial_options ''localhost''
       (render_request kGet ''/a'' (Some ''k=1'') False (wb_headers False ''localhost''))) \<and>
   build_request (url_of (replicate 64 (CHR ''h'')) None ''a'' None) initial_options = Inl OutOfBounds"
proof -
  have o0: "proxyhost initial_options = None" "wb_method initial_options = METHOD_GET"
    "http10 initial_options = 1 \<or> http10 initial_options = 2" "http10 initial_options \<noteq> 2" "proxyport initial_options = 80"
    by (simp_all add: initial_options_def METHOD_GET_def)
  have id: "initial_options\<lparr>proxyport := 80\<rparr> = initial_options" by (simp add: initial_options_def)
  have h: "host_name_ok ''localhost''" "host_name_ok (replicate 64 (CHR ''h''))" by (simp_all add: host_name_ok_def)
  show ?thesis
    using build_request_bounds [OF o0(1-3) h(1), of None "''a''" "Some ''k=1''"]
      build_request_bounds [OF o0(1-3) h(2), of None "''a''" None] o0(4,5) id
    by (simp add: url_of_def url_port_def render_target_def)
qed


text \<open>
  C30: What the benchmark reports. With \<open>n\<close> processes, each making its own rounds, the parent adds up the
  number of rounds that were answered, and the number of the others, less one for each process that had
  one; and \<open>bench\<close>, hence the program, returns the number of answered rounds of the process that reported last.
\<close>

theorem bench_reports_totals:
  assumes "0 \<le> s" and "clients o0 = int (length ass)" and "ass \<noteq> []"
    and "length ps = length ass" and "\<forall>pid \<in> set ps. 0 < pid" and "int (length (concat ass)) < 2 ^ 31"
  shows "\<exists>c. bench o0 rlen s 0 ps True as (map (\<lambda>as. report (benchcore o0 rlen as zero_counters)) ass) =
      Summed (int (length (filter (attempt_ok o0 rlen) (last ass)))) c \<and>
    wb_speed c = int (length (filter (attempt_ok o0 rlen) (concat ass))) \<and>
    wb_failed c = int (sum_list (map (\<lambda>as. length (filter (\<lambda>a. \<not> attempt_ok o0 rlen a) as) - 1) ass))"
proof -
  let ?cs = "map (\<lambda>as. benchcore o0 rlen as zero_counters) ass"
  have small: "int (length as) < 2 ^ 31" if "as \<in> set ass" for as
    using assms(6) length_concat [of ass] member_le_sum_list [of "length as" "map length ass"] that by simp
  have speed: "sum_list (map wb_speed ?cs) = int (length (filter (attempt_ok o0 rlen) (concat ass)))"
    using small by (induction ass) (simp_all add: benchcore_counts)
  have failed: "sum_list (map wb_failed ?cs) =
      int (sum_list (map (\<lambda>as. length (filter (\<lambda>a. \<not> attempt_ok o0 rlen a) as) - 1) ass))"
    using small by (induction ass) (simp_all add: benchcore_counts)
  have le1: "length (filter (attempt_ok o0 rlen) (concat ass)) \<le> length (concat ass)" by (rule length_filter_le)
  have le2: "sum_list (map (\<lambda>as. length (filter (\<lambda>a. \<not> attempt_ok o0 rlen a) as) - 1) ass) \<le> length (concat ass)"
    unfolding length_concat by (rule sum_list_mono) (meson diff_le_self le_trans length_filter_le)
  have nonneg: "\<forall>x \<in> set ?cs. 0 \<le> wb_speed x \<and> 0 \<le> wb_failed x" using small by (auto simp: benchcore_counts)
  have zero: "wb_speed zero_counters = 0" "wb_failed zero_counters = 0" by (simp_all add: zero_counters_def)
  have "sum_list (map wb_speed ?cs) < 2 ^ 31" "sum_list (map wb_failed ?cs) < 2 ^ 31"
    unfolding speed failed using assms(6) le1 le2 by linarith+
  moreover have "?cs \<noteq> []" using assms(3) by simp
  ultimately obtain c where
    c: "bench_collect (int (length ?cs)) (map report ?cs) (clients o0) zero_counters = (wb_speed (last ?cs), c)"
    "wb_speed c = sum_list (map wb_speed ?cs)" "wb_failed c = sum_list (map wb_failed ?cs)"
    using bench_collect_sums [of ?cs zero_counters "clients o0", OF _ nonneg] zero by (metis add_0 order_refl)
  have pid: "0 < fork_loop (length ass) ps 0" using assms(3-5) by (intro fork_loop_parent) auto
  have last: "wb_speed (last ?cs) = int (length (filter (attempt_ok o0 rlen) (last ass)))"
    using small assms(3) by (simp add: last_map benchcore_counts)
  have "bench o0 rlen s 0 ps True as (map report ?cs) = Summed (wb_speed (last ?cs)) c"
    using c(1) pid assms(1,2) by (simp add: bench_def zero_counters_def)
  then show ?thesis using c(2,3) speed failed last by (simp add: comp_def)
qed

lemma bench_reports_totals_witness:
  "\<exists>c. bench initial_options 9 4 0 [77] True []
      [report (benchcore initial_options 9 [\<lparr>att_socket = 5, att_write = 9, att_shutdown = 0, att_reads = [3, 0], att_close = 0\<rparr>,
         \<lparr>att_socket = - 1, att_write = 0, att_shutdown = 0, att_reads = [], att_close = 0\<rparr>] zero_counters)] = Summed 1 c \<and>
    wb_speed c = 1 \<and> wb_failed c = 0"
  using bench_reports_totals [of 4 initial_options "[[\<lparr>att_socket = 5, att_write = 9, att_shutdown = 0, att_reads = [3, 0], att_close = 0\<rparr>,
         \<lparr>att_socket = - 1, att_write = 0, att_shutdown = 0, att_reads = [], att_close = 0\<rparr>]]" "[77]" 9 "[]"]
  by (simp add: initial_options_def attempt_ok_def)

lemma demo_no_headers: "hearders (request (http_content (demo_with d))) = Map.empty"
  by (simp add: demo_with_def demo_open_def demo_new_def new_TcpConnection_def new_HttpContent_def new_HttpRequest_def)


end
