(* ===== verification/Http_Idle.thy ===== *)
theory Http_Idle
  imports Http_Session
begin

text \<open>
  Idle connections of the HTTP server over time: \<open>ConnectionCallback\<close>, which arms the first check,
  \<open>MessageCallback\<close>, which notes the time of each message, and \<open>HandleIdleConnection\<close>, which
  closes the connection or arms the next check (\<^verbatim>\<open>Http/httpServer.cc\<close>), among the other events of a connection.
\<close>

subsection \<open>Time stamp and state under each event\<close>

lemma send_state: "send w m c = Inr c' \<Longrightarrow> conn_state c' = conn_state c"
  by (auto simp: send_eq send_rest_def Let_def split: if_splits)

lemma shutdown_disconnects: "\<not> connected (shutdown t c)"
  by (simp add: connected_def shutdown_def shutdownInloop_def Let_def)

lemma handleWrite_frame [simp]:
  "timestamp (handleWrite w c) = timestamp c" "conn_state (handleWrite w c) = conn_state c"
  by (simp_all add: handleWrite_def Let_def shutdownInloop_def kernel_write_def)

lemma fold_functors_timestamp: "timestamp (fold run_conn_functor fs c) = timestamp c"
proof (induction fs arbitrary: c)
  case (Cons f fs)
  then show ?case by (cases f) (simp add: shutdownInloop_def)
qed simp

lemma run_queued_frame [simp]:
  "timestamp (run_queued c) = timestamp c" "conn_state (run_queued c) = conn_state c"
  by (simp_all add: run_queued_def fold_functors_timestamp fold_functors_fields split: prod.split)

lemma handleClose_frame:
  "handleClose quiet quiet c = Inr c' \<Longrightarrow> timestamp c' = timestamp c \<and> \<not> connected c'"
  by (auto simp: handleClose_def call_def connected_def)

lemma connectDestoryed_frame:
  "connectDestoryed quiet c = Inr c' \<Longrightarrow> timestamp c' = timestamp c \<and> \<not> connected c'"
  by (auto simp: connectDestoryed_def call_def connected_def split: if_splits)

lemma dealWithRequest_frame:
  "dealWithRequest cb w req c = Inr c' \<Longrightarrow> timestamp c' = timestamp c \<and> (connected c' \<longrightarrow> connected c)"
  using send_frame(3) send_state
  by (fastforce simp: dealWithRequest_def send_buffer_def connected_def shutdown_disconnects [unfolded connected_def]
      split: sum.splits if_splits)

lemma refuse_frame: "refuse w c = Inr c' \<Longrightarrow> timestamp c' = timestamp c \<and> \<not> connected c'"
  using send_frame(3) shutdown_disconnects by (fastforce simp: refuse_def split: sum.splits)

lemma MessageCallback_frame:
  assumes "MessageCallback cb auto_close t w w' c = Some (Inr c')"
  shows "timestamp c' = (if auto_close then t else timestamp c) \<and> (connected c' \<longrightarrow> connected c)"
proof -
  let ?c1 = "if auto_close then updateTimeStamp t c else c"
  have c1: "timestamp ?c1 = (if auto_close then t else timestamp c)" "conn_state ?c1 = conn_state c"
    by (simp_all add: updateTimeStamp_def)
  show ?thesis
  proof (cases "IsShutdown ?c1")
    case True
    then show ?thesis using assms c1 by (auto simp: MessageCallback_def Let_def connected_def)
  next
    case False
    then obtain ok hc b c3 where p: "(if ok then Inr (?c1\<lparr>http_content := hc, inputBuffer := b\<rparr>)
        else refuse w (?c1\<lparr>http_content := hc, inputBuffer := b\<rparr>)) = Inr c3"
      and rest: "(if GetCompleteRequest (http_content c3) then
          (case dealWithRequest cb w' (request (http_content c3)) c3 of Inl f \<Rightarrow> Some (Inl f)
           | Inr c4 \<Rightarrow> Some (Inr (c4\<lparr>http_content := ResetContentState (http_content c4)\<rparr>)))
        else Some (Inr c3)) = Some (Inr c')"
      using assms unfolding MessageCallback_def Let_def by (auto split: option.splits sum.splits)
    have c3: "timestamp c3 = timestamp ?c1 \<and> (connected c3 \<longrightarrow> connected ?c1)"
      using p refuse_frame by (cases ok) (fastforce simp: connected_def)+
    have "timestamp c' = timestamp c3 \<and> (connected c' \<longrightarrow> connected c3)"
      using rest dealWithRequest_frame by (fastforce simp: connected_def split: if_splits sum.splits)
    then show ?thesis using c3 c1 by (auto simp: connected_def)
  qed
qed

lemma http_read_frame:
  assumes "http_read cb True a c = Some (Inr c')"
  shows "timestamp c' = arr_time a \<or> timestamp c' = timestamp c" and "connected c' \<Longrightarrow> connected c"
    and "0 < arr_n a \<Longrightarrow> timestamp c' = arr_time a"
proof -
  obtain c1 where c1: "conn_handleRead (\<lambda>_. (int (length (arr_data a)), arr_data a)) (arr_n a) quiet quiet quiet c = Inr c1"
    using assms by (auto simp: http_read_def split: sum.splits)
  have frame: "timestamp c1 = timestamp c \<and> (connected c1 \<longrightarrow> connected c)"
    using c1 handleClose_frame
    by (fastforce simp: conn_handleRead_def Let_def call_def handleError_def connected_def split: sum.splits if_splits)
  show "timestamp c' = arr_time a \<or> timestamp c' = timestamp c" "connected c' \<Longrightarrow> connected c"
    "0 < arr_n a \<Longrightarrow> timestamp c' = arr_time a"
    using assms c1 frame MessageCallback_frame [of cb True "arr_time a" "arr_refusal a" "arr_reply a" c1 c']
    by (auto simp: http_read_def split: if_splits)
qed

subsection \<open>The connection over time\<close>

text \<open>
  \<open>now\<close> is the clock, \<open>due\<close> the expiration of the timer that holds the check, if there is one;
  \<open>established_at\<close> is kept for the statements only. Once the connection is destroyed, the weak pointer
  of the check finds nothing.
\<close>

record IdleSystem =
  now :: TimeStamp
  client :: TcpConnection
  gone :: bool
  due :: "TimeStamp option"
  established_at :: TimeStamp

text \<open>What \<open>RunAfter\<close> makes of a delay.\<close>

definition arm :: "TimeStamp \<Rightarrow> real option \<Rightarrow> TimeStamp option" where
  "arm t delay = map_option (AddTime t) delay"

definition run_check :: "IdleSystem \<Rightarrow> IdleSystem" where
  "run_check S =
     (let (c, delay) = HandleIdleConnection (now S) (if gone S then None else Some (client S))
      in S\<lparr>client := (case c of None \<Rightarrow> client S | Some c' \<Rightarrow> c'), due := arm (now S) delay\<rparr>)"

text \<open>
  The timer may run late, but at most \<open>late\<close> microseconds: the clock does not pass a due check by more.
\<close>

inductive idle_step ::
  "(HttpRequest \<Rightarrow> HttpResponse \<Rightarrow> fault + HttpResponse) \<Rightarrow> int \<Rightarrow> IdleSystem \<Rightarrow> IdleSystem \<Rightarrow> bool"
  for cb late where
  tick: "now S \<le> t \<Longrightarrow> (\<And>d. due S = Some d \<Longrightarrow> microSecond t \<le> microSecond d + late) \<Longrightarrow>
    idle_step cb late S (S\<lparr>now := t\<rparr>)"
| establish: "conn_state (client S) = kConnecting \<Longrightarrow> \<not> gone S \<Longrightarrow> connectEstablished quiet (client S) = Inr c \<Longrightarrow>
    idle_step cb late S (S\<lparr>client := c, due := arm (now S) (ConnectionCallback True c), established_at := now S\<rparr>)"
| arrival: "conn_state (client S) \<noteq> kConnecting \<Longrightarrow> \<not> gone S \<Longrightarrow> arr_time a = now S \<Longrightarrow>
    http_read cb True a (client S) = Some (Inr c) \<Longrightarrow> idle_step cb late S (S\<lparr>client := c\<rparr>)"
| writable: "\<not> gone S \<Longrightarrow> idle_step cb late S (S\<lparr>client := handleWrite w (client S)\<rparr>)"
| functors: "\<not> gone S \<Longrightarrow> idle_step cb late S (S\<lparr>client := run_queued (client S)\<rparr>)"
| hangup: "conn_state (client S) \<noteq> kConnecting \<Longrightarrow> \<not> gone S \<Longrightarrow> handleClose quiet quiet (client S) = Inr c \<Longrightarrow>
    idle_step cb late S (S\<lparr>client := c\<rparr>)"
| destroy: "conn_state (client S) \<noteq> kConnecting \<Longrightarrow> \<not> gone S \<Longrightarrow> connectDestoryed quiet (client S) = Inr c \<Longrightarrow>
    idle_step cb late S (S\<lparr>client := c, gone := True\<rparr>)"
| check: "due S = Some d \<Longrightarrow> d \<le> now S \<Longrightarrow> idle_step cb late S (run_check S)"

inductive_cases idle_stepE: "idle_step cb late S T"

text \<open>A connection that has just been made; its constructor sets the member \<open>timestamp_\<close> to the time then.\<close>

definition idle_start :: "TcpConnection \<Rightarrow> TimeStamp \<Rightarrow> IdleSystem" where
  "idle_start c t = \<lparr>now = t, client = c, gone = False, due = None, established_at = t\<rparr>"

inductive idle_reachable ::
  "(HttpRequest \<Rightarrow> HttpResponse \<Rightarrow> fault + HttpResponse) \<Rightarrow> int \<Rightarrow> IdleSystem \<Rightarrow> bool" for cb late where
  start: "conn_state c = kConnecting \<Longrightarrow> timestamp c \<le> t \<Longrightarrow> idle_reachable cb late (idle_start c t)"
| step: "idle_reachable cb late S \<Longrightarrow> idle_step cb late S T \<Longrightarrow> idle_reachable cb late T"

definition seconds :: "int \<Rightarrow> int" where
  "seconds n = n * 1000000"

text \<open>The time of the last message, or of the establishment if there was none since.\<close>

definition last_sign :: "IdleSystem \<Rightarrow> TimeStamp" where
  "last_sign S = max (timestamp (client S)) (established_at S)"

definition idle_inv :: "int \<Rightarrow> IdleSystem \<Rightarrow> bool" where
  "idle_inv late S \<longleftrightarrow> timestamp (client S) \<le> now S \<and> established_at S \<le> now S \<and> (gone S \<longrightarrow> \<not> connected (client S)) \<and>
     (\<forall>d. due S = Some d \<longrightarrow> microSecond (established_at S) + seconds 10 \<le> microSecond d) \<and>
     (connected (client S) \<longrightarrow> (\<exists>d. due S = Some d \<and> microSecond d \<le> microSecond (last_sign S) + seconds 20 \<and>
        microSecond (now S) \<le> microSecond d + late))"

lemma idle_invD:
  assumes "idle_inv late S"
  shows "timestamp (client S) \<le> now S" "established_at S \<le> now S" "gone S \<Longrightarrow> \<not> connected (client S)"
    "due S = Some d \<Longrightarrow> microSecond (established_at S) + seconds 10 \<le> microSecond d"
  using assms by (simp_all add: idle_inv_def)

lemma micro_max: "microSecond (max a b) = max (microSecond a) (microSecond b)"
  by (auto simp: max_def TimeStamp_order)

text \<open>A step that changes only the connection and takes no message away.\<close>

lemma idle_inv_client:
  assumes "idle_inv late S" and "connected c \<Longrightarrow> connected (client S)"
    and "timestamp c = timestamp (client S) \<or> timestamp c = now S" and "gone S \<Longrightarrow> c = client S"
  shows "idle_inv late (S\<lparr>client := c\<rparr>)"
proof -
  have "microSecond (last_sign S) \<le> microSecond (last_sign (S\<lparr>client := c\<rparr>))"
    using assms(3) idle_invD(1) [OF assms(1)] by (auto simp: last_sign_def micro_max TimeStamp_order)
  then show ?thesis using assms by (fastforce simp: idle_inv_def)
qed

lemma run_check_closes:
  "\<not> gone S \<Longrightarrow> run_check S =
    (if microSecond (timestamp (client S)) + seconds 10 < microSecond (now S)
     then S\<lparr>client := shutdown False (client S), due := None\<rparr> else S\<lparr>due := Some (AddTime (now S) 10)\<rparr>)"
  by (simp add: run_check_def HandleIdleConnection_def kIdleConnectionTimeOut_def arm_def seconds_def TimeStamp_order
      AddTime_micro)

lemma run_check_gone: "gone S \<Longrightarrow> run_check S = S\<lparr>due := None\<rparr>"
  by (simp add: run_check_def HandleIdleConnection_def arm_def)

lemma idle_inv_check:
  assumes inv: "idle_inv late S" and "due S = Some d" and "d \<le> now S" and "0 \<le> late"
  shows "idle_inv late (run_check S)"
proof (cases "gone S")
  case True
  then show ?thesis using inv by (simp add: run_check_gone idle_inv_def)
next
  case alive: False
  note bounds = idle_invD(1,2,4) [OF inv] idle_invD(4) [OF inv assms(2)]
  show ?thesis
  proof (cases "microSecond (timestamp (client S)) + seconds 10 < microSecond (now S)")
    case True
    then have "run_check S = S\<lparr>client := shutdown False (client S), due := None\<rparr>"
      using alive by (simp add: run_check_closes)
    then show ?thesis using bounds(1,2) alive shutdown_disconnects [of False "client S"] by (simp add: idle_inv_def)
  next
    case False
    then have r: "run_check S = S\<lparr>due := Some (AddTime (now S) 10)\<rparr>" using alive by (simp add: run_check_closes)
    show ?thesis
      using bounds(1,2) False assms(4) alive unfolding r
      by (auto simp: idle_inv_def last_sign_def micro_max AddTime_micro seconds_def TimeStamp_order)
  qed
qed

lemma idle_step_inv [inv_rules]:
  assumes "idle_step cb late S T" and inv: "idle_inv late S" and "0 \<le> late"
  shows "idle_inv late T"
  using assms(1)
proof cases
  case (tick t)
  then show ?thesis using inv by (auto simp: idle_inv_def last_sign_def TimeStamp_order)
next
  case (establish c)
  have c: "connected c" "timestamp c = timestamp (client S)" "ConnectionCallback True c = Some 10"
    using establish(4) by (auto simp: connectEstablished_def call_def connected_def ConnectionCallback_def
        kIdleConnectionTimeOut_def)
  then show ?thesis using inv establish assms(3)
    by (simp add: idle_inv_def arm_def last_sign_def micro_max AddTime_micro seconds_def TimeStamp_order)
next
  case (arrival a c)
  from http_read_frame [OF arrival(5)] arrival(4) show ?thesis
    unfolding arrival(1) using arrival(3) by (intro idle_inv_client [OF inv]) auto
next
  case (writable w)
  then show ?thesis using idle_inv_client [OF inv, of "handleWrite w (client S)"] by (simp add: connected_def)
next
  case functors
  then show ?thesis using idle_inv_client [OF inv, of "run_queued (client S)"] by (simp add: connected_def)
next
  case (hangup c)
  then show ?thesis using idle_inv_client [OF inv, of c] handleClose_frame [OF hangup(4)] by auto
next
  case (destroy c)
  have "idle_inv late (S\<lparr>client := c\<rparr>)" "\<not> connected c"
    using destroy idle_inv_client [OF inv, of c] connectDestoryed_frame [OF destroy(4)] by auto
  then show ?thesis unfolding destroy(1) by (simp add: idle_inv_def last_sign_def)
next
  case (check d)
  then show ?thesis using idle_inv_check [OF inv] assms(3) by simp
qed

lemma idle_reachable_inv:
  assumes "idle_reachable cb late S" and "0 \<le> late"
  shows "idle_inv late S"
  using assms(1)
proof induction
  case (start c t)
  then show ?case by (simp add: idle_inv_def idle_start_def connected_def)
next
  case (step S T)
  then show ?case using idle_step_inv assms(2) by blast
qed

text \<open>
  C23: Idle connections are closed, and only those. As long as the timer runs at most \<open>late\<close>
  microseconds late, a connection is never connected longer than twenty seconds and \<open>late\<close> after its last
  message (or its establishment); and a check that shuts a connection down finds its last message more
  than ten seconds ago and its establishment at least ten. A check that finds the connection destroyed is the last one.
\<close>

theorem idle_connections_are_closed:
  assumes "idle_reachable cb late S" and "0 \<le> late"
  shows "(connected (client S) \<longrightarrow> microSecond (now S) \<le> microSecond (last_sign S) + seconds 20 + late) \<and>
    (\<forall>d. due S = Some d \<and> d \<le> now S \<and> connected (client S) \<and> \<not> connected (client (run_check S)) \<longrightarrow>
       microSecond (timestamp (client S)) + seconds 10 < microSecond (now S) \<and>
       microSecond (established_at S) + seconds 10 \<le> microSecond (now S)) \<and>
    (gone S \<longrightarrow> due (run_check S) = None)"
proof (intro conjI allI impI)
  note inv = idle_reachable_inv [OF assms]
  show "microSecond (now S) \<le> microSecond (last_sign S) + seconds 20 + late" if "connected (client S)"
    using inv that by (auto simp: idle_inv_def)
  show "due (run_check S) = None" if "gone S" using that by (simp add: run_check_gone)
  fix d
  assume d: "due S = Some d \<and> d \<le> now S \<and> connected (client S) \<and> \<not> connected (client (run_check S))"
  then have "\<not> gone S" using idle_invD(3) [OF inv] by blast
  then show "microSecond (timestamp (client S)) + seconds 10 < microSecond (now S)"
    using d by (simp add: run_check_closes split: if_splits)
  show "microSecond (established_at S) + seconds 10 \<le> microSecond (now S)"
    using d idle_invD(4) [OF inv, of d] by (simp add: TimeStamp_order)
qed

definition demo_idle :: IdleSystem where
  "demo_idle = \<lparr>now = TimeStamp 10000003, client = conn demo_open, gone = False, due = Some (TimeStamp 10000000),
     established_at = TimeStamp 0\<rparr>"

lemma demo_idle_reachable: "idle_reachable cb 5 demo_idle"
proof -
  let ?S0 = "idle_start (conn demo_new) (TimeStamp 0)"
  have "conn_state (conn demo_new) = kConnecting" "timestamp (conn demo_new) \<le> TimeStamp 0"
    by (simp_all add: demo_new_def new_TcpConnection_def TimeStamp_order)
  then have S0: "idle_reachable cb 5 ?S0" by (rule idle_reachable.start)
  have est: "connectEstablished quiet (conn demo_new) = Inr (conn demo_open)"
    by (simp add: demo_open_def connectEstablished_def call_def)
  have cb: "ConnectionCallback True (conn demo_open) = Some 10"
    using demo_open_fields by (simp add: ConnectionCallback_def kIdleConnectionTimeOut_def connected_def)
  have "idle_step cb 5 ?S0 (?S0\<lparr>client := conn demo_open, due := arm (now ?S0) (ConnectionCallback True (conn demo_open)),
      established_at := now ?S0\<rparr>)"
    using est by (intro idle_step.establish) (simp_all add: idle_start_def demo_new_def new_TcpConnection_def)
  from idle_reachable.step [OF S0 this] have S1: "idle_reachable cb 5 \<lparr>now = TimeStamp 0, client = conn demo_open,
      gone = False, due = Some (TimeStamp 10000000), established_at = TimeStamp 0\<rparr>"
    using cb by (simp add: idle_start_def arm_def AddTime_def kMicroSecond2Second_def)
  have "idle_step cb 5 \<lparr>now = TimeStamp 0, client = conn demo_open, gone = False, due = Some (TimeStamp 10000000),
      established_at = TimeStamp 0\<rparr> demo_idle"
    using idle_step.tick [of "\<lparr>now = TimeStamp 0, client = conn demo_open, gone = False, due = Some (TimeStamp 10000000),
      established_at = TimeStamp 0\<rparr>" "TimeStamp 10000003" 5 cb]
    by (simp add: demo_idle_def TimeStamp_order)
  from idle_reachable.step [OF S1 this] show ?thesis .
qed

lemma idle_connections_are_closed_witness:
  "connected (client demo_idle) \<and> microSecond (now demo_idle) \<le> microSecond (last_sign demo_idle) + seconds 20 + 5 \<and>
   \<not> connected (client (run_check demo_idle)) \<and>
   microSecond (timestamp (client demo_idle)) + seconds 10 < microSecond (now demo_idle)"
proof -
  have c: "connected (client demo_idle)" using demo_open_fields by (simp add: demo_idle_def connected_def)
  have "timestamp (conn demo_open) = TimeStamp 0" by (simp add: demo_open_def demo_new_def new_TcpConnection_def)
  then have idle: "\<not> connected (client (run_check demo_idle))"
    by (simp add: run_check_closes demo_idle_def seconds_def shutdown_disconnects)
  have d: "due demo_idle = Some (TimeStamp 10000000)" "TimeStamp 10000000 \<le> now demo_idle"
    by (simp_all add: demo_idle_def TimeStamp_order)
  show ?thesis
    using idle_connections_are_closed [OF demo_idle_reachable] c idle d by auto
qed

text \<open>
  The check only ends the sending side. A connection that is closing is read but never parsed, so what its
  client still sends piles up; and no further check is armed.
\<close>

lemma closing_connection_keeps_reading:
  assumes "stream_inv c acc" and "IsShutdown c" and "arrives a"
  shows "\<exists>c'. http_read cb auto_close a c = Some (Inr c') \<and> IsShutdown c' \<and> stream_inv c' acc \<and>
    content (inputBuffer c') = content (inputBuffer c) @ arr_data a"
proof -
  let ?readv = "\<lambda>_::nat. (int (length (arr_data a)), arr_data a)"
  have inb: "buf_inv (inputBuffer c)" using assms(1) by (simp add: stream_inv_def)
  have "length (arr_data a) < 2 ^ 64" "length (arr_data a) \<le> readFd_capacity (inputBuffer c)"
    using assms(3) by (auto simp: arrives_def readFd_capacity_def extrabuf_size_def)
  then obtain b where b: "readFd ?readv (inputBuffer c) = Inr b" "buf_inv b"
    "content b = content (inputBuffer c) @ arr_data a"
    using readFd_success [OF inb, of ?readv "arr_data a"] by auto
  show ?thesis using assms b
    by (simp add: http_read_def conn_handleRead_def call_def arrives_def MessageCallback_def Let_def IsShutdown_def
        updateTimeStamp_def stream_inv_def)
qed

lemma closed_by_check_is_not_checked_again:
  assumes "\<not> gone S" and "connected (client S)" and "\<not> connected (client (run_check S))"
  shows "due (run_check S) = None \<and> IsShutdown (client (run_check S))"
  using assms by (simp add: run_check_closes IsShutdown_def shutdown_def connected_def shutdownInloop_def split: if_splits)

end
