(* ===== verification/Net_Handler.thy ===== *)
theory Net_Handler
  imports Net_TcpConnection
begin

text \<open>
  What a server's message callback promises its connection, and what follows for a whole session: the connection
  (\<^verbatim>\<open>Net/TcpConnection.cc\<close>) with a callback that parses, answers or throws, among reads, writes,
  functors, closings and destruction. The callbacks of the HTTP server and of the test servers are interpretations.
\<close>

subsection \<open>Sessions\<close>

text \<open>
  \<open>answered\<close> are the replies whose write did not fail, in order; \<open>thrown_by\<close> is the fault of a callback that did not
  return normally, \<open>hung\<close> that one did not return, \<open>read_broken\<close> the fault of a read whose \<open>readv\<close> failed; each ends
  the thread, so nothing happens afterwards.
\<close>

record Session =
  peer :: TcpConnection
  answered :: bytes
  thrown_by :: "fault option"
  hung :: bool
  over :: bool
  read_broken :: "fault option"

definition running :: "Session \<Rightarrow> bool" where
  "running S \<longleftrightarrow> thrown_by S = None \<and> \<not> hung S \<and> \<not> over S \<and> read_broken S = None"

definition active :: "TcpConnection \<Rightarrow> bool" where
  "active c \<longleftrightarrow> conn_state c = kConnected \<or> conn_state c = kDisConnecting"

text \<open>
  A read event whose data arrives: what \<open>readv\<close> documents, as in \<open>conn_step\<close>, within the sizes that an \<open>int\<close> can hold.
  The write that the callback makes returns \<open>w\<close>.
\<close>

definition read_event :: "(nat \<Rightarrow> int \<times> bytes) \<Rightarrow> bytes \<Rightarrow> int \<Rightarrow> TcpConnection \<Rightarrow> TcpConnection \<Rightarrow> bool" where
  "read_event readv data n c c1 \<longleftrightarrow> readv (readFd_capacity (inputBuffer c)) = (int (length data), data) \<and>
     length data \<le> readFd_capacity (inputBuffer c) \<and> length data < 2 ^ 64 \<and>
     conn_handleRead readv n quiet quiet quiet c = Inr c1 \<and> length (buffer (inputBuffer c1)) < 2 ^ 30"

inductive session_step ::
  "(TimeStamp \<Rightarrow> int \<Rightarrow> TcpConnection \<Rightarrow> (fault + TcpConnection) option) \<Rightarrow> (TcpConnection \<Rightarrow> bytes) \<Rightarrow>
   Session \<Rightarrow> Session \<Rightarrow> bool" for handle reply where
  message: "running S \<Longrightarrow> active (peer S) \<Longrightarrow> read_event readv data n (peer S) c1 \<Longrightarrow> 0 < n \<Longrightarrow>
    write_ok w (length (reply c1)) c1 \<Longrightarrow> handle t w c1 = Some (Inr c2) \<Longrightarrow>
    session_step handle reply S (S\<lparr>peer := c2, answered := answered S @ kept w c1 (reply c1)\<rparr>)"
| throws: "running S \<Longrightarrow> active (peer S) \<Longrightarrow> read_event readv data n (peer S) c1 \<Longrightarrow> 0 < n \<Longrightarrow>
    write_ok w (length (reply c1)) c1 \<Longrightarrow> handle t w c1 = Some (Inl f) \<Longrightarrow>
    session_step handle reply S (S\<lparr>thrown_by := Some f\<rparr>)"
| hangs: "running S \<Longrightarrow> active (peer S) \<Longrightarrow> read_event readv data n (peer S) c1 \<Longrightarrow> 0 < n \<Longrightarrow>
    write_ok w (length (reply c1)) c1 \<Longrightarrow> handle t w c1 = None \<Longrightarrow> session_step handle reply S (S\<lparr>hung := True\<rparr>)"
| no_message: "running S \<Longrightarrow> active (peer S) \<Longrightarrow> read_event readv data n (peer S) c1 \<Longrightarrow> n \<le> 0 \<Longrightarrow>
    session_step handle reply S (S\<lparr>peer := c1\<rparr>)"
| read_fails: "running S \<Longrightarrow> active (peer S) \<Longrightarrow> readv (readFd_capacity (inputBuffer (peer S))) = (- 1, data) \<Longrightarrow>
    conn_handleRead readv n quiet quiet quiet (peer S) = Inl f \<Longrightarrow> session_step handle reply S (S\<lparr>read_broken := Some f\<rparr>)"
| writable: "running S \<Longrightarrow> active (peer S) \<Longrightarrow> write_ok w (readableBytes (outputBuffer (peer S))) (peer S) \<Longrightarrow>
    session_step handle reply S (S\<lparr>peer := handleWrite w (peer S)\<rparr>)"
| shut: "running S \<Longrightarrow> active (peer S) \<Longrightarrow> session_step handle reply S (S\<lparr>peer := shutdown inloop (peer S)\<rparr>)"
| hangup: "running S \<Longrightarrow> active (peer S) \<Longrightarrow> handleClose quiet quiet (peer S) = Inr c \<Longrightarrow>
    session_step handle reply S (S\<lparr>peer := c\<rparr>)"
| functors: "running S \<Longrightarrow> session_step handle reply S (S\<lparr>peer := run_queued (peer S)\<rparr>)"
| destroy: "running S \<Longrightarrow> connectDestoryed quiet (peer S) = Inr c \<Longrightarrow>
    session_step handle reply S (S\<lparr>peer := c, over := True\<rparr>)"

text \<open>A session begins when the connection is established.\<close>

inductive session_reachable ::
  "(TimeStamp \<Rightarrow> int \<Rightarrow> TcpConnection \<Rightarrow> (fault + TcpConnection) option) \<Rightarrow> (TcpConnection \<Rightarrow> bytes) \<Rightarrow>
   Session \<Rightarrow> bool" for handle reply where
  start: "interest ep = Some K \<Longrightarrow> K f = None \<Longrightarrow>
    connectEstablished quiet (new_TcpConnection p ep new_EventLoop t nm f) = Inr c \<Longrightarrow>
    session_reachable handle reply \<lparr>peer = c, answered = [], thrown_by = None, hung = False, over = False, read_broken = None\<rparr>"
| step: "session_reachable handle reply S \<Longrightarrow> session_step handle reply S T \<Longrightarrow> session_reachable handle reply T"

text \<open>Events that leave the parser alone.\<close>

lemma parser_frame:
  "http_content (handleWrite w c) = http_content c" "http_content (shutdown t c) = http_content c"
  by (simp_all add: handleWrite_def shutdown_def shutdownInloop_def kernel_write_def Let_def)

lemma parser_frame_functors: "http_content (fold run_conn_functor fs c) = http_content c"
proof (induction fs arbitrary: c)
  case (Cons f fs)
  then show ?case by (cases f) (simp add: shutdownInloop_def)
qed simp

lemma parser_frame_queued: "http_content (run_queued c) = http_content c"
  by (simp add: run_queued_def Let_def parser_frame_functors split: prod.split)

lemma parser_frame_ends:
  "handleClose quiet quiet c = Inr c' \<Longrightarrow> http_content c' = http_content c"
  "connectDestoryed quiet c = Inr c' \<Longrightarrow> http_content c' = http_content c"
  by (auto simp: handleClose_quiet connectDestoryed_def call_def split: if_splits)

lemma destroyed_stream:
  assumes "connectDestoryed quiet c = Inr c'" and "stream_inv c acc" and "conn_state c \<noteq> kConnecting"
  shows "stream_inv c' acc" "conn_state c' \<noteq> kConnecting"
  using assms by (auto simp: connectDestoryed_def call_def split: if_splits)

text \<open>What a session has answered is a sequence of whole replies.\<close>

lemma session_replies:
  "session_reachable handle reply S \<Longrightarrow> \<exists>cs. answered S = concat (map reply cs)"
proof (induction rule: session_reachable.induct)
  case (start ep K f p t nm c)
  show ?case by (rule exI [of _ "[]"]) simp
next
  case (step S T)
  then obtain cs where cs: "answered S = concat (map reply cs)" by blast
  have more: "\<exists>ds. concat (map reply cs) @ kept w c (reply c) = concat (map reply ds)" for w c
  proof (cases "direct_write c \<and> w < 0")
    case True
    then show ?thesis by (intro exI [of _ cs]) (simp add: kept_def)
  next
    case False
    then show ?thesis by (intro exI [of _ "cs @ [c]"]) (auto simp: kept_def)
  qed
  from step.hyps(2) show ?case
  proof cases
    case (message readv data n c1 w t c2)
    then show ?thesis using cs more by simp
  qed (use cs in auto)
qed

subsection \<open>The contract\<close>

text \<open>
  \<open>good\<close> is what the callback itself keeps of the parser state in the connection, \<open>thrown\<close> the faults it may end in.
\<close>

locale message_handler =
  fixes handle :: "TimeStamp \<Rightarrow> int \<Rightarrow> TcpConnection \<Rightarrow> (fault + TcpConnection) option"
    and reply :: "TcpConnection \<Rightarrow> bytes"
    and good :: "HttpContent \<Rightarrow> bool"
    and thrown :: "fault set"
  assumes good_new: "good new_HttpContent"
    and handle_ok: "stream_inv c acc \<Longrightarrow> open_inv c \<Longrightarrow> active c \<Longrightarrow> good (http_content c) \<Longrightarrow>
      length (buffer (inputBuffer c)) < 2 ^ 30 \<Longrightarrow> write_ok w (length (reply c)) c \<Longrightarrow>
      (\<exists>f \<in> thrown. handle t w c = Some (Inl f)) \<or>
      (\<exists>c'. handle t w c = Some (Inr c') \<and> stream_inv c' (acc @ kept w c (reply c)) \<and> open_inv c' \<and> active c' \<and>
         good (http_content c'))"
begin

definition session_inv :: "Session \<Rightarrow> bool" where
  "session_inv S \<longleftrightarrow> stream_inv (peer S) (answered S) \<and> good (http_content (peer S)) \<and>
     (\<not> over S \<and> active (peer S) \<longrightarrow> open_inv (peer S)) \<and> conn_state (peer S) \<noteq> kConnecting \<and> \<not> hung S \<and>
     (\<forall>f. thrown_by S = Some f \<longrightarrow> f \<in> thrown)"

lemma session_invD:
  assumes "session_inv S"
  shows "stream_inv (peer S) (answered S)" "good (http_content (peer S))" "conn_state (peer S) \<noteq> kConnecting"
    "\<not> hung S" "running S \<Longrightarrow> active (peer S) \<Longrightarrow> open_inv (peer S)"
  using assms by (simp_all add: session_inv_def running_def)

lemma session_inv_peer:
  assumes "session_inv S" and "running S" and "stream_inv c (answered S)" and "good (http_content c)"
    and "active c \<Longrightarrow> open_inv c" and "conn_state c \<noteq> kConnecting"
  shows "session_inv (S\<lparr>peer := c\<rparr>)"
  using assms by (simp add: session_inv_def running_def)

text \<open>What a read event gives the callback.\<close>

lemma read_event_ok:
  assumes "session_inv S" and "running S" and "active (peer S)" and "read_event readv data n (peer S) c1"
  shows "stream_inv c1 (answered S)" "http_content c1 = http_content (peer S)"
    "n \<noteq> 0 \<Longrightarrow> open_inv c1 \<and> active c1" "n = 0 \<Longrightarrow> conn_state c1 = kdisConnected"
proof -
  note inv = session_invD [OF assms(1)]
  have open0: "open_inv (peer S)" by (rule inv(5) [OF assms(2,3)])
  have rv: "readv (readFd_capacity (inputBuffer (peer S))) = (int (length data), data)"
    "length data \<le> readFd_capacity (inputBuffer (peer S))" "length data < 2 ^ 64"
    "conn_handleRead readv n quiet quiet quiet (peer S) = Inr c1"
    using assms(4) by (simp_all add: read_event_def)
  from conn_handleRead_ok [where readv = readv and n = n, OF inv(1) open0 rv(1-3)] rv(4)
  show "stream_inv c1 (answered S)" "n \<noteq> 0 \<Longrightarrow> open_inv c1 \<and> active c1" "n = 0 \<Longrightarrow> conn_state c1 = kdisConnected"
    using assms(3) by (auto simp: active_def)
  show "http_content c1 = http_content (peer S)"
    using rv(4) by (auto simp: conn_handleRead_def Let_def call_def handleError_def handleClose_quiet
        split: sum.splits if_splits)
qed

lemma session_step_inv:
  assumes "session_step handle reply S T" and inv: "session_inv S"
  shows "session_inv T"
proof -
  note I = session_invD [OF inv]
  have op: "open_inv (peer S)" if "running S" "active (peer S)" using I(5) [OF that] .
  have handled: "(\<exists>f \<in> thrown. handle t w c1 = Some (Inl f)) \<or>
      (\<exists>c'. handle t w c1 = Some (Inr c') \<and> stream_inv c' (answered S @ kept w c1 (reply c1)) \<and> open_inv c' \<and> active c' \<and>
         good (http_content c'))"
    if "running S" "active (peer S)" "read_event readv data n (peer S) c1" "0 < n" "write_ok w (length (reply c1)) c1"
    for readv data n c1 w t
    using handle_ok [of c1 "answered S" w t] read_event_ok [OF inv that(1-3)] that I(2)
    by (simp add: read_event_def)
  from assms(1) show ?thesis
  proof cases
    case (message readv data n c1 w t c2)
    from handled [OF message(2-6), of t] message(7) have "stream_inv c2 (answered S @ kept w c1 (reply c1))"
      "open_inv c2" "active c2" "good (http_content c2)" by auto
    then show ?thesis using message(2) unfolding message(1) by (auto simp: session_inv_def running_def active_def)
  next
    case (throws readv data n c1 w t f)
    then show ?thesis using handled [OF throws(2-6), of t] inv by (auto simp: session_inv_def)
  next
    case (hangs readv data n c1 w t)
    then show ?thesis using handled [OF hangs(2-6), of t] by auto
  next
    case (no_message readv data n c1)
    note r = read_event_ok [OF inv no_message(2-4)]
    have "active c1 \<Longrightarrow> open_inv c1" "conn_state c1 \<noteq> kConnecting"
      using r(3,4) by (cases "n = 0"; auto simp: active_def)+
    then show ?thesis using r(1,2) I(2) unfolding no_message(1) by (intro session_inv_peer [OF inv no_message(2)]) simp_all
  next
    case (read_fails readv data n f)
    then show ?thesis using inv by (simp add: session_inv_def running_def)
  next
    case (writable w)
    have "conn_state (peer S) \<noteq> kConnecting" using I(3) .
    then show ?thesis
      using handleWrite_ok [OF I(1) op [OF writable(2,3)] writable(4)] I(2) unfolding writable(1)
      by (intro session_inv_peer [OF inv writable(2)]) (auto simp: parser_frame)
  next
    case (shut inloop)
    have "conn_state (peer S) = kConnected \<or> conn_state (peer S) = kDisConnecting" using shut(3) by (simp add: active_def)
    from shutdown_ok [OF I(1) op [OF shut(2,3)] this, of inloop] show ?thesis
      using I(2) unfolding shut(1) by (intro session_inv_peer [OF inv shut(2)]) (auto simp: parser_frame)
  next
    case (hangup c)
    have "stream_inv c (answered S)" "conn_state c = kdisConnected"
      using hangup(4) I(1) by (auto simp: handleClose_quiet)
    then show ?thesis using I(2) parser_frame_ends(1) [OF hangup(4)] unfolding hangup(1)
      by (intro session_inv_peer [OF inv hangup(2)]) (auto simp: active_def)
  next
    case functors
    then show ?thesis using run_queued_ok [OF I(1)] I(2,3) op unfolding functors(1)
      by (intro session_inv_peer [OF inv functors(2)]) (auto simp: parser_frame_queued active_def)
  next
    case (destroy c)
    then show ?thesis
      using destroyed_stream [OF destroy(3) I(1,3)] parser_frame_ends(2) [OF destroy(3)] I(2,4)
      by (simp add: session_inv_def running_def)
  qed
qed

theorem session_safe:
  assumes "session_reachable handle reply S"
  shows "session_inv S"
  using assms
proof induction
  case (start ep K f p t nm c)
  let ?c = "new_TcpConnection p ep new_EventLoop t nm f"
  have new: "conn_inv \<lparr>conn = ?c, accepted = [], destroyed = False\<rparr>"
    by (rule reachable_conn_inv [OF conn_reachable.start [OF start(1,2)]])
  have state: "conn_state ?c = kConnecting" by (simp add: new_TcpConnection_def)
  then have "stream_inv ?c []" "fresh_inv ?c" using new by (simp_all add: conn_inv_def)
  then obtain c' where "connectEstablished quiet ?c = Inr c'" "stream_inv c' []" "open_inv c'" "conn_state c' = kConnected"
    using establish_ok by blast
  moreover have "http_content c = new_HttpContent"
    using start(3) by (auto simp: connectEstablished_def call_def new_TcpConnection_def)
  ultimately show ?case using start(3) good_new by (simp add: session_inv_def active_def)
next
  case (step S T)
  then show ?case using session_step_inv by blast
qed

text \<open>A session never hangs, ends only in the faults of the contract, and its output is its replies.\<close>

lemma session_output:
  assumes "session_reachable handle reply S"
  shows "wire (socket (peer S)) @ content (outputBuffer (peer S)) = answered S" "\<not> hung S"
    "thrown_by S = Some f \<Longrightarrow> f \<in> thrown" "running S \<Longrightarrow> active (peer S) \<Longrightarrow> open_inv (peer S)"
  using session_safe [OF assms] by (simp_all add: session_inv_def stream_inv_def running_def)

text \<open>The callback is always defined when it is due.\<close>

lemma session_progress:
  assumes "session_reachable handle reply S" and "running S" and "active (peer S)"
    and "read_event readv data n (peer S) c1" and "0 < n" and "write_ok w (length (reply c1)) c1" and "thrown = {}"
  shows "\<exists>c2. handle t w c1 = Some (Inr c2) \<and>
    session_step handle reply S (S\<lparr>peer := c2, answered := answered S @ kept w c1 (reply c1)\<rparr>)"
proof -
  note inv = session_safe [OF assms(1)]
  obtain c2 where "handle t w c1 = Some (Inr c2)"
    using handle_ok [of c1 "answered S" w t] read_event_ok [OF inv assms(2-4)] assms session_invD(2) [OF inv]
    by (auto simp: read_event_def)
  then show ?thesis using session_step.message [where handle = handle and reply = reply, OF assms(2-6)] by blast
qed

end

end
