(* ===== verification/Http_Robust.thy ===== *)
theory Http_Robust
  imports Http_Session Net_Handler
begin

text \<open>
  The HTTP server of the main program as a message handler: whatever bytes a client sends, in whatever pieces,
  and however the kernel takes the answers. \<open>http_reply\<close> is what the message callback answers to the state of the
  connection; the contract \<open>message_handler\<close> then gives the session.
\<close>

subsection \<open>The reply\<close>

definition reply_text :: "HttpRequest \<Rightarrow> bytes" where
  "reply_text req =
     (case and_then (close_wanted req) (\<lambda>cl. and_then (HttpResponseCallBack req (new_HttpResponse cl)) response_message) of
        Inl f \<Rightarrow> [] | Inr m \<Rightarrow> m)"

definition http_reply :: "TcpConnection \<Rightarrow> bytes" where
  "http_reply c =
     (if IsShutdown c then []
      else (case ParseContent (http_content c) (inputBuffer c) of
              Some (Inr (ok, hc, b)) \<Rightarrow>
                if \<not> ok then bad_request else if GetCompleteRequest hc then reply_text (request hc) else []
            | _ \<Rightarrow> []))"

definition http_handle :: "bool \<Rightarrow> TimeStamp \<Rightarrow> int \<Rightarrow> TcpConnection \<Rightarrow> (fault + TcpConnection) option" where
  "http_handle auto_close t w c = MessageCallback HttpResponseCallBack auto_close t w w c"

lemma main_reply:
  assumes "request_set kParseGotCompleteRequest req"
  shows "\<exists>cl r msg. close_wanted req = Inr cl \<and> HttpResponseCallBack req (new_HttpResponse cl) = Inr r \<and>
    response_message r = Inr msg \<and> length msg < 2 ^ 31 \<and> reply_text req = msg"
proof -
  obtain m v where mv: "http_method req = Some m" "http_version req = Some v"
    using assms by (auto simp: request_set_def)
  have "\<exists>cl. close_wanted req = Inr cl" using mv(2) by (auto simp: close_wanted_def Let_def)
  then obtain cl where cl: "close_wanted req = Inr cl" by blast
  have "\<exists>r msg. HttpResponseCallBack req (new_HttpResponse cl) = Inr r \<and> response_message r = Inr msg \<and> length msg < 2 ^ 31"
  proof (cases "m = kGet")
    case True
    then show ?thesis using main_get_reply [of req cl] mv(1) by blast
  next
    case False
    let ?r = "setCloseConnection True (setStatusMessage ''Bad Request'' (setStatusCode k400BadRequest (new_HttpResponse cl)))"
    have "\<exists>msg. response_message ?r = Inr msg \<and> length msg < 2 ^ 31"
      by (intro response_message_bounded)
        (simp_all add: setCloseConnection_def setStatusMessage_def setStatusCode_def new_HttpResponse_def)
    moreover have "HttpResponseCallBack req (new_HttpResponse cl) = Inr ?r"
      using False mv(1) by (simp add: HttpResponseCallBack_def)
    ultimately show ?thesis by blast
  qed
  then show ?thesis using cl by (auto simp: reply_text_def)
qed

text \<open>Sending when the write may fail.\<close>

lemma send_kept:
  assumes "stream_inv c acc" and "open_inv c" and "length m < 2 ^ 31" and "write_ok w (length m) c"
  shows "\<exists>c'. send w m c = Inr c' \<and> stream_inv c' (acc @ kept w c m) \<and> open_inv c' \<and> conn_state c' = conn_state c \<and>
    http_content c' = http_content c"
  using send_ok [OF assms] send_frame(2) by (fastforce simp: kept_def)

lemma refuse_kept:
  assumes "stream_inv c acc" and "open_inv c" and "connected c" and "write_ok w (length bad_request) c"
  shows "\<exists>c'. refuse w c = Inr c' \<and> stream_inv c' (acc @ kept w c bad_request) \<and> open_inv c' \<and>
    conn_state c' = kDisConnecting \<and> http_content c' = http_content c"
proof -
  have "length bad_request < 2 ^ 31" by (simp add: bad_request_def CRLF_def)
  then obtain c1 where c1: "send w bad_request c = Inr c1" "stream_inv c1 (acc @ kept w c bad_request)" "open_inv c1"
    "conn_state c1 = conn_state c" "http_content c1 = http_content c"
    using send_kept [OF assms(1,2) _ assms(4)] by blast
  then show ?thesis using shutdown_ok [OF c1(2,3), of True] assms(3) by (simp add: refuse_def connected_def)
qed

lemma dealWithRequest_kept:
  assumes "stream_inv c acc" and "open_inv c" and "connected c" and "request_set kParseGotCompleteRequest req"
    and "write_ok w (length (reply_text req)) c"
  shows "\<exists>c'. dealWithRequest HttpResponseCallBack w req c = Inr c' \<and> stream_inv c' (acc @ kept w c (reply_text req)) \<and>
    open_inv c' \<and> active c' \<and> http_content c' = http_content c"
proof -
  obtain cl r msg where r: "close_wanted req = Inr cl" "HttpResponseCallBack req (new_HttpResponse cl) = Inr r"
    "response_message r = Inr msg" "length msg < 2 ^ 31" "reply_text req = msg"
    using main_reply [OF assms(4)] by blast
  let ?b = "append_data msg (new_Buffer kInitialSize)"
  have "buf_inv ?b" "content ?b = msg" using content_append [OF buf_inv_new] by (simp_all add: inv_rules)
  then have off: "seg (buffer ?b) (peek ?b) (peek ?b + readableBytes ?b) = msg"
    by (simp add: content_def peek_def readableBytes_def buf_inv_def)
  obtain c1 where c1: "send w msg c = Inr c1" "stream_inv c1 (acc @ kept w c msg)" "open_inv c1"
    "conn_state c1 = kConnected" "http_content c1 = http_content c"
    using send_kept [OF assms(1,2) r(4)] assms(3,5) r(5) by (auto simp: connected_def)
  have "dealWithRequest HttpResponseCallBack w req c = Inr (if close_connection r then shutdown True c1 else c1)"
    using assms(3) r off c1(1) by (simp add: dealWithRequest_def AppendToBuffer_def send_buffer_def connected_def)
  then show ?thesis using shutdown_ok [OF c1(2,3), of True] c1 r(5) by (simp add: active_def)
qed

text \<open>Only channel and output buffer decide whether a write is direct.\<close>

lemma parsed_frame:
  assumes "c2 = (if auto_close then updateTimeStamp t c else c)\<lparr>http_content := hc, inputBuffer := b\<rparr>"
    and "stream_inv c acc" and "open_inv c" and "buf_inv b"
  shows "stream_inv c2 acc" "open_inv c2" "conn_state c2 = conn_state c" "http_content c2 = hc" "kept w c2 m = kept w c m"
    "write_ok w n c2 = write_ok w n c"
  using assms by (simp_all add: stream_inv_def open_inv_input updateTimeStamp_def kept_def direct_write_def write_ok_def)

lemma http_handle_ok:
  assumes "stream_inv c acc" and "open_inv c" and "active c"
    and "request_set (parse_state (http_content c)) (request (http_content c))"
    and "length (buffer (inputBuffer c)) < 2 ^ 30" and "write_ok w (length (http_reply c)) c"
  shows "(\<exists>f \<in> {LengthError}. http_handle auto_close t w c = Some (Inl f)) \<or>
    (\<exists>c'. http_handle auto_close t w c = Some (Inr c') \<and> stream_inv c' (acc @ kept w c (http_reply c)) \<and> open_inv c' \<and>
       active c' \<and> request_set (parse_state (http_content c')) (request (http_content c')))"
proof (cases "IsShutdown c")
  case True
  let ?c1 = "if auto_close then updateTimeStamp t c else c"
  have "http_handle auto_close t w c = Some (Inr ?c1)"
    using True by (simp add: http_handle_def MessageCallback_def Let_def IsShutdown_def updateTimeStamp_def)
  moreover have "stream_inv ?c1 acc" "open_inv ?c1" "active ?c1" "http_content ?c1 = http_content c"
    using assms(1-3) by (simp_all add: updateTimeStamp_def active_def)
  moreover have "kept w c (http_reply c) = []" using True by (simp add: http_reply_def kept_def)
  ultimately show ?thesis using assms(4) by simp
next
  case False
  then have conn: "connected c" using assms(3) by (auto simp: active_def IsShutdown_def connected_def)
  have inb: "buf_inv (inputBuffer c)" using assms(1) by (simp add: stream_inv_def)
  consider (thrown) "ParseContent (http_content c) (inputBuffer c) = Some (Inl LengthError)"
    | (parsed) ok hc b where "ParseContent (http_content c) (inputBuffer c) = Some (Inr (ok, hc, b))"
      "request_set (parse_state hc) (request hc)" "ok \<or> parse_state hc = kParseRequestLine" "buf_inv b"
    using ParseContent_sets [OF inb _ assms(4)] assms(5) by fastforce
  then show ?thesis
  proof cases
    case thrown
    then show ?thesis using False
      by (simp add: http_handle_def MessageCallback_def Let_def IsShutdown_def updateTimeStamp_def)
  next
    case parsed
    define c2 where "c2 = (if auto_close then updateTimeStamp t c else c)\<lparr>http_content := hc, inputBuffer := b\<rparr>"
    note c2 = parsed_frame [OF c2_def assms(1,2) parsed(4)]
    have conn2: "connected c2" using conn c2(3) by (simp add: connected_def)
    have mc: "http_handle auto_close t w c =
        (case (if ok then Inr c2 else refuse w c2) of
           Inl f \<Rightarrow> Some (Inl f)
         | Inr c3 \<Rightarrow>
             if GetCompleteRequest (http_content c3)
             then (case dealWithRequest HttpResponseCallBack w (request (http_content c3)) c3 of
                     Inl f \<Rightarrow> Some (Inl f)
                   | Inr c4 \<Rightarrow> Some (Inr (c4\<lparr>http_content := ResetContentState (http_content c4)\<rparr>)))
             else Some (Inr c3))"
      using False parsed(1) unfolding c2_def
      by (simp add: http_handle_def MessageCallback_def Let_def IsShutdown_def updateTimeStamp_def)
    have reply: "http_reply c = (if \<not> ok then bad_request else if GetCompleteRequest hc then reply_text (request hc) else [])"
      using False parsed(1) by (simp add: http_reply_def)
    consider (refused) "\<not> ok" | (complete) "ok" "GetCompleteRequest hc" | (waiting) "ok" "\<not> GetCompleteRequest hc" by blast
    then show ?thesis
    proof cases
      case refused
      have "write_ok w (length bad_request) c2" using assms(6) reply refused c2(6) by simp
      from refuse_kept [OF c2(1,2) conn2 this] obtain c3 where c3: "refuse w c2 = Inr c3"
        "stream_inv c3 (acc @ kept w c2 bad_request)" "open_inv c3" "conn_state c3 = kDisConnecting"
        "http_content c3 = http_content c2" by blast
      have "\<not> GetCompleteRequest hc" using refused parsed(3) by (simp add: GetCompleteRequest_def)
      then have "http_handle auto_close t w c = Some (Inr c3)" using mc refused c3(1,5) c2(4) by simp
      then show ?thesis using c3 c2(4,5) reply refused parsed(2) by (simp add: active_def)
    next
      case complete
      have set: "request_set kParseGotCompleteRequest (request hc)"
        using complete parsed(2) by (simp add: GetCompleteRequest_def)
      have "write_ok w (length (reply_text (request hc))) c2" using assms(6) reply complete c2(6) by simp
      from dealWithRequest_kept [OF c2(1,2) conn2 set this] obtain c4 where
        c4: "dealWithRequest HttpResponseCallBack w (request hc) c2 = Inr c4"
        "stream_inv c4 (acc @ kept w c2 (reply_text (request hc)))" "open_inv c4" "active c4" "http_content c4 = http_content c2"
        by blast
      have "http_handle auto_close t w c = Some (Inr (c4\<lparr>http_content := ResetContentState (http_content c4)\<rparr>))"
        using mc complete c4(1) c2(4) by simp
      then show ?thesis using c4 c2(5) reply complete
        by (simp add: active_def ResetContentState_def request_set_def)
    next
      case waiting
      then have "http_handle auto_close t w c = Some (Inr c2)" using mc c2(4) by simp
      moreover have "kept w c (http_reply c) = []" using reply waiting by (simp add: kept_def)
      ultimately show ?thesis using c2(1-4) parsed(2) assms(3) by (simp add: active_def)
    qed
  qed
qed

interpretation http: message_handler "http_handle auto_close" http_reply
    "\<lambda>hc. request_set (parse_state hc) (request hc)" "{LengthError}" for auto_close
  by unfold_locales (use http_handle_ok in \<open>auto simp: request_set_def\<close>)

subsection \<open>Properties\<close>

text \<open>A reply is the refusal, or the text made of a request, or nothing.\<close>

lemma http_reply_cases: "http_reply c \<in> {[], bad_request} \<union> range reply_text"
  by (auto simp: http_reply_def split: option.splits sum.splits)

text \<open>
  C6: No client harms its connection. Whatever bytes arrive in whatever pieces, however the kernel takes
  the answers, and whenever the connection is shut down, closed or destroyed: the message callback of the main program
  always returns; it never fails an assertion, reads out of bounds or reads an unset member, and the only exception
  it throws is that of \<open>assign\<close> on a request line (beside it, a failed read ends the program); what the client receives is a sequence of whole replies; and an
  open connection is registered for write events exactly while output waits.
\<close>

theorem http_session_is_robust:
  assumes "session_reachable (http_handle auto_close) http_reply S"
  shows "\<not> hung S \<and> thrown_by S \<in> {None, Some LengthError} \<and>
    (\<exists>rs. wire (socket (peer S)) @ content (outputBuffer (peer S)) = concat rs \<and>
       set rs \<subseteq> {[], bad_request} \<union> range reply_text) \<and>
    (running S \<and> active (peer S) \<longrightarrow> isReading (channel (peer S)) \<and>
       (isWriting (channel (peer S)) \<longleftrightarrow> content (outputBuffer (peer S)) \<noteq> []))"
proof -
  note out = http.session_output [OF assms]
  obtain cs where cs: "answered S = concat (map http_reply cs)" using session_replies [OF assms] by blast
  have "set (map http_reply cs) \<subseteq> {[], bad_request} \<union> range reply_text" using http_reply_cases by auto
  then have "\<exists>rs. wire (socket (peer S)) @ content (outputBuffer (peer S)) = concat rs \<and>
      set rs \<subseteq> {[], bad_request} \<union> range reply_text" using out(1) cs by metis
  moreover have "isReading (channel (peer S)) \<and> (isWriting (channel (peer S)) \<longleftrightarrow> content (outputBuffer (peer S)) \<noteq> [])"
    if "running S" "active (peer S)"
    using open_invD(1) [OF out(4) [OF that]] by (simp add: registered_def)
  moreover have "thrown_by S \<in> {None, Some LengthError}" using out(3) by (cases "thrown_by S") auto
  ultimately show ?thesis using out(2) by blast
qed

definition demo_session :: Session where
  "demo_session = \<lparr>peer = conn demo_open, answered = [], thrown_by = None, hung = False, over = False, read_broken = None\<rparr>"

lemma demo_session_reachable: "session_reachable handle reply demo_session"
  unfolding demo_session_def
  by (rule session_reachable.start [of new_Epoller Map.empty 7 5 "TimeStamp 0" "''c''"])
    (simp_all add: interest_def new_Epoller_def demo_open_def demo_new_def connectEstablished_def call_def)

lemma http_session_is_robust_witness:
  "\<exists>S. session_reachable (http_handle True) http_reply S \<and> S \<noteq> demo_session \<and> \<not> hung S \<and>
     thrown_by S \<in> {None, Some LengthError}"
proof -
  let ?c = "peer demo_session"
  have run: "running demo_session" "active ?c"
    using demo_open_fields by (simp_all add: running_def active_def demo_session_def)
  have inv: "stream_inv ?c []" "open_inv ?c"
    using http.session_safe [OF demo_session_reachable] run
    by (simp_all add: http.session_inv_def demo_session_def running_def)
  have "session_step (http_handle True) http_reply demo_session (demo_session\<lparr>peer := shutdown True ?c\<rparr>)"
    using run by (rule session_step.shut)
  from session_reachable.step [OF demo_session_reachable this]
  have reach: "session_reachable (http_handle True) http_reply (demo_session\<lparr>peer := shutdown True ?c\<rparr>)" .
  moreover have "demo_session\<lparr>peer := shutdown True ?c\<rparr> \<noteq> demo_session"
    using demo_open_fields shutdown_ok [OF inv, of True] by (auto simp: demo_session_def dest: arg_cong [where f = "\<lambda>S. conn_state (peer S)"])
  ultimately show ?thesis using http_session_is_robust [OF reach] by blast
qed

end
