(* ===== verification/Test_Servers.thy ===== *)
theory Test_Servers
  imports Net_Handler
begin

text \<open>
  The callbacks of the servers in \<^verbatim>\<open>Test/\<close>: the echo server of \<^verbatim>\<open>testServer.cc\<close>, the chat server of
  \<^verbatim>\<open>testChat.cc\<close> and the source of characters of \<^verbatim>\<open>testSimAll.cc\<close>. The thread id is an argument; what is printed is left
  out. String literals are their bytes in UTF-8.
\<close>

subsection \<open>Callbacks that answer the unread bytes with a text\<close>

definition text_handle :: "(bytes \<Rightarrow> bytes) \<Rightarrow> TimeStamp \<Rightarrow> int \<Rightarrow> TcpConnection \<Rightarrow> (fault + TcpConnection) option" where
  "text_handle answer t w c =
     Some (case retrieveAllAsString (inputBuffer c) of
             Inl f \<Rightarrow> Inl f
           | Inr (s, b) \<Rightarrow> send w (answer s) (c\<lparr>inputBuffer := b\<rparr>))"

locale text_handler =
  fixes answer :: "bytes \<Rightarrow> bytes"
  assumes answer_short: "length (answer bs) \<le> length bs + 1000"
begin

lemma text_handle_ok:
  assumes "stream_inv c acc" and "open_inv c" and "active c"
    and "length (buffer (inputBuffer c)) < 2 ^ 30" and "write_ok w (length (answer (content (inputBuffer c)))) c"
  shows "\<exists>c'. text_handle answer t w c = Some (Inr c') \<and>
    stream_inv c' (acc @ kept w c (answer (content (inputBuffer c)))) \<and> open_inv c' \<and> active c'"
proof -
  let ?b = "retrieveAll (inputBuffer c)"
  let ?m = "answer (content (inputBuffer c))"
  let ?c1 = "c\<lparr>inputBuffer := ?b\<rparr>"
  have inb: "buf_inv (inputBuffer c)" using assms(1) by (simp add: stream_inv_def)
  then have got: "retrieveAllAsString (inputBuffer c) = Inr (content (inputBuffer c), ?b)" by (rule retrieveAllAsString_ok)
  have "length (content (inputBuffer c)) \<le> length (buffer (inputBuffer c))"
    using inb by (auto simp: content_def buf_inv_def seg_def)
  then have small: "length ?m < 2 ^ 31" using assms(4) answer_short [of "content (inputBuffer c)"] by simp
  have c1: "stream_inv ?c1 acc" "open_inv ?c1" "write_ok w (length ?m) ?c1"
    using assms(1,2,5) inb by (simp_all add: stream_inv_def open_inv_input write_ok_def buf_inv_retrieveAll)
  obtain c' where c': "send w ?m ?c1 = Inr c'" "open_inv c'" "conn_state c' = conn_state ?c1"
    "stream_inv c' (acc @ (if direct_write ?c1 \<and> w < 0 then [] else ?m))"
    using send_ok [OF c1(1,2) small c1(3)] by blast
  have "(if direct_write ?c1 \<and> w < 0 then [] else ?m) = kept w c ?m" by (simp add: kept_def direct_write_def)
  then show ?thesis using c' got assms(3) by (simp add: text_handle_def active_def)
qed

end

sublocale text_handler \<subseteq> message_handler "text_handle answer" "\<lambda>c. answer (content (inputBuffer c))" "\<lambda>_. True" "{}"
  by unfold_locales (use text_handle_ok in auto)

subsection \<open>\<^verbatim>\<open>testServer.cc\<close>\<close>

definition server_hello :: bytes where
  "server_hello = map (char_of :: nat \<Rightarrow> char)
     [229, 187, 186, 231, 171, 139, 232, 191, 158, 230, 142, 165, 229, 150, 189, 33, 32, 229, 164, 132, 231, 144, 134,
      232, 191, 158, 230, 142, 165, 231, 154, 132, 231, 186, 191, 231, 168, 139, 105, 100, 58, 10]"

definition server_says :: bytes where
  "server_says = map (char_of :: nat \<Rightarrow> char) [232, 130, 150, 229, 134, 176, 232, 175, 180, 58]"

text \<open>The greeting is sent when the connection comes up and when it has gone down.\<close>

definition test_onConnection :: "int \<Rightarrow> int \<Rightarrow> TcpConnection \<Rightarrow> fault + TcpConnection" where
  "test_onConnection tid w c = send w (server_hello @ fmt_int tid) c"

definition test_onMessage :: "int \<Rightarrow> TcpConnection \<Rightarrow> fault + TcpConnection" where
  "test_onMessage w c =
     (case retrieveAllAsString (inputBuffer c) of
        Inl f \<Rightarrow> Inl f
      | Inr (tmp, b) \<Rightarrow> send w (server_says @ tmp) (c\<lparr>inputBuffer := b\<rparr>))"

subsection \<open>\<^verbatim>\<open>testChat.cc\<close>\<close>

definition chat_onConnection :: "TcpConnection \<Rightarrow> fault + TcpConnection" where
  "chat_onConnection c = Inr (if connected c then c else shutdown True c)"

definition chat_onMessage :: "int \<Rightarrow> int \<Rightarrow> TcpConnection \<Rightarrow> fault + TcpConnection" where
  "chat_onMessage tid w c =
     (case retrieveAllAsString (inputBuffer c) of
        Inl f \<Rightarrow> Inl f
      | Inr (buf, b) \<Rightarrow> send w (buf @ fmt_int tid) (c\<lparr>inputBuffer := b\<rparr>))"

subsection \<open>\<^verbatim>\<open>testSimAll.cc\<close>\<close>

text \<open>The loops of \<open>main\<close> that fill \<open>line\<close> and \<open>message\<close>; \<open>substr\<close> throws behind the end of the string.\<close>

definition substr :: "nat \<Rightarrow> nat \<Rightarrow> string \<Rightarrow> fault + string" where
  "substr pos n s = (if pos > length s then Inl LengthError else Inr (take n (drop pos s)))"

definition sim_line :: string where
  "sim_line = (let line = map (char_of :: nat \<Rightarrow> char) [33..<127] in line @ line)"

fun sim_rows :: "nat list \<Rightarrow> string \<Rightarrow> fault + string" where
  "sim_rows [] message = Inr message"
| "sim_rows (i # is) message =
     (case substr i 72 sim_line of Inl f \<Rightarrow> Inl f | Inr s \<Rightarrow> sim_rows is (message @ s @ [LF]))"

definition sim_message :: "fault + string" where
  "sim_message = sim_rows [0..<127 - 33] []"

definition sim_onConnection :: "string \<Rightarrow> int \<Rightarrow> TcpConnection \<Rightarrow> fault + TcpConnection" where
  "sim_onConnection message w c = (if connected c then send w message c else Inr c)"

definition sim_onMessage :: "TcpConnection \<Rightarrow> fault + TcpConnection" where
  "sim_onMessage c = Inr (c\<lparr>inputBuffer := retrieveAll (inputBuffer c)\<rparr>)"

text \<open>Stored in the connection, which never calls it.\<close>

definition sim_onWriteComplete :: "string \<Rightarrow> int \<Rightarrow> TcpConnection \<Rightarrow> fault + TcpConnection" where
  "sim_onWriteComplete message w c = send w message c"

subsection \<open>The servers keep the contract\<close>

lemma onMessage_texts:
  "text_handle (\<lambda>s. server_says @ s) t w c = Some (test_onMessage w c)"
  "text_handle (\<lambda>s. s @ fmt_int tid) t w c = Some (chat_onMessage tid w c)"
  by (simp_all add: text_handle_def test_onMessage_def chat_onMessage_def)

interpretation echo: text_handler "\<lambda>s. server_says @ s"
  by unfold_locales (simp add: server_says_def)

lemma length_fmt_int:
  assumes "\<bar>i\<bar> < 10 ^ 19"
  shows "length (fmt_int i) \<le> 20"
proof -
  have "nat \<bar>i\<bar> < 10 ^ 19" using assms by (simp add: nat_less_iff)
  then have "length (dec (nat \<bar>i\<bar>)) \<le> 19" by (rule length_dec) simp
  then show ?thesis by (auto simp: fmt_int_def abs_if split: if_splits)
qed

interpretation chat: text_handler "\<lambda>s. s @ fmt_int (sint (tid :: 32 word))" for tid
proof unfold_locales
  fix bs :: bytes
  have "\<bar>sint tid\<bar> < 10 ^ 19" using sint_greater_eq [of tid] sint_less [of tid] by simp
  from length_fmt_int [OF this] show "length (bs @ fmt_int (sint tid)) \<le> length bs + 1000" by simp
qed

interpretation sim: message_handler "\<lambda>t w c. Some (sim_onMessage c)" "\<lambda>c. []" "\<lambda>_. True" "{}"
proof unfold_locales
  fix c acc w t
  assume "stream_inv c acc" "open_inv c" "active c"
  then have "stream_inv (c\<lparr>inputBuffer := retrieveAll (inputBuffer c)\<rparr>) (acc @ kept w c [])"
    "open_inv (c\<lparr>inputBuffer := retrieveAll (inputBuffer c)\<rparr>)" "active (c\<lparr>inputBuffer := retrieveAll (inputBuffer c)\<rparr>)"
    by (simp_all add: stream_inv_def kept_def open_inv_input active_def buf_inv_retrieveAll)
  then show "(\<exists>f \<in> {}. Some (sim_onMessage c) = Some (Inl f)) \<or>
      (\<exists>c'. Some (sim_onMessage c) = Some (Inr c') \<and> stream_inv c' (acc @ kept w c []) \<and> open_inv c' \<and> active c' \<and> True)"
    by (simp add: sim_onMessage_def)
qed simp

subsection \<open>Properties\<close>

lemma onMessage_handlers:
  "(\<lambda>t w c. Some (test_onMessage w c)) = text_handle (\<lambda>s. server_says @ s)"
  "(\<lambda>t w c. Some (chat_onMessage tid w c)) = text_handle (\<lambda>s. s @ fmt_int tid)"
  by (simp_all add: onMessage_texts fun_eq_iff)

text \<open>
  The callbacks of the echo server and the chat server of the tests never throw and always return, and what a client of the one or the other
  receives is a sequence of whole answers: the prefix and the bytes it sent, or these and the thread id. The server of
  \<^verbatim>\<open>testSimAll.cc\<close> answers nothing to what it receives.
\<close>

theorem test_servers_answer:
  assumes "session_reachable (\<lambda>t w c. Some (test_onMessage w c)) (\<lambda>c. server_says @ content (inputBuffer c)) S1"
    and "session_reachable (\<lambda>t w c. Some (chat_onMessage (sint (tid :: 32 word)) w c))
      (\<lambda>c. content (inputBuffer c) @ fmt_int (sint tid)) S2"
    and "session_reachable (\<lambda>t w c. Some (sim_onMessage c)) (\<lambda>c. []) S3"
  shows "(\<forall>S \<in> {S1, S2, S3}. \<not> hung S \<and> thrown_by S = None) \<and>
    (\<exists>ds. wire (socket (peer S1)) @ content (outputBuffer (peer S1)) = concat (map (\<lambda>d. server_says @ d) ds)) \<and>
    (\<exists>ds. wire (socket (peer S2)) @ content (outputBuffer (peer S2)) = concat (map (\<lambda>d. d @ fmt_int (sint tid)) ds)) \<and>
    wire (socket (peer S3)) @ content (outputBuffer (peer S3)) = []"
proof -
  note R1 = assms(1) [unfolded onMessage_handlers] and R2 = assms(2) [unfolded onMessage_handlers]
  have whole: "\<exists>ds. concat (map (\<lambda>c. f (content (inputBuffer c))) cs) = concat (map f ds)" for f :: "bytes \<Rightarrow> bytes" and cs
    by (intro exI [of _ "map (\<lambda>c. content (inputBuffer c)) cs"]) (simp add: comp_def)
  have "\<not> hung S1 \<and> thrown_by S1 = None" "\<not> hung S2 \<and> thrown_by S2 = None" "\<not> hung S3 \<and> thrown_by S3 = None"
    using echo.session_output(2,3) [OF R1] chat.session_output(2,3) [OF R2] sim.session_output(2,3) [OF assms(3)]
    by (metis empty_iff not_Some_eq)+
  moreover have "\<exists>ds. answered S1 = concat (map (\<lambda>d. server_says @ d) ds)"
    using session_replies [OF R1] whole [of "\<lambda>d. server_says @ d"] by metis
  moreover have "\<exists>ds. answered S2 = concat (map (\<lambda>d. d @ fmt_int (sint tid)) ds)"
    using session_replies [OF R2] whole [of "\<lambda>d. d @ fmt_int (sint tid)"] by metis
  moreover have "answered S3 = []" using session_replies [OF assms(3)] by auto
  ultimately show ?thesis
    using echo.session_output(1) [OF R1] chat.session_output(1) [OF R2] sim.session_output(1) [OF assms(3)] by simp
qed

definition test_session :: Session where
  "test_session = \<lparr>peer = conn demo_open, answered = [], thrown_by = None, hung = False, over = False, read_broken = None\<rparr>"

lemma test_session_reachable: "session_reachable handle reply test_session"
  unfolding test_session_def
  by (rule session_reachable.start [of new_Epoller Map.empty 7 5 "TimeStamp 0" "''c''"])
    (simp_all add: interest_def new_Epoller_def demo_open_def demo_new_def connectEstablished_def call_def)

lemma test_servers_answer_witness:
  "\<not> hung test_session \<and> thrown_by test_session = None \<and>
   (\<exists>ds. wire (socket (peer test_session)) @ content (outputBuffer (peer test_session)) = concat (map (\<lambda>d. server_says @ d) ds))"
  using test_servers_answer [OF test_session_reachable test_session_reachable test_session_reachable] by blast

text \<open>The text of \<^verbatim>\<open>testSimAll.cc\<close>: 94 rows of 72 characters and a line feed; no \<open>substr\<close> throws.\<close>

lemma sim_rows_ok:
  assumes "\<forall>i \<in> set is. i + 72 \<le> length sim_line"
  shows "\<exists>m. sim_rows is acc = Inr m \<and> length m = length acc + 73 * length is"
  using assms by (induction "is" arbitrary: acc) (fastforce simp: substr_def)+

lemma sim_message_ok: "\<exists>m. sim_message = Inr m \<and> length m = 6862"
proof -
  have "\<forall>i \<in> set [0..<127 - 33]. i + 72 \<le> length sim_line" by (auto simp: sim_line_def Let_def)
  from sim_rows_ok [OF this, of "[]"] show ?thesis by (simp add: sim_message_def)
qed

end
