(* ===== verification/Net_LoopLife.thy ===== *)
theory Net_LoopLife
  imports Net_EventLoop
begin

text \<open>
  Construction and destruction of an event loop (\<^verbatim>\<open>Net/EventLoop.cc\<close>) with the timer queue it owns
  (\<^verbatim>\<open>Timer/TimerQueue.cc\<close>): the two channels it registers with its own poller, and the thread-local pointer
  to the loop of a thread. Members are constructed in the order of their declarations and destroyed in the opposite
  order, so the poller is there for the timer queue in both.
\<close>

subsection \<open>State and operations\<close>

datatype loop_cb = WakeupRead | TimerRead

record LoopObject =
  wakeupChannel :: "loop_cb Channel"
  timerChannel :: "loop_cb Channel"
  loop_poller :: Epoller

text \<open>\<open>t_LoopInThisThread\<close> of every thread.\<close>

type_synonym ThreadLoops = "nat \<Rightarrow> nat option"

text \<open>The three functions that forward to the poller.\<close>

definition loop_updateChannel :: "loop_cb Channel \<Rightarrow> LoopObject \<Rightarrow> loop_cb Channel \<times> LoopObject" where
  "loop_updateChannel c L = (let (c1, ep) = updateChannel c (loop_poller L) in (c1, L\<lparr>loop_poller := ep\<rparr>))"

definition loop_removeChannel :: "loop_cb Channel \<Rightarrow> LoopObject \<Rightarrow> loop_cb Channel \<times> LoopObject" where
  "loop_removeChannel c L = (let (c1, ep) = removeChannel c (loop_poller L) in (c1, L\<lparr>loop_poller := ep\<rparr>))"

definition loop_hasChannel :: "loop_cb Channel \<Rightarrow> LoopObject \<Rightarrow> bool" where
  "loop_hasChannel c L = hasChannel c (loop_poller L)"

definition isInLoopThread :: "nat \<Rightarrow> nat \<Rightarrow> bool" where
  "isInLoopThread threadId tid = (threadId = tid)"

text \<open>\<open>assertInLoopThread\<close> only prints; the result tells whether it does.\<close>

definition assertInLoopThread :: "nat \<Rightarrow> nat \<Rightarrow> bool" where
  "assertInLoopThread threadId tid = (\<not> isInLoopThread threadId tid)"

text \<open>The constructor and the destructor of \<open>TimerQueue\<close>, as far as its channel goes.\<close>

definition timer_queue_start :: "nat \<Rightarrow> int \<Rightarrow> LoopObject \<Rightarrow> LoopObject" where
  "timer_queue_start tp tfd L =
     (let ch = setReadCallBack TimerRead (new_Channel tp tfd);
          (ch1, L1) = loop_updateChannel (ch\<lparr>events := events ch OR kReadEvent\<rparr>) L
      in L1\<lparr>timerChannel := ch1\<rparr>)"

definition timer_queue_end :: "LoopObject \<Rightarrow> LoopObject" where
  "timer_queue_end L =
     (let (ch1, L1) = loop_updateChannel ((timerChannel L)\<lparr>events := kNoneEvent\<rparr>) L;
          (ch2, L2) = loop_removeChannel ch1 L1
      in L2\<lparr>timerChannel := ch2\<rparr>)"

text \<open>\<open>EventLoop::EventLoop\<close> at address \<open>this0\<close> on thread \<open>t\<close>; the last component tells whether it warns.\<close>

definition loop_construct ::
  "nat \<Rightarrow> nat \<Rightarrow> int \<Rightarrow> nat \<Rightarrow> int \<Rightarrow> nat \<Rightarrow> ThreadLoops \<Rightarrow> LoopObject \<times> ThreadLoops \<times> bool" where
  "loop_construct this0 wp wakeupFd0 tp timerfd0 t tls =
     (let L0 = \<lparr>wakeupChannel = new_Channel wp wakeupFd0, timerChannel = new_Channel tp timerfd0, loop_poller = new_Epoller\<rparr>;
          L1 = timer_queue_start tp timerfd0 L0;
          warns = (tls t \<noteq> None);
          tls1 = (if tls t \<noteq> None then tls else tls(t := Some this0));
          ch = setReadCallBack WakeupRead (wakeupChannel L1);
          (ch1, L2) = loop_updateChannel (ch\<lparr>events := events ch OR kReadEvent\<rparr>) L1
      in (L2\<lparr>wakeupChannel := ch1\<rparr>, tls1, warns))"

definition loop_destroy :: "nat \<Rightarrow> LoopObject \<Rightarrow> ThreadLoops \<Rightarrow> LoopObject \<times> ThreadLoops" where
  "loop_destroy t L tls =
     (let (ch1, L1) = loop_updateChannel ((wakeupChannel L)\<lparr>events := kNoneEvent\<rparr>) L;
          (ch2, L2) = loop_removeChannel ch1 L1;
          tls1 = tls(t := None)
      in (timer_queue_end (L2\<lparr>wakeupChannel := ch2\<rparr>), tls1))"

subsection \<open>Registration\<close>

lemma update_channels [simp]: "channels (update operation c ep) = channels ep"
  by (simp add: update_def)

lemma enable_registers:
  assumes "interest (loop_poller L) = Some K" and "K f = None"
    and "loop_updateChannel ((setReadCallBack cb (new_Channel p f))\<lparr>events := events (setReadCallBack cb (new_Channel p f)) OR kReadEvent\<rparr>) L =
      (ch, L')"
  shows "interest (loop_poller L') = Some (K(f \<mapsto> (kReadEvent, p)))" "fd ch = f" "this ch = p" "index ch = kAdded"
    "wakeupChannel L' = wakeupChannel L" "timerChannel L' = timerChannel L"
  using assms
  by (auto simp: loop_updateChannel_def updateChannel_def setReadCallBack_def new_Channel_def interest_update kNew_def
      kAdded_def Let_def split: prod.splits)

lemma disable_unregisters:
  assumes "interest (loop_poller L) = Some K" and "K (fd c) \<noteq> None" and "index c = kAdded"
    and "loop_updateChannel (c\<lparr>events := kNoneEvent\<rparr>) L = (c1, L1)" and "loop_removeChannel c1 L1 = (c2, L2)"
  shows "interest (loop_poller L2) = Some (K(fd c := None))" "wakeupChannel L2 = wakeupChannel L"
    "timerChannel L2 = timerChannel L" "\<not> loop_hasChannel c2 L2"
  using assms
  by (auto simp: loop_updateChannel_def loop_removeChannel_def updateChannel_def removeChannel_def loop_hasChannel_def hasChannel_def
      interest_update isNonEvent_def kNoneEvent_def kNew_def kAdded_def kDeleted_def Let_def split: prod.splits)

subsection \<open>Properties\<close>

text \<open>The two descriptors and nothing else.\<close>

lemma loop_construct_registers:
  assumes "wfd \<noteq> tfd" and "loop_construct this0 wp wfd tp tfd t tls = (L, tls1, warns)"
  shows "interest (loop_poller L) = Some [tfd \<mapsto> (kReadEvent, tp), wfd \<mapsto> (kReadEvent, wp)]"
    "fd (wakeupChannel L) = wfd" "fd (timerChannel L) = tfd" "index (wakeupChannel L) = kAdded" "index (timerChannel L) = kAdded"
    "warns \<longleftrightarrow> tls t \<noteq> None" "tls1 = (if tls t \<noteq> None then tls else tls(t \<mapsto> this0))"
proof -
  define L0 where "L0 = \<lparr>wakeupChannel = new_Channel wp wfd :: loop_cb Channel, timerChannel = new_Channel tp tfd,
    loop_poller = new_Epoller\<rparr>"
  have i0: "interest (loop_poller L0) = Some Map.empty" by (simp add: L0_def interest_def new_Epoller_def)
  obtain c1 L1 where t: "loop_updateChannel ((setReadCallBack TimerRead (new_Channel tp tfd))\<lparr>events :=
      events (setReadCallBack TimerRead (new_Channel tp tfd)) OR kReadEvent\<rparr>) L0 = (c1, L1)" by fastforce
  note T = enable_registers [OF i0 _ t]
  have tq: "timer_queue_start tp tfd L0 = L1\<lparr>timerChannel := c1\<rparr>" using t by (simp add: timer_queue_start_def Let_def)
  let ?L1 = "L1\<lparr>timerChannel := c1\<rparr>"
  obtain c2 L2 where w: "loop_updateChannel ((setReadCallBack WakeupRead (new_Channel wp wfd))\<lparr>events :=
      events (setReadCallBack WakeupRead (new_Channel wp wfd)) OR kReadEvent\<rparr>) ?L1 = (c2, L2)" by fastforce
  have i1: "interest (loop_poller ?L1) = Some [tfd \<mapsto> (kReadEvent, tp)]" using T(1) by simp
  note Wk = enable_registers [OF i1 _ w]
  have "wakeupChannel ?L1 = new_Channel wp wfd" using T(5) by (simp add: L0_def)
  then have res: "L = L2\<lparr>wakeupChannel := c2\<rparr>" "warns = (tls t \<noteq> None)" "tls1 = (if tls t \<noteq> None then tls else tls(t \<mapsto> this0))"
    using assms(2) tq w by (auto simp: loop_construct_def L0_def [symmetric] Let_def)
  show "interest (loop_poller L) = Some [tfd \<mapsto> (kReadEvent, tp), wfd \<mapsto> (kReadEvent, wp)]"
    "fd (wakeupChannel L) = wfd" "fd (timerChannel L) = tfd" "index (wakeupChannel L) = kAdded" "index (timerChannel L) = kAdded"
    "warns \<longleftrightarrow> tls t \<noteq> None" "tls1 = (if tls t \<noteq> None then tls else tls(t \<mapsto> this0))"
    using T Wk assms(1) res by simp_all
qed

text \<open>
  C28: A loop leaves nothing behind. A new loop has exactly two descriptors in its kernel list, both for
  reading: that of its timers and that of its wakeup. After the destructor neither is in the list, and the thread has no loop. While
  other channels come and go in between, it is enough that the two are registered as they were.
\<close>

theorem loop_life_roundtrip:
  assumes "wfd \<noteq> tfd" and "tls t = None" and "loop_construct this0 wp wfd tp tfd t tls = (L, tls1, warns)"
    and "interest (loop_poller M) = Some K" and "wakeupChannel M = wakeupChannel L" and "timerChannel M = timerChannel L"
    and "K wfd \<noteq> None" and "K tfd \<noteq> None" and "loop_destroy t M tls1 = (N, tls2)"
  shows "interest (loop_poller L) = Some [tfd \<mapsto> (kReadEvent, tp), wfd \<mapsto> (kReadEvent, wp)] \<and> \<not> warns \<and> tls1 t = Some this0 \<and>
    interest (loop_poller N) = Some (K(wfd := None, tfd := None)) \<and> tls2 = tls"
proof -
  note C = loop_construct_registers [OF assms(1,3)]
  obtain c1 L1 where u1: "loop_updateChannel ((wakeupChannel M)\<lparr>events := kNoneEvent\<rparr>) M = (c1, L1)" by fastforce
  obtain c2 L2 where r1: "loop_removeChannel c1 L1 = (c2, L2)" by fastforce
  have w: "K (fd (wakeupChannel M)) \<noteq> None" "index (wakeupChannel M) = kAdded" using assms(5,7) C by simp_all
  note D1 = disable_unregisters [OF assms(4) w u1 r1]
  let ?L2 = "L2\<lparr>wakeupChannel := c2\<rparr>"
  obtain c3 L3 where u2: "loop_updateChannel ((timerChannel ?L2)\<lparr>events := kNoneEvent\<rparr>) ?L2 = (c3, L3)" by fastforce
  obtain c4 L4 where r2: "loop_removeChannel c3 L3 = (c4, L4)" by fastforce
  have i2: "interest (loop_poller ?L2) = Some (K(wfd := None))" using D1(1) assms(5) C(2) by simp
  have tc: "timerChannel ?L2 = timerChannel L" using D1(3) assms(6) by simp
  have t: "(K(wfd := None)) (fd (timerChannel ?L2)) \<noteq> None" "index (timerChannel ?L2) = kAdded"
    using assms(1,8) C(3,5) unfolding tc by simp_all
  note D2 = disable_unregisters [OF i2 t u2 r2]
  have "N = L4\<lparr>timerChannel := c4\<rparr>" "tls2 = tls1(t := None)"
    using assms(9) u1 r1 u2 r2 by (auto simp: loop_destroy_def timer_queue_end_def Let_def)
  then have N: "interest (loop_poller N) = Some (K(wfd := None, tfd := None))" "tls2 = tls1(t := None)"
    using D2(1) C(3) unfolding tc by (simp_all add: fun_upd_def)
  have "tls2 = tls" unfolding N(2) using C(7) assms(2) by (auto simp: fun_eq_iff)
  then show ?thesis using C(1,6,7) N(1) assms(2) by simp
qed

lemma loop_life_roundtrip_witness:
  "\<exists>L tls1 N tls2. loop_construct 100 5 3 6 4 1 Map.empty = (L, tls1, False) \<and> tls1 1 = Some 100 \<and>
     loop_destroy 1 L tls1 = (N, tls2) \<and> interest (loop_poller N) = Some Map.empty \<and> tls2 = Map.empty"
proof -
  obtain L tls1 w where c: "loop_construct 100 5 3 6 4 1 Map.empty = (L, tls1, w)" using prod_cases3 by blast
  obtain N tls2 where d: "loop_destroy 1 L tls1 = (N, tls2)" by fastforce
  have "interest (loop_poller L) = Some [4 \<mapsto> (kReadEvent, 6), 3 \<mapsto> (kReadEvent, 5)]"
    using loop_construct_registers(1) [OF _ c] by simp
  from loop_life_roundtrip [OF _ _ c this refl refl _ _ d] c d show ?thesis by (auto simp: fun_upd_twist)
qed

text \<open>
  A second loop on the same thread is only warned about, and destroying either of the two makes the thread look free.
\<close>

lemma second_loop_is_accepted:
  assumes "wfd \<noteq> tfd" and "tls t = Some first" and "loop_construct this0 wp wfd tp tfd t tls = (L, tls1, warns)"
    and "loop_destroy t L tls1 = (N, tls2)"
  shows "warns \<and> interest (loop_poller L) \<noteq> Some Map.empty \<and> tls1 t = Some first \<and> tls2 t = None"
  using loop_construct_registers [OF assms(1,3)] assms(2,4) by (auto simp: loop_destroy_def Let_def split: prod.splits dest: fun_cong)

end
