(* ===== verification/Proxy_Main.thy ===== *)
theory Proxy_Main
  imports Proxy_Cache Base_CString "HOL-Library.Word"
begin

text \<open>
  \<open>main\<close> of \<^verbatim>\<open>Proxy/Proxy.cc\<close> up to its loop: the arguments, the cache with its first object, and what it gives the
  library server. \<open>malloc\<close> returns the address \<open>p\<close> of an object with whatever was there.
\<close>

record ProxyStart =
  origin_ip :: string
  origin_port :: "16 word"
  proxy_port :: "16 word"
  start_cache :: ProxyCache

definition test_body :: bytes where
  "test_body = ''This is the test body''"

definition test_header :: bytes where
  "test_header = ''Host: localhost''"

definition first_object :: "obj_t \<Rightarrow> obj_t" where
  "first_object tmpobj =
     tmpobj\<lparr>flag := CHR ''$'', respBody := [] @ test_body, respHeader := [] @ test_header,
       respBodyLen := c_int (respBodyLen tmpobj + int (length test_body)),
       respHeaderLen := c_int (respHeaderLen tmpobj + int (length test_header)), uri := ''/haha''\<rparr>"

text \<open>Without the three arguments \<open>main\<close> prints its usage and returns.\<close>

definition proxy_main ::
  "nat \<Rightarrow> nat \<Rightarrow> obj_t \<Rightarrow> nat \<Rightarrow> obj_t \<Rightarrow> store \<Rightarrow> string list \<Rightarrow> (fault + ProxyStart option) option" where
  "proxy_main a b junk p tmpobj h argv =
     (if length argv < 4 then Some (Inr None)
      else
        (let Ip = argv ! 1;
             port = word_of_int (atoi (argv ! 2));
             proxyPort = word_of_int (atoi (argv ! 3));
             S = main_cache a b junk h
         in case writeToCache p (S\<lparr>mem := (mem S)(p \<mapsto> first_object tmpobj)\<rparr>) of
              None \<Rightarrow> None
            | Some (Inl f) \<Rightarrow> Some (Inl f)
            | Some (Inr S1) \<Rightarrow>
                Some (Inr (Some \<lparr>origin_ip = Ip, origin_port = port, proxy_port = proxyPort, start_cache = S1\<rparr>))))"

lemma main_cache_more:
  assumes "a \<noteq> b" and "p \<notin> {a, b}"
  shows "represents ((main_cache a b junk h)\<lparr>mem := (mem (main_cache a b junk h))(p \<mapsto> x)\<rparr>) [] []"
  using assms by (simp add: represents_def main_cache_def initializeCache_def cache_inv_def nx_def pv_def Let_def)

text \<open>
  The proxy starts with what its arguments say: the ports they print and the address they name; and with a
  cache of exactly one object, so that the first lookup of \<open>/haha\<close> is answered from the cache.
\<close>

theorem proxy_main_starts:
  assumes "argv = [prog, ip, dec n, dec k]" and "n < 2 ^ 16" and "k < 2 ^ 16"
    and "a \<noteq> b" and "p \<notin> {a, b}" and "0 \<le> respBodyLen tmpobj" and "respBodyLen tmpobj < 2 ^ 31 - 21"
  shows "\<exists>P S. proxy_main a b junk p tmpobj h argv = Some (Inr (Some P)) \<and> origin_ip P = ip \<and>
    unat (origin_port P) = n \<and> unat (proxy_port P) = k \<and>
    represents (start_cache P) [p] [(''/haha'', test_body, respBodyLen tmpobj + 21)] \<and>
    readItem ''/haha'' (start_cache P) = Some (Inr (Some p, S))"
proof -
  let ?x = "first_object tmpobj"
  let ?S = "(main_cache a b junk h)\<lparr>mem := (mem (main_cache a b junk h))(p \<mapsto> ?x)\<rparr>"
  have len: "respBodyLen ?x = respBodyLen tmpobj + 21"
    using assms(6,7) by (simp add: first_object_def test_body_def c_int_id)
  have x: "mem ?S p = Some ?x" "flag ?x \<noteq> CHR ''@''" "0 \<le> respBodyLen ?x" "0 \<le> CacheSize ?S"
    "respBodyLen ?x + CacheSize ?S < 2 ^ 31" "p \<notin> set (cache_head (cache ?S) # [] @ [cache_tail (cache ?S)])"
    using assms(5-7) len by (simp_all add: first_object_def)
  have entry: "entry_at (mem ?S) p = (''/haha'', test_body, respBodyLen tmpobj + 21)"
    using len by (simp add: entry_at_def first_object_def)
  obtain h1 ys where w: "writeToCache p ?S = Some (Inr (?S\<lparr>mem := h1, CacheSize := CacheSize ?S + respBodyLen ?x\<rparr>))"
    "represents (?S\<lparr>mem := h1\<rparr>) (p # ys) (fst (spec_write (entry_at (mem ?S) p) ([], CacheSize ?S)))"
    using writeToCache_step [OF main_cache_more [OF assms(4,5)] x(1,2,6,3,4,5)] by blast
  let ?S1 = "?S\<lparr>mem := h1, CacheSize := CacheSize ?S + respBodyLen ?x\<rparr>"
  have "map (entry_at h1) (p # ys) = [(''/haha'', test_body, respBodyLen tmpobj + 21)]"
    using w(2) unfolding represents_def spec_write_def entry by simp
  then have ys: "ys = []" "entry_at h1 p = (''/haha'', test_body, respBodyLen tmpobj + 21)" by auto
  have rep: "represents ?S1 [p] [(''/haha'', test_body, respBodyLen tmpobj + 21)]"
    using w(2) ys by (simp add: represents_def cache_inv_def)
  have "\<exists>S. read_enter ?S1 = Some S" by (simp add: read_enter_def sem_P_def sem_V_def Let_def)
  then obtain S where S: "read_enter ?S1 = Some S" by blast
  have "cache_inv ?S1 [p]" using rep by (simp add: represents_def)
  from readItem_step [OF this S, of "''/haha''"] have hit: "readItem ''/haha'' ?S1 = Some (Inr (Some p, S))"
    using ys(2) by (simp add: entry_at_def)
  have ports: "unat (word_of_int (int n) :: 16 word) = n" "unat (word_of_int (int k) :: 16 word) = k"
    using assms(2,3) by (simp_all add: unat_of_nat take_bit_nat_eq_self)
  show ?thesis
    using w(1) rep hit ports assms(1) by (simp add: proxy_main_def atoi_dec)
qed

lemma proxy_main_starts_witness:
  "\<exists>P S. proxy_main 0 1 demo_obj 2 (demo_obj\<lparr>respBodyLen := 0\<rparr>) Map.empty [''proxy'', ''10.0.0.1'', dec 80, dec 9999] =
       Some (Inr (Some P)) \<and> unat (origin_port P) = 80 \<and> unat (proxy_port P) = 9999 \<and>
     readItem ''/haha'' (start_cache P) = Some (Inr (Some 2, S))"
  using proxy_main_starts [OF refl, of 80 9999 0 1 2 "demo_obj\<lparr>respBodyLen := 0\<rparr>" demo_obj Map.empty "''proxy''" "''10.0.0.1''"]
  by auto

text \<open>
  When a large object is written, the first object of \<open>main\<close> is evicted and freed; \<open>main\<close> frees it once more
  after the loop.
\<close>

lemma first_object_may_be_gone:
  assumes "represents S [p] es" and "mem S q = Some obj" and "flag obj \<noteq> CHR ''@''"
    and "q \<notin> {cache_head (cache S), p, cache_tail (cache S)}" and "0 \<le> CacheSize S" and "respBodyLen obj > MAX_CACHE_SIZE"
    and "respBodyLen obj + CacheSize S < 2 ^ 31"
  shows "\<exists>S'. writeToCache q S = Some (Inr S') \<and> mem S' p = None"
proof -
  have "0 \<le> respBodyLen obj" "q \<notin> set (cache_head (cache S) # [p] @ [cache_tail (cache S)])"
    using assms(4,6) by (auto simp: MAX_CACHE_SIZE_def)
  from writeToCache_step [OF assms(1-3) this(2,1) assms(5,7)] assms(5,6) show ?thesis by auto
qed

end
