(* ===== verification/Base_Monitor.thy ===== *)
theory Base_Monitor
  imports Base_Sync
begin

text \<open>
  \<^verbatim>\<open>Base/Mutex.h\<close>, \<^verbatim>\<open>Base/Condition.h\<close> and the latch on top of them (\<^verbatim>\<open>Base/CountDownLatch.cc\<close>), call by call:
  the lock guard takes and gives back the mutex, \<open>wait\<close> gives it back while it sleeps and takes it again. The
  theory \<open>Base_Sync\<close> treats each critical section as one step; here that is justified by a simulation.

  What the \<open>pthread\<close> functions do is what POSIX says: \<open>pthread_mutex_lock\<close> returns when nobody holds the mutex,
  \<open>pthread_cond_wait\<close> releases it and sleeps in one step and may wake up by itself, \<open>pthread_cond_broadcast\<close> wakes
  every sleeper.
\<close>

subsection \<open>Mutex and condition\<close>

text \<open>Who holds the mutex.\<close>

type_synonym 't Mutex = "'t option"

definition new_MutexLock :: "'t Mutex" where
  "new_MutexLock = None"

text \<open>\<open>lock\<close> blocks (\<open>None\<close>) while the mutex is taken.\<close>

definition mutex_lock :: "'t \<Rightarrow> 't Mutex \<Rightarrow> 't Mutex option" where
  "mutex_lock t m = (if m = None then Some (Some t) else None)"

definition mutex_unlock :: "'t Mutex \<Rightarrow> 't Mutex" where
  "mutex_unlock m = None"

text \<open>Where a thread is: in \<open>wait\<close> or in \<open>countDown\<close> of the latch, or in neither.\<close>

datatype latch_pc =
    Idle
  | WaitLock | WaitTest bool | Asleep | WaitRelock | WaitUnlock | WaitDone
  | DownLock | Decrement | DownTest | DownUnlock

record 't LatchMonitor =
  latch_mutex :: "'t Mutex"
  counter :: int
  pcs :: "'t \<Rightarrow> latch_pc"

definition new_LatchMonitor :: "int \<Rightarrow> 't LatchMonitor" where
  "new_LatchMonitor n = \<lparr>latch_mutex = new_MutexLock, counter = n, pcs = (\<lambda>_. Idle)\<rparr>"

text \<open>\<open>Condition::wait\<close> up to its sleep, and \<open>notifyAll\<close>.\<close>

definition condition_wait :: "'t \<Rightarrow> 't LatchMonitor \<Rightarrow> 't LatchMonitor" where
  "condition_wait t M = M\<lparr>latch_mutex := mutex_unlock (latch_mutex M), pcs := (pcs M)(t := Asleep)\<rparr>"

definition notifyAll :: "'t LatchMonitor \<Rightarrow> 't LatchMonitor" where
  "notifyAll M = M\<lparr>pcs := (\<lambda>t. if pcs M t = Asleep then WaitRelock else pcs M t)\<rparr>"

text \<open>\<open>notify\<close> wakes one sleeper, \<open>t\<close>; the others sleep on.\<close>

definition notify_one :: "'t \<Rightarrow> 't LatchMonitor \<Rightarrow> 't LatchMonitor" where
  "notify_one t M = (if pcs M t = Asleep then M\<lparr>pcs := (pcs M)(t := WaitRelock)\<rparr> else M)"

lemma notify_one_others: "u \<noteq> t \<Longrightarrow> pcs M u = Asleep \<Longrightarrow> pcs (notify_one t M) u = Asleep"
  and notifyAll_no_sleeper: "pcs (notifyAll M) u \<noteq> Asleep"
  by (simp_all add: notify_one_def notifyAll_def)

definition goto :: "'t \<Rightarrow> latch_pc \<Rightarrow> 't LatchMonitor \<Rightarrow> 't LatchMonitor" where
  "goto t p M = M\<lparr>pcs := (pcs M)(t := p)\<rparr>"

text \<open>
  \<open>wait\<close> and \<open>countDown\<close>, one call or one test after another. The flag of \<open>WaitTest\<close> tells whether the thread has
  slept before.
\<close>

inductive monitor_step :: "'t LatchMonitor \<Rightarrow> 't LatchMonitor \<Rightarrow> bool" where
  call_wait: "pcs M t = Idle \<Longrightarrow> monitor_step M (goto t WaitLock M)"
| call_down: "pcs M t = Idle \<Longrightarrow> monitor_step M (goto t DownLock M)"
| wait_lock: "pcs M t = WaitLock \<Longrightarrow> mutex_lock t (latch_mutex M) = Some m \<Longrightarrow>
    monitor_step M (goto t (WaitTest False) (M\<lparr>latch_mutex := m\<rparr>))"
| wait_sleep: "pcs M t = WaitTest b \<Longrightarrow> counter M > 0 \<Longrightarrow> monitor_step M (condition_wait t M)"
| wait_leave: "pcs M t = WaitTest b \<Longrightarrow> \<not> counter M > 0 \<Longrightarrow> monitor_step M (goto t WaitUnlock M)"
| wakes_up: "pcs M t = Asleep \<Longrightarrow> monitor_step M (goto t WaitRelock M)"
| wait_relock: "pcs M t = WaitRelock \<Longrightarrow> mutex_lock t (latch_mutex M) = Some m \<Longrightarrow>
    monitor_step M (goto t (WaitTest True) (M\<lparr>latch_mutex := m\<rparr>))"
| wait_unlock: "pcs M t = WaitUnlock \<Longrightarrow> monitor_step M (goto t WaitDone (M\<lparr>latch_mutex := mutex_unlock (latch_mutex M)\<rparr>))"
| down_lock: "pcs M t = DownLock \<Longrightarrow> mutex_lock t (latch_mutex M) = Some m \<Longrightarrow>
    monitor_step M (goto t Decrement (M\<lparr>latch_mutex := m\<rparr>))"
| decrement: "pcs M t = Decrement \<Longrightarrow> counter M > - (2 ^ 31) \<Longrightarrow>
    monitor_step M (goto t DownTest (M\<lparr>counter := c_int (counter M - 1)\<rparr>))"
| notify: "pcs M t = DownTest \<Longrightarrow> counter M = 0 \<Longrightarrow> monitor_step M (goto t DownUnlock (notifyAll M))"
| no_notify: "pcs M t = DownTest \<Longrightarrow> counter M \<noteq> 0 \<Longrightarrow> monitor_step M (goto t DownUnlock M)"
| down_unlock: "pcs M t = DownUnlock \<Longrightarrow> monitor_step M (goto t Idle (M\<lparr>latch_mutex := mutex_unlock (latch_mutex M)\<rparr>))"

inductive monitor_reachable :: "int \<Rightarrow> 't LatchMonitor \<Rightarrow> bool" for n where
  init: "monitor_reachable n (new_LatchMonitor n)"
| step: "monitor_reachable n M \<Longrightarrow> monitor_step M N \<Longrightarrow> monitor_reachable n N"

subsection \<open>Mutual exclusion\<close>

definition inside :: "latch_pc \<Rightarrow> bool" where
  "inside p \<longleftrightarrow> p \<in> {WaitTest False, WaitTest True, WaitUnlock, Decrement, DownTest, DownUnlock}"

lemma inside_simps [simp]:
  "\<not> inside Idle" "\<not> inside WaitLock" "\<not> inside Asleep" "\<not> inside WaitRelock" "\<not> inside WaitDone" "\<not> inside DownLock"
  "inside (WaitTest b)" "inside WaitUnlock" "inside Decrement" "inside DownTest" "inside DownUnlock"
  by (cases b) (simp_all add: inside_def)

definition exclusive :: "'t LatchMonitor \<Rightarrow> bool" where
  "exclusive M \<longleftrightarrow> (\<forall>t. inside (pcs M t) \<longleftrightarrow> latch_mutex M = Some t)"

lemmas monitor_op_defs = goto_def condition_wait_def notifyAll_def mutex_unlock_def mutex_lock_def

lemma exclusiveD: "exclusive M \<Longrightarrow> inside (pcs M t) \<Longrightarrow> inside (pcs M u) \<Longrightarrow> t = u"
  by (simp add: exclusive_def)

lemma exclusive_goto:
  "exclusive M \<Longrightarrow> inside p = inside (pcs M t) \<Longrightarrow> exclusive (goto t p M)"
  "exclusive M \<Longrightarrow> mutex_lock t (latch_mutex M) = Some m \<Longrightarrow> inside p \<Longrightarrow> exclusive (goto t p (M\<lparr>latch_mutex := m\<rparr>))"
  "exclusive M \<Longrightarrow> inside (pcs M t) \<Longrightarrow> \<not> inside p \<Longrightarrow>
     exclusive (goto t p (M\<lparr>latch_mutex := mutex_unlock (latch_mutex M)\<rparr>))"
  unfolding exclusive_def monitor_op_defs by (auto split: if_splits)

lemma exclusive_counter [simp]: "exclusive (M\<lparr>counter := c\<rparr>) = exclusive M"
  by (simp add: exclusive_def)

lemma exclusive_notifyAll: "exclusive M \<Longrightarrow> exclusive (notifyAll M)"
  unfolding exclusive_def notifyAll_def by (simp, metis inside_simps(3))

lemma goto_frame [simp]:
  "pcs (goto t p M) = (pcs M)(t := p)" "counter (goto t p M) = counter M" "latch_mutex (goto t p M) = latch_mutex M"
  by (simp_all add: goto_def)

lemma monitor_step_exclusive [inv_rules]:
  assumes "monitor_step M N" and "exclusive M"
  shows "exclusive N"
  using assms(1)
proof cases
  case (wait_sleep t b)
  then show ?thesis using exclusive_goto(3) [OF assms(2), of t Asleep] by (simp add: condition_wait_def goto_def)
next
  case (decrement t)
  then show ?thesis using exclusive_goto(1) [of "M\<lparr>counter := c_int (counter M - 1)\<rparr>" DownTest t] assms(2) by simp
next
  case (notify t)
  then show ?thesis using exclusive_goto(1) [OF exclusive_notifyAll [OF assms(2)], of DownUnlock t]
    by (simp add: notifyAll_def)
qed (use assms(2) in \<open>simp_all add: exclusive_goto\<close>)

lemma reachable_exclusive: "monitor_reachable n M \<Longrightarrow> exclusive M"
proof (induction rule: monitor_reachable.induct)
  case init
  show ?case by (simp add: exclusive_def new_LatchMonitor_def new_MutexLock_def)
qed (rule monitor_step_exclusive)

subsection \<open>Critical sections as single steps\<close>

text \<open>
  The decrement is the moment of \<open>countDown\<close>: from then on, while the thread has yet to notify, the sleepers
  count as woken. The test is the moment of \<open>wait\<close>.
\<close>

definition notifying :: "'t LatchMonitor \<Rightarrow> bool" where
  "notifying M \<longleftrightarrow> counter M = 0 \<and> (\<exists>t. pcs M t = DownTest)"

fun abs_pc :: "bool \<Rightarrow> latch_pc \<Rightarrow> wait_state" where
  "abs_pc ntf Asleep = (if ntf then Woken else Blocked)"
| "abs_pc ntf (WaitTest b) = (if b then Woken else Outside)"
| "abs_pc ntf WaitRelock = Woken"
| "abs_pc ntf WaitUnlock = Passed"
| "abs_pc ntf WaitDone = Passed"
| "abs_pc ntf p = Outside"

definition abs_latch :: "'t LatchMonitor \<Rightarrow> CountDownLatch \<times> ('t \<Rightarrow> wait_state)" where
  "abs_latch M = (\<lparr>latch_count = counter M\<rparr>, \<lambda>t. abs_pc (notifying M) (pcs M t))"

lemma notifying_goto: "pcs M t \<noteq> DownTest \<Longrightarrow> p \<noteq> DownTest \<Longrightarrow> notifying (goto t p M) = notifying M"
  by (auto simp: notifying_def)

lemma abs_latch_mutex [simp]: "abs_latch (M\<lparr>latch_mutex := m\<rparr>) = abs_latch M"
  by (simp add: abs_latch_def notifying_def)

lemma abs_goto:
  assumes "pcs M t \<noteq> DownTest" and "p \<noteq> DownTest"
  shows "abs_latch (goto t p M) = (fst (abs_latch M), (snd (abs_latch M))(t := abs_pc (notifying M) p))"
  using notifying_goto [OF assms] by (auto simp: abs_latch_def fun_eq_iff)

lemma abs_goto_same:
  assumes "pcs M t \<noteq> DownTest" and "p \<noteq> DownTest" and "abs_pc (notifying M) p = abs_pc (notifying M) (pcs M t)"
  shows "abs_latch (goto t p M) = abs_latch M"
  using abs_goto [OF assms(1,2)] assms(3) by (simp add: abs_latch_def fun_eq_iff)

lemma quiet_inside:
  assumes "exclusive M" and "inside (pcs M t)" and "pcs M t \<noteq> DownTest"
  shows "\<not> notifying M"
  using exclusiveD [OF assms(1,2)] assms(3) by (force simp: notifying_def)

text \<open>What the test does, in the loop of \<open>wait\<close>.\<close>

lemma abs_test:
  assumes "exclusive M" and "pcs M t = WaitTest b" and "p \<noteq> DownTest" and "abs_pc False p = latch_test \<lparr>latch_count = counter M\<rparr>"
  shows "latch_step (abs_latch M) (abs_latch (goto t p M))"
proof -
  have quiet: "\<not> notifying M" using quiet_inside [OF assms(1), of t] assms(2) by simp
  have "snd (abs_latch M) t = (if b then Woken else Outside)" using assms(2) by (simp add: abs_latch_def)
  moreover have "abs_latch (goto t p M) =
      (\<lparr>latch_count = counter M\<rparr>, (snd (abs_latch M))(t := latch_test \<lparr>latch_count = counter M\<rparr>))"
    using abs_goto [of M t p] assms(2,3,4) quiet by (simp add: abs_latch_def)
  ultimately show ?thesis
    using latch_step.wait [of "snd (abs_latch M)" t "\<lparr>latch_count = counter M\<rparr>"]
      latch_step.go_on [of "snd (abs_latch M)" t "\<lparr>latch_count = counter M\<rparr>"]
    by (cases b) (simp_all add: abs_latch_def)
qed

lemma abs_decrement:
  assumes "exclusive M" and "pcs M t = Decrement"
  shows "abs_latch (goto t DownTest (M\<lparr>counter := c_int (counter M - 1)\<rparr>)) = countDown (abs_latch M)"
proof -
  have "\<not> notifying M" using quiet_inside [OF assms(1), of t] assms(2) by simp
  moreover have "notifying (goto t DownTest (M\<lparr>counter := c\<rparr>)) \<longleftrightarrow> c = 0" for c by (auto simp: notifying_def)
  moreover have "abs_pc True p = (if abs_pc False p = Blocked then Woken else abs_pc False p)" for p by (cases p) simp_all
  ultimately show ?thesis using assms(2)
    by (auto simp: abs_latch_def countDown_def wake_all_def Let_def fun_eq_iff)
qed

lemma abs_notify:
  assumes "exclusive M" and "pcs M t = DownTest" and "counter M = 0"
  shows "abs_latch (goto t DownUnlock (notifyAll M)) = abs_latch M"
proof -
  have other: "pcs M u \<noteq> DownTest" if "u \<noteq> t" for u using exclusiveD [OF assms(1), of t u] assms(2) that by force
  have "\<not> notifying (goto t DownUnlock (notifyAll M))" using other by (auto simp: notifying_def notifyAll_def split: if_splits)
  moreover have "notifying M" using assms(2,3) by (auto simp: notifying_def)
  moreover have "abs_pc False (if p = Asleep then WaitRelock else p) = abs_pc True p" for p by (cases p) simp_all
  ultimately show ?thesis using assms(2) by (simp add: abs_latch_def notifyAll_def fun_eq_iff)
qed

text \<open>Every step of the monitor is a step of the latch or none.\<close>

lemma monitor_simulates:
  assumes "monitor_step M N" and ex: "exclusive M"
  shows "abs_latch N = abs_latch M \<or> latch_step (abs_latch M) (abs_latch N)"
  using assms(1)
proof cases
  case (wait_sleep t b)
  have N: "abs_latch N = abs_latch (goto t Asleep M)"
    unfolding wait_sleep(1) by (simp add: abs_latch_def notifying_def condition_wait_def)
  show ?thesis using abs_test [OF ex wait_sleep(2), of Asleep] wait_sleep(3) unfolding N by (simp add: latch_test_def)
next
  case (wait_leave t b)
  then show ?thesis using abs_test [OF ex wait_leave(2), of WaitUnlock] by (simp add: latch_test_def)
next
  case (wakes_up t)
  show ?thesis
  proof (cases "notifying M")
    case True
    then show ?thesis using abs_goto_same [of M t WaitRelock] wakes_up by simp
  next
    case False
    have "snd (abs_latch M) t = Blocked" using False wakes_up by (simp add: abs_latch_def)
    from latch_step.spurious [of "snd (abs_latch M)", OF this, of "fst (abs_latch M)"] show ?thesis
      using abs_goto [of M t WaitRelock] wakes_up by simp
  qed
next
  case (decrement t)
  have "latch_step (abs_latch M) (countDown (abs_latch M))"
    using latch_step.count_down [of "fst (abs_latch M)" "snd (abs_latch M)"] decrement(3) by (simp add: abs_latch_def)
  then show ?thesis using abs_decrement [OF ex decrement(2)] decrement(1) by simp
next
  case (notify t)
  then show ?thesis using abs_notify [OF ex] by simp
next
  case (no_notify t)
  have "\<not> notifying M" "\<not> notifying (goto t DownUnlock M)" using no_notify(3) by (simp_all add: notifying_def)
  then show ?thesis using no_notify by (simp add: abs_latch_def fun_eq_iff)
qed (simp_all add: abs_goto_same)

lemma abs_reachable:
  "monitor_reachable n M \<Longrightarrow> latch_reachable n (abs_latch M)"
proof (induction rule: monitor_reachable.induct)
  case init
  show ?case
    using latch_reachable.init [of n]
    by (simp add: abs_latch_def new_LatchMonitor_def notifying_def new_CountDownLatch_def)
next
  case (step M N)
  from monitor_simulates [OF step(2) reachable_exclusive [OF step(1)]] show ?case
    using latch_reachable.step [OF step.IH, of "abs_latch N"] step.IH by (elim disjE) simp_all
qed

lemma reachable_steps: "monitor_step\<^sup>*\<^sup>* M N \<Longrightarrow> monitor_reachable n M \<Longrightarrow> monitor_reachable n N"
  by (induction rule: rtranclp_induct) (auto intro: monitor_reachable.step)

lemma abs_counter: "latch_count (fst (abs_latch M)) = counter M"
  by (simp add: abs_latch_def)

lemma reachable_monitor_inv:
  assumes "monitor_reachable n M" and "- (2 ^ 31) \<le> n" and "n < 2 ^ 31"
  shows "pcs M t = WaitDone \<Longrightarrow> counter M \<le> 0"
    and "pcs M t = Asleep \<Longrightarrow> counter M \<le> 0 \<Longrightarrow> notifying M"
proof -
  have inv: "latch_inv n (abs_latch M)" using reachable_latch_inv [OF abs_reachable [OF assms(1)] assms(2,3)] .
  show "counter M \<le> 0" if "pcs M t = WaitDone"
    using inv that by (auto simp: latch_inv_def abs_latch_def dest: spec [of _ t])
  show "notifying M" if "pcs M t = Asleep" and "counter M \<le> 0"
  proof (rule ccontr)
    assume "\<not> notifying M"
    then have "snd (abs_latch M) t = Blocked" using that(1) by (simp add: abs_latch_def)
    then have "counter M > 0" using inv by (auto simp: latch_inv_def abs_latch_def)
    then show False using that(2) by simp
  qed
qed

subsection \<open>Every waiter gets out\<close>

definition waits :: "latch_pc \<Rightarrow> bool" where
  "waits p \<longleftrightarrow> p \<in> {WaitLock, WaitTest False, WaitTest True, Asleep, WaitRelock, WaitUnlock, WaitDone}"

lemma waits_simps [simp]:
  "\<not> waits Idle" "\<not> waits DownLock" "\<not> waits Decrement" "\<not> waits DownTest" "\<not> waits DownUnlock"
  "waits WaitLock" "waits (WaitTest b)" "waits Asleep" "waits WaitRelock" "waits WaitUnlock" "waits WaitDone"
  by (cases b) (simp_all add: waits_def)

lemma monitor_step_waits: "monitor_step M N \<Longrightarrow> waits (pcs M t) \<Longrightarrow> waits (pcs N t)"
  by (induction rule: monitor_step.induct) (auto simp: condition_wait_def notifyAll_def)

lemma monitor_steps_waits: "monitor_step\<^sup>*\<^sup>* M N \<Longrightarrow> waits (pcs M t) \<Longrightarrow> waits (pcs N t)"
  by (induction rule: rtranclp_induct) (auto intro: monitor_step_waits)

text \<open>The holder of the mutex leaves its critical section once the count is used up.\<close>

definition released :: "'t LatchMonitor \<Rightarrow> bool" where
  "released M \<longleftrightarrow> (\<exists>N. monitor_step\<^sup>*\<^sup>* M N \<and> latch_mutex N = None \<and> counter N \<le> 0)"

lemma released_step: "monitor_step M M1 \<Longrightarrow> released M1 \<Longrightarrow> released M"
  unfolding released_def by (meson converse_rtranclp_into_rtranclp)

lemma released_now: "latch_mutex M = None \<Longrightarrow> counter M \<le> 0 \<Longrightarrow> released M"
  unfolding released_def by blast

lemma released_wait:
  assumes "counter M \<le> 0"
  shows "pcs M t = WaitUnlock \<Longrightarrow> released M" and "pcs M t = WaitTest b \<Longrightarrow> released M"
proof -
  have unlock: "released M" if "pcs M t = WaitUnlock" and "counter M \<le> 0" for M
    using released_step [OF monitor_step.wait_unlock [OF that(1)] released_now] that(2) by (simp add: mutex_unlock_def)
  then show "pcs M t = WaitUnlock \<Longrightarrow> released M" using assms by blast
  show "released M" if "pcs M t = WaitTest b"
    using released_step [OF monitor_step.wait_leave [OF that] unlock] assms by simp
qed

lemma released_down:
  assumes "counter M \<le> 0"
  shows "pcs M t = DownUnlock \<Longrightarrow> released M" and "pcs M t = DownTest \<Longrightarrow> released M"
    and "pcs M t = Decrement \<Longrightarrow> counter M > - (2 ^ 31) \<Longrightarrow> released M"
proof -
  have unlock: "released M" if "pcs M t = DownUnlock" and "counter M \<le> 0" for M
    using released_step [OF monitor_step.down_unlock [OF that(1)] released_now] that(2) by (simp add: mutex_unlock_def)
  have test: "released M" if "pcs M t = DownTest" and "counter M \<le> 0" for M
  proof (cases "counter M = 0")
    case True
    show ?thesis using released_step [OF monitor_step.notify [OF that(1) True] unlock] that(2) by (simp add: notifyAll_def)
  next
    case False
    show ?thesis using released_step [OF monitor_step.no_notify [OF that(1) False] unlock] that(2) by simp
  qed
  show "pcs M t = DownUnlock \<Longrightarrow> released M" "pcs M t = DownTest \<Longrightarrow> released M" using unlock test assms by blast+
  show "released M" if "pcs M t = Decrement" and "counter M > - (2 ^ 31)"
  proof -
    have "c_int (counter M - 1) = counter M - 1" using assms that(2) by (intro c_int_id) simp_all
    then show ?thesis using released_step [OF monitor_step.decrement [OF that] test] assms by simp
  qed
qed

lemma holder_releases:
  assumes "exclusive M" and "counter M \<le> 0" and "counter M > - (2 ^ 31)"
  shows "released M"
proof (cases "latch_mutex M")
  case None
  then show ?thesis using assms(2) by (rule released_now)
next
  case (Some u)
  then have "inside (pcs M u)" using assms(1) by (simp add: exclusive_def)
  then show ?thesis
    using released_wait [OF assms(2), of u] released_down [OF assms(2), of u] assms(3) by (cases "pcs M u") simp_all
qed

text \<open>With the mutex free and the count used up, a thread in \<open>wait\<close> that is not asleep goes straight through.\<close>

lemma goes_through:
  assumes "exclusive M" and "latch_mutex M = None" and "counter M \<le> 0" and "waits (pcs M t)" and "pcs M t \<noteq> Asleep"
  shows "\<exists>N. monitor_step\<^sup>*\<^sup>* M N \<and> pcs N t = WaitDone"
proof (cases "pcs M t = WaitDone")
  case False
  have lock: "mutex_lock t (latch_mutex M) = Some (Some t)" using assms(2) by (simp add: mutex_lock_def)
  have "\<not> inside (pcs M t)" using assms(1,2) by (simp add: exclusive_def)
  then have "pcs M t = WaitLock \<or> pcs M t = WaitRelock" using assms(4,5) False by (cases "pcs M t") simp_all
  then obtain b where 1: "monitor_step M (goto t (WaitTest b) (M\<lparr>latch_mutex := Some t\<rparr>))" (is "monitor_step M ?M1")
    using monitor_step.wait_lock [OF _ lock] monitor_step.wait_relock [OF _ lock] by blast
  have 2: "monitor_step ?M1 (goto t WaitUnlock ?M1)" using monitor_step.wait_leave [of ?M1 t b] assms(3) by simp
  have 3: "monitor_step (goto t WaitUnlock ?M1) (goto t WaitDone ((goto t WaitUnlock ?M1)\<lparr>latch_mutex := mutex_unlock (Some t)\<rparr>))"
    using monitor_step.wait_unlock [of "goto t WaitUnlock ?M1" t] by simp
  have "monitor_step\<^sup>*\<^sup>* M (goto t WaitDone ((goto t WaitUnlock ?M1)\<lparr>latch_mutex := mutex_unlock (Some t)\<rparr>))"
    using 1 2 3 by (meson rtranclp.rtrancl_into_rtrancl rtranclp.rtrancl_refl)
  then show ?thesis by (metis fun_upd_same goto_frame(1))
qed blast

lemma waiter_gets_out:
  assumes reach: "monitor_reachable n M" and n: "- (2 ^ 31) \<le> n" "n < 2 ^ 31"
    and "counter M \<le> 0" and "counter M > - (2 ^ 31)" and "waits (pcs M t)"
  shows "\<exists>N. monitor_step\<^sup>*\<^sup>* M N \<and> pcs N t = WaitDone"
proof -
  obtain K where K: "monitor_step\<^sup>*\<^sup>* M K" "latch_mutex K = None" "counter K \<le> 0"
    using holder_releases [OF reachable_exclusive [OF reach] assms(4,5)] unfolding released_def by blast
  have rK: "monitor_reachable n K" using reachable_steps [OF K(1) reach] .
  have ex: "exclusive K" using reachable_exclusive [OF rK] .
  then have "\<not> inside (pcs K u)" for u using K(2) by (simp add: exclusive_def)
  then have "\<not> notifying K" unfolding notifying_def by (metis inside_simps(10))
  then have "pcs K t \<noteq> Asleep" using reachable_monitor_inv(2) [OF rK n, of t] K(3) by blast
  then obtain N where "monitor_step\<^sup>*\<^sup>* K N" "pcs N t = WaitDone"
    using goes_through [OF ex K(2,3) monitor_steps_waits [OF K(1) assms(6)]] by blast
  then show ?thesis using K(1) by (meson rtranclp_trans)
qed

text \<open>
  C34: The latch as it is written, with its mutex and its condition, refines the latch with one step per critical
  section, for any interleaving of any threads: at most one thread is between \<open>lock\<close> and \<open>unlock\<close>, every
  reachable state stands for a reachable one of the simple latch, a thread returns from \<open>wait\<close> only with the count
  used up, and as soon as it is used up every thread in \<open>wait\<close> can return; after the notification of the
  last \<open>countDown\<close> none of them is asleep any more.
\<close>

theorem latch_monitor_refines:
  assumes "monitor_reachable n M" and "- (2 ^ 31) \<le> n" and "n < 2 ^ 31"
  shows "latch_reachable n (abs_latch M) \<and>
    (\<forall>t u. inside (pcs M t) \<and> inside (pcs M u) \<longrightarrow> t = u) \<and>
    (pcs M t = WaitDone \<longrightarrow> counter M \<le> 0) \<and>
    (counter M \<le> 0 \<longrightarrow> pcs M t = Asleep \<longrightarrow> (\<exists>u. pcs M u = DownTest)) \<and>
    (counter M \<le> 0 \<and> counter M > - (2 ^ 31) \<and> waits (pcs M t) \<longrightarrow> (\<exists>N. monitor_step\<^sup>*\<^sup>* M N \<and> pcs N t = WaitDone))"
proof (intro conjI allI impI)
  show "latch_reachable n (abs_latch M)" using assms(1) by (rule abs_reachable)
  show "v = u" if "inside (pcs M v) \<and> inside (pcs M u)" for v u
    using exclusiveD [OF reachable_exclusive [OF assms(1)]] that by blast
  show "counter M \<le> 0" if "pcs M t = WaitDone" using reachable_monitor_inv(1) [OF assms that] .
  show "\<exists>u. pcs M u = DownTest" if "counter M \<le> 0" and "pcs M t = Asleep"
    using reachable_monitor_inv(2) [OF assms that(2,1)] by (auto simp: notifying_def)
  show "\<exists>N. monitor_step\<^sup>*\<^sup>* M N \<and> pcs N t = WaitDone"
    if "counter M \<le> 0 \<and> counter M > - (2 ^ 31) \<and> waits (pcs M t)"
    using waiter_gets_out [OF assms, of t] that by blast
qed

lemma latch_monitor_refines_witness:
  "\<exists>N. monitor_step\<^sup>*\<^sup>* (goto (0 :: nat) WaitLock (new_LatchMonitor 0)) N \<and> pcs N 0 = WaitDone"
proof -
  have "monitor_step (new_LatchMonitor 0) (goto (0 :: nat) WaitLock (new_LatchMonitor 0))"
    by (rule monitor_step.call_wait) (simp add: new_LatchMonitor_def)
  from monitor_reachable.step [OF monitor_reachable.init this]
  have "monitor_reachable 0 (goto (0 :: nat) WaitLock (new_LatchMonitor 0))" .
  from latch_monitor_refines [OF this, of 0] show ?thesis by (simp add: new_LatchMonitor_def)
qed

end
