(* ===== verification/Test_Programs.thy ===== *)
theory Test_Programs
  imports Net_LoopThread Net_Accepter
begin

text \<open>
  The programs of \<^verbatim>\<open>Test/\<close> that try one part of the library each: a timer on a bare loop
  (\<^verbatim>\<open>testReactor.cc\<close>), two acceptors (\<^verbatim>\<open>testAccept.cc\<close>), functors from another thread (\<^verbatim>\<open>testRuninloop.cc\<close>),
  the latch (\<^verbatim>\<open>testLatch.cc\<close>), a thread that is not joined (\<^verbatim>\<open>testThread.cc\<close>). What they print is left out.
\<close>

subsection \<open>\<^verbatim>\<open>testReactor.cc\<close>\<close>

datatype reactor_cb = Timeout

text \<open>\<open>timeout\<close>: every callback of the channel is that one.\<close>

definition timeout :: "(reactor_cb, 't) invocation \<Rightarrow> 'f EventLoop \<Rightarrow> 'f EventLoop" where
  "timeout i L = quit True L"

definition reactor_channel :: "nat \<Rightarrow> int \<Rightarrow> Epoller \<Rightarrow> reactor_cb Channel \<times> Epoller" where
  "reactor_channel p timerfd0 ep = enableReading (setReadCallBack Timeout (new_Channel p timerfd0)) ep"

text \<open>One poll that reports the channel with the events \<open>r\<close> at the time \<open>t\<close>.\<close>

definition reactor_dispatch :: "reactor_cb Channel \<Rightarrow> 't \<times> 32 word \<Rightarrow> 'f EventLoop \<Rightarrow> 'f EventLoop" where
  "reactor_dispatch ch tr L = fold timeout (handleEvent (fst tr) (ch\<lparr>revents := snd tr\<rparr>)) L"

definition reactor_main :: "nat \<Rightarrow> int \<Rightarrow> Epoller \<Rightarrow> ('t \<times> 32 word) list \<Rightarrow> unit EventLoop option" where
  "reactor_main p timerfd0 ep polls =
     (let (ch, ep1) = reactor_channel p timerfd0 ep
      in loop (\<lambda>_ L. L) (map (reactor_dispatch ch) polls) new_EventLoop)"

text \<open>\<open>readable\<close>: the mask makes \<open>handleEvent\<close> call the read callback.\<close>

definition readable :: "32 word \<Rightarrow> bool" where
  "readable r \<longleftrightarrow> bit r 0 \<or> bit r 1"

lemma reactor_dispatch_quits:
  assumes "readEventCallBack ch = Some Timeout" and "writeEventCallBack ch = None" and "closeEventCallBack ch = None"
  shows "reactor_dispatch ch (t, r) L = (if readable r then quit True L else L)"
  using assms by (simp add: reactor_dispatch_def handleEvent_bits option_list_def readable_def timeout_def)

lemma reactor_loop_body:
  assumes "\<And>t r L. h (t, r) L = (if readable r then quit True L else L)" and "\<not> quitting L" and "pendingFunctors L = []"
  shows "loop_body (\<lambda>_ L. L) (map h polls) L \<noteq> None \<longleftrightarrow> (\<exists>(t, r) \<in> set polls. readable r)"
  using assms(2,3)
proof (induction polls arbitrary: L)
  case (Cons x polls)
  obtain t r where x: "x = (t, r)" by (cases x)
  let ?K = "doPendingFunctors (\<lambda>_ L. L) (h x L)"
  have K: "quitting ?K \<longleftrightarrow> readable r" "pendingFunctors ?K = []"
    using Cons.prems assms(1) by (simp_all add: x doPendingFunctors_def begin_pending_def end_pending_def quit_def Let_def)
  show ?case
  proof (cases "readable r")
    case True
    have "loop_body (\<lambda>_ L. L) (map h polls) ?K = Some ?K" using K(1) True by (cases polls) simp_all
    then show ?thesis using Cons.prems True by (auto simp: x)
  next
    case False
    then show ?thesis using Cons.IH [of ?K] Cons.prems K by (auto simp: x)
  qed
qed simp

lemma reactor_channel_callbacks:
  "reactor_channel p f ep = (ch, ep1) \<Longrightarrow>
     readEventCallBack ch = Some Timeout \<and> writeEventCallBack ch = None \<and> closeEventCallBack ch = None"
  by (auto simp: reactor_channel_def enableReading_def updateChannel_def Let_def setReadCallBack_def new_Channel_def
      split: if_splits)

text \<open>\<open>main\<close> returns exactly when a poll reports the timer as readable.\<close>

theorem reactor_main_ends:
  "reactor_main p f ep polls \<noteq> None \<longleftrightarrow> (\<exists>(t, r) \<in> set polls. readable r)"
proof -
  obtain ch ep1 where ch: "reactor_channel p f ep = (ch, ep1)" by fastforce
  let ?L = "(new_EventLoop :: unit EventLoop)\<lparr>looping := True, quitting := False\<rparr>"
  have "loop_body (\<lambda>_ L. L) (map (reactor_dispatch ch) polls) ?L \<noteq> None \<longleftrightarrow> (\<exists>(t, r) \<in> set polls. readable r)"
    using reactor_channel_callbacks [OF ch]
    by (intro reactor_loop_body) (simp_all add: reactor_dispatch_quits new_EventLoop_def)
  then show ?thesis by (simp add: reactor_main_def ch loop_def)
qed

subsection \<open>\<^verbatim>\<open>testAccept.cc\<close>\<close>

datatype socket_call = WriteTo int bytes | CloseFd int

text \<open>The two callbacks.\<close>

definition accept_you :: "int \<Rightarrow> InetAddress \<Rightarrow> socket_call list \<Rightarrow> fault + socket_call list" where
  "accept_you connfd peeraddr w = Inr (w @ [WriteTo connfd (take 13 (''How are you?'' @ [CHR 0x0A])), CloseFd connfd])"

definition accept_mee :: "int \<Rightarrow> InetAddress \<Rightarrow> socket_call list \<Rightarrow> fault + socket_call list" where
  "accept_mee connfd peeraddr w = Inr (w @ [WriteTo connfd (take 13 (''How are mee?'' @ [CHR 0x0A])), CloseFd connfd])"

text \<open>\<open>main\<close> up to the loop: two acceptors at \<open>p\<close> and \<open>p2\<close> with the listening sockets \<open>f\<close> and \<open>f2\<close>.\<close>

definition accept_main :: "nat \<Rightarrow> int \<Rightarrow> nat \<Rightarrow> int \<Rightarrow> Epoller \<Rightarrow> Accepter \<times> Accepter \<times> Epoller" where
  "accept_main p f p2 f2 ep =
     (let (acctor2, ep1) = accepter_listen (new_Accepter p2 f2) ep;
          (acctor, ep2) = accepter_listen (new_Accepter p f) ep1
      in (acctor, acctor2, ep2))"

text \<open>Both acceptors listen on the one loop; each greets and closes what it accepts, and a failed \<open>accept\<close> does nothing.\<close>

theorem accept_main_serves:
  assumes "interest ep = Some K" and "K f = None" and "K f2 = None" and "f \<noteq> f2"
    and "accept_main p f p2 f2 ep = (acctor, acctor2, ep')"
  shows "interest ep' = Some (K(f2 \<mapsto> (kReadEvent, p2), f \<mapsto> (kReadEvent, p))) \<and> listening acctor \<and> listening acctor2 \<and>
    NewConnection (Some accept_you) close r clientAddr w =
      Inr (if fst r \<ge> 0 then w @ [WriteTo (fst r) (''How are you?'' @ [CHR 0x0A]), CloseFd (fst r)] else w) \<and>
    NewConnection (Some accept_mee) close r clientAddr w =
      Inr (if fst r \<ge> 0 then w @ [WriteTo (fst r) (''How are mee?'' @ [CHR 0x0A]), CloseFd (fst r)] else w)"
proof -
  obtain ep1 where ep1: "accepter_listen (new_Accepter p2 f2) ep = (acctor2, ep1)"
    "accepter_listen (new_Accepter p f) ep1 = (acctor, ep')"
    using assms(5) by (auto simp: accept_main_def split: prod.splits)
  have one: "listening acctor2 \<and> interest ep1 = Some (K(f2 \<mapsto> (kReadEvent, p2)))"
    using accepter_listen_registers [OF assms(1,3) ep1(1)] .
  have "(K(f2 \<mapsto> (kReadEvent, p2))) f = None" using assms(2,4) by simp
  have two: "listening acctor \<and> interest ep' = Some (K(f2 \<mapsto> (kReadEvent, p2), f \<mapsto> (kReadEvent, p)))"
    by (rule accepter_listen_registers [OF conjunct2 [OF one] \<open>(K(f2 \<mapsto> (kReadEvent, p2))) f = None\<close> ep1(2)])
  then show ?thesis using one
    by (simp del: fun_upd_apply add: NewConnection_def socket_accept_def accept_you_def accept_mee_def Let_def)
qed

subsection \<open>\<^verbatim>\<open>testRuninloop.cc\<close>\<close>

text \<open>What \<open>main\<close> does with the loop of the other thread, between its sleeps.\<close>

definition runinloop_main :: "('f \<Rightarrow> 'f EventLoop \<Rightarrow> 'f EventLoop) \<Rightarrow> 'f \<Rightarrow> 'f EventLoop \<Rightarrow> 'f EventLoop" where
  "runinloop_main run runInthread L = quit False (runInLoop False run runInthread (runInLoop False run runInthread L))"

text \<open>Without the sleeps nothing makes the loop run the functors: it is woken, but the \<open>quit\<close> is seen first.\<close>

lemma runinloop_main_queues:
  "pendingFunctors (runinloop_main run f L) = pendingFunctors L @ [f, f] \<and> quitting (runinloop_main run f L) \<and>
   wakeupFd (runinloop_main run f L) = wakeupFd L + 3 \<and>
   loop_body run hs (runinloop_main run f L) = Some (runinloop_main run f L)"
proof -
  have "quitting (runinloop_main run f L)" by (simp add: runinloop_main_def quit_def wakeup_def Let_def)
  then show ?thesis
    by (cases hs) (simp_all add: runinloop_main_def runInLoop_def quit_def wakeup_def Let_def)
qed

text \<open>In the interleaved system: a loop may stop with a functor that was queued before the \<open>quit\<close>.\<close>

lemma functor_before_quit_may_be_lost:
  "\<exists>S. loop_reachable spawn S \<and> phase S = Stopped \<and> queued S = [f] \<and> executed S = [] \<and> pendingFunctors (lp S) = [f]"
proof -
  have 1: "loop_reachable spawn (init_System\<lparr>phase := Handle False\<rparr>)" (is "loop_reachable _ ?S1")
    using loop_reachable.step [OF loop_reachable.start loop_step.poll_returns]
    by (simp add: init_System_def new_EventLoop_def)
  obtain fs L where L: "begin_pending (lp ?S1) = (fs, L)" by fastforce
  then have fs: "fs = []" and LL: "pendingFunctors L = []" "executed ?S1 = []" "queued ?S1 = []"
    by (auto simp: begin_pending_def init_System_def new_EventLoop_def)
  have 2: "loop_reachable spawn (?S1\<lparr>lp := L, phase := Run []\<rparr>)" (is "loop_reachable _ ?S2")
    using loop_reachable.step [OF 1 loop_step.begin_functors [OF _ L]] fs by simp
  let ?S3 = "?S2\<lparr>lp := push_functor f (lp ?S2), inflight := inflight ?S2 + 1, queued := queued ?S2 @ [f]\<rparr>"
  let ?S4 = "?S3\<lparr>lp := (lp ?S3)\<lparr>quitting := True\<rparr>, inflight := inflight ?S3 + 1\<rparr>"
  let ?S5 = "?S4\<lparr>lp := end_pending (lp ?S4), phase := (if quitting (lp ?S4) then Stopped else Poll)\<rparr>"
  have 3: "loop_reachable spawn ?S3" using loop_reachable.step [OF 2 loop_step.remote_push] .
  have 4: "loop_reachable spawn ?S4" using loop_reachable.step [OF 3 loop_step.remote_quit] .
  have "phase ?S4 = Run []" by simp
  from loop_reachable.step [OF 4 loop_step.end_functors [OF this]] have 5: "loop_reachable spawn ?S5" .
  have "phase ?S5 = Stopped \<and> queued ?S5 = [f] \<and> executed ?S5 = [] \<and> pendingFunctors (lp ?S5) = [f]"
    using LL by (simp add: push_functor_def end_pending_def)
  with 5 show ?thesis by blast
qed

subsection \<open>\<^verbatim>\<open>testLatch.cc\<close> and \<^verbatim>\<open>testThread.cc\<close>\<close>

text \<open>One thread counts down and then waits.\<close>

definition latch_main :: "CountDownLatch \<times> wait_state" where
  "latch_main =
     (let (latch, ws) = countDown (new_CountDownLatch 1, (\<lambda>_ :: unit. Outside)) in (latch, latch_test latch))"

lemma latch_main_ends: "latch_main = (\<lparr>latch_count = 0\<rparr>, Passed)"
  by (simp add: latch_main_def countDown_def new_CountDownLatch_def latch_test_def c_int_def Let_def)

text \<open>The thread at the end of \<open>main\<close>: the destructor detaches it, so the program may end before it has run.\<close>

definition thread_main :: Thread where
  "thread_main = thread_start (new_Thread (''Current Name'' @ [CHR 0x0A]))"

lemma thread_main_detaches: "thread_detaches thread_main"
  by (simp add: thread_main_def thread_start_def thread_detaches_def new_Thread_def setDefaultName_def)

end
