(* ===== verification/Net_Local.thy ===== *)
theory Net_Local
  imports Net_Handler
begin

text \<open>
  What an operation of one connection (\<^verbatim>\<open>Net/TcpConnection.cc\<close>) does to the poller that it shares with the other
  channels of its loop: it changes the entry of its own descriptor and no other. \<open>local_op\<close> states that of a connection before
  and after, and \<open>local_handler\<close> asks it of a message callback.
\<close>

subsection \<open>Two pollers that agree on a descriptor\<close>

definition agree :: "int \<Rightarrow> Epoller \<Rightarrow> Epoller \<Rightarrow> bool" where
  "agree f ep ep' \<longleftrightarrow> (\<exists>K K'. interest ep = Some K \<and> interest ep' = Some K' \<and> K' f = K f)"

lemma agree_refl: "interest ep = Some K \<Longrightarrow> agree f ep ep"
  by (simp add: agree_def)

lemma agree_trans [trans]: "agree f a b \<Longrightarrow> agree f b c \<Longrightarrow> agree f a c"
  by (auto simp: agree_def)

lemma agree_poll_inv: "agree (fd ch) ep ep' \<Longrightarrow> poll_inv ch ep \<Longrightarrow> poll_inv ch ep'"
  by (auto simp: agree_def poll_inv_def registered_as_def)

lemma agree_interest: "agree f ep ep' \<Longrightarrow> interest ep = Some K \<Longrightarrow> interest ep' = Some K' \<Longrightarrow> K' f = K f"
  by (simp add: agree_def)

lemma channel_step_agree:
  assumes "poll_inv ch ep" and "channel_step op ch ep = (ch', ep')" and "f \<noteq> fd ch"
  shows "agree f ep ep'"
proof -
  obtain K where K: "interest ep = Some K" "registered_as K ch" using assms(1) unfolding poll_inv_def by blast
  from netpoll.op_law [OF this assms(2) [unfolded channel_step_run_op]] K(1) assms(3) show ?thesis
    by (simp add: agree_def)
qed

subsection \<open>Operations of one connection\<close>

definition local_op :: "TcpConnection \<Rightarrow> TcpConnection \<Rightarrow> bool" where
  "local_op c c' \<longleftrightarrow> conn_name c' = conn_name c \<and> fd (channel c') = fd (channel c) \<and> this (channel c') = this (channel c) \<and>
     (conn_poll c \<longrightarrow> conn_poll c' \<and> (\<forall>f. f \<noteq> fd (channel c) \<longrightarrow> agree f (poller_of c) (poller_of c')))"

lemma local_opD:
  assumes "local_op c c'"
  shows "conn_name c' = conn_name c" "fd (channel c') = fd (channel c)" "this (channel c') = this (channel c)"
    "conn_poll c \<Longrightarrow> conn_poll c'" "conn_poll c \<Longrightarrow> f \<noteq> fd (channel c) \<Longrightarrow> agree f (poller_of c) (poller_of c')"
  using assms by (simp_all add: local_op_def)

lemma local_trans [trans]: "local_op a b \<Longrightarrow> local_op b c \<Longrightarrow> local_op a c"
  unfolding local_op_def by (metis agree_trans)

text \<open>What does not call the poller.\<close>

lemma local_same:
  assumes "conn_name c' = conn_name c" and "channel c' = channel c" and "poller_of c' = poller_of c"
  shows "local_op c c'"
  using assms by (auto simp: local_op_def conn_poll_def poll_inv_def agree_def)

lemma local_on_channel: "local_op c (on_channel op c)"
proof -
  obtain ch ep where s: "channel_step op (channel c) (poller_of c) = (ch, ep)" by fastforce
  have new: "channel (on_channel op c) = ch" "poller_of (on_channel op c) = ep" by (simp_all add: on_channel_def s)
  have "fd ch = fd (channel c) \<and> this ch = this (channel c)"
    using s by (cases op) (auto simp: channel_step_run_op run_op_def updateChannel_def removeChannel_def Let_def split: if_splits)
  then show ?thesis
    using poll_inv_step(1) [OF _ s] channel_step_agree [OF _ s] by (simp add: local_op_def conn_poll_def new)
qed

lemma local_updates [simp]:
  "local_op c (c\<lparr>conn_state := st\<rparr>)" "local_op c (c\<lparr>inputBuffer := b\<rparr>)" "local_op c (c\<lparr>outputBuffer := b\<rparr>)"
  "local_op c (c\<lparr>timestamp := t\<rparr>)" "local_op c (c\<lparr>http_content := hc\<rparr>)" "local_op c (kernel_write w d c)"
  "local_op c (shutdownInloop c)" "local_op c c"
  by (rule local_same; simp add: kernel_write_def shutdownInloop_def)+

lemma local_then_channel: "local_op c c1 \<Longrightarrow> local_op c (on_channel op c1)"
  using local_trans local_on_channel by blast

lemma local_send: "send w m c = Inr c' \<Longrightarrow> local_op c c'"
proof -
  have rest: "send_rest m k r c1 = Inr c' \<Longrightarrow> local_op c c1 \<Longrightarrow> local_op c c'" for k r c1
    using local_trans [OF _ local_updates(3)] local_then_channel
    by (fastforce simp: send_rest_def Let_def split: if_splits)
  show "send w m c = Inr c' \<Longrightarrow> local_op c c'"
    using rest local_updates(6,8) by (auto simp: send_eq split: if_splits)
qed

lemma local_shutdown: "local_op c (shutdown t c)"
  by (rule local_same) (simp_all add: shutdown_def shutdownInloop_def Let_def)

lemma local_handleWrite: "local_op c (handleWrite w c)"
proof -
  let ?c2 = "\<lambda>n d b. (kernel_write n d c)\<lparr>outputBuffer := b\<rparr>"
  have 2: "local_op c (?c2 n d b)" for n d b using local_trans [OF local_updates(6,3)] .
  then have "local_op c (on_channel DisableWriting (?c2 n d b))"
    "local_op c (shutdownInloop (on_channel DisableWriting (?c2 n d b)))" for n d b
    using local_then_channel local_trans [OF local_then_channel local_updates(7)] by blast+
  then show ?thesis using 2 by (simp add: handleWrite_def Let_def)
qed

lemma local_close: "handleClose quiet quiet c = Inr c' \<Longrightarrow> local_op c c'"
  using local_then_channel [OF local_updates(1)] by (auto simp: handleClose_quiet)

lemma local_handleRead: "conn_handleRead readv n quiet quiet quiet c = Inr c' \<Longrightarrow> local_op c c'"
  using local_trans [OF local_updates(2) local_close]
  by (auto simp: conn_handleRead_def Let_def call_def handleError_def split: sum.splits if_splits)

lemma local_establish: "connectEstablished quiet c = Inr c' \<Longrightarrow> local_op c c'"
  using local_then_channel [OF local_updates(1)] by (auto simp: connectEstablished_def call_def)

lemma local_run_queued: "local_op c (run_queued c)"
proof (rule local_same)
  have name: "conn_name (fold run_conn_functor fs a) = conn_name a" for fs a
  proof (induction fs arbitrary: a)
    case (Cons f fs)
    then show ?case by (cases f) (simp add: shutdownInloop_def)
  qed simp
  show "conn_name (run_queued c) = conn_name c" "channel (run_queued c) = channel c" "poller_of (run_queued c) = poller_of c"
    by (simp_all add: run_queued_def name fold_functors_fields split: prod.split)
qed

text \<open>Once it is out of the poller, a connection has no entry.\<close>

lemma removed_entry: "conn_poll c \<Longrightarrow> entry (channel (on_channel Remove c)) = None"
proof -
  assume "conn_poll c"
  then obtain K where K: "interest (poller_of c) = Some K" "registered_as K (channel c)"
    unfolding conn_poll_def poll_inv_def by blast
  obtain ch ep where s: "removeChannel (channel c) (poller_of c) = (ch, ep)" by fastforce
  have "ch = (channel c)\<lparr>index := kNew\<rparr>" using removeChannel_law [OF K s] by blast
  then show ?thesis
    by (simp add: on_channel_def channel_step_def remove_def s entry_def kNew_def kAdded_def)
qed

subsection \<open>Callbacks that keep to their connection\<close>

locale local_handler = message_handler +
  assumes handle_local: "handle t w c = Some (Inr c') \<Longrightarrow> local_op c c'"

end
