(* ===== verification/Net_Serving.thy ===== *)
theory Net_Serving
  imports Net_TcpServer Net_Local
begin

text \<open>
  A server at work: the threads of \<open>Net_TcpServer\<close> (accepting, queued functors, closings) together with the events of all its
  connections, which share the pollers of their loops, and a message callback that parses and answers
  (\<^verbatim>\<open>Net/TcpServer.cc\<close>, \<^verbatim>\<open>Net/TcpConnection.cc\<close>). In \<open>Net_Handler\<close> a connection is alone with its poller.
\<close>

subsection \<open>State and steps\<close>

text \<open>
  \<open>answers h\<close> are the replies on connection \<open>h\<close> whose write did not fail; \<open>failed\<close> is the fault of a callback, which ends
  the program; \<open>stuck\<close> says that a callback did not return. \<open>read_fault\<close> is the fault of a read whose \<open>readv\<close> failed, for
  example because the client reset the connection; it also ends the program.
\<close>

record Serving =
  world :: World
  answers :: "nat \<Rightarrow> bytes"
  failed :: "fault option"
  stuck :: bool
  read_fault :: "fault option"

definition up :: "Serving \<Rightarrow> bool" where
  "up S \<longleftrightarrow> failed S = None \<and> \<not> stuck S \<and> read_fault S = None"

text \<open>Connection \<open>h\<close> with the poller of its loop, and the world after it has become \<open>c\<close>.\<close>

definition conn_at :: "World \<Rightarrow> nat \<Rightarrow> TcpConnection" where
  "conn_at W h = (tcp (objs W ! h))\<lparr>poller_of := pollers W (ioLoop (objs W ! h))\<rparr>"

definition put :: "nat \<Rightarrow> TcpConnection \<Rightarrow> World \<Rightarrow> World" where
  "put h c W = W\<lparr>objs := (objs W)[h := (objs W ! h)\<lparr>tcp := c\<rparr>],
     pollers := (pollers W)(ioLoop (objs W ! h) := poller_of c)\<rparr>"

lemma on_conn_put: "on_conn f h W = (case f (conn_at W h) of Inl e \<Rightarrow> Inl e | Inr c \<Rightarrow> Inr (put h c W))"
  by (simp add: on_conn_def conn_at_def put_def Let_def split: sum.split)

text \<open>An object that is not released keeps its descriptor open; so does the acceptor.\<close>

definition served :: "World \<Rightarrow> nat \<Rightarrow> bool" where
  "served W h \<longleftrightarrow> h < length (objs W) \<and> \<not> released (objs W ! h)"

definition conn_fd :: "World \<Rightarrow> nat \<Rightarrow> int" where
  "conn_fd W h = fd (channel (tcp (objs W ! h)))"

definition accept_fd :: "World \<Rightarrow> int" where
  "accept_fd W = fd (acceptChannel (accepter (server W)))"

text \<open>The kernel gives a new connection a descriptor that is not open.\<close>

definition fresh_fds :: "World \<Rightarrow> World \<Rightarrow> bool" where
  "fresh_fds W W' \<longleftrightarrow> (\<forall>k < length (objs W'). length (objs W) \<le> k \<longrightarrow>
     conn_fd W' k \<noteq> accept_fd W \<and> (\<forall>h. served W h \<longrightarrow> conn_fd W' k \<noteq> conn_fd W h))"

inductive serving_step ::
  "(TimeStamp \<Rightarrow> int \<Rightarrow> TcpConnection \<Rightarrow> (fault + TcpConnection) option) \<Rightarrow> (TcpConnection \<Rightarrow> bytes) \<Rightarrow> (nat \<Rightarrow> nat) \<Rightarrow>
   Serving \<Rightarrow> Serving \<Rightarrow> bool" for handle reply startLoop where
  control: "up S \<Longrightarrow> server_step startLoop (world S) W' \<Longrightarrow> fresh_fds (world S) W' \<Longrightarrow>
    serving_step handle reply startLoop S (S\<lparr>world := W'\<rparr>)"
| message: "up S \<Longrightarrow> h < length (objs (world S)) \<Longrightarrow> active (conn_at (world S) h) \<Longrightarrow>
    read_event readv data n (conn_at (world S) h) c1 \<Longrightarrow> 0 < n \<Longrightarrow> write_ok w (length (reply c1)) c1 \<Longrightarrow>
    handle t w c1 = Some (Inr c2) \<Longrightarrow>
    serving_step handle reply startLoop S (S\<lparr>world := put h c2 (world S),
      answers := (answers S)(h := answers S h @ kept w c1 (reply c1))\<rparr>)"
| throws: "up S \<Longrightarrow> h < length (objs (world S)) \<Longrightarrow> active (conn_at (world S) h) \<Longrightarrow>
    read_event readv data n (conn_at (world S) h) c1 \<Longrightarrow> 0 < n \<Longrightarrow> write_ok w (length (reply c1)) c1 \<Longrightarrow>
    handle t w c1 = Some (Inl f) \<Longrightarrow> serving_step handle reply startLoop S (S\<lparr>failed := Some f\<rparr>)"
| hangs: "up S \<Longrightarrow> h < length (objs (world S)) \<Longrightarrow> active (conn_at (world S) h) \<Longrightarrow>
    read_event readv data n (conn_at (world S) h) c1 \<Longrightarrow> 0 < n \<Longrightarrow> write_ok w (length (reply c1)) c1 \<Longrightarrow>
    handle t w c1 = None \<Longrightarrow> serving_step handle reply startLoop S (S\<lparr>stuck := True\<rparr>)"
| read_error: "up S \<Longrightarrow> h < length (objs (world S)) \<Longrightarrow> active (conn_at (world S) h) \<Longrightarrow>
    read_event readv data n (conn_at (world S) h) c1 \<Longrightarrow> n < 0 \<Longrightarrow>
    serving_step handle reply startLoop S (S\<lparr>world := put h c1 (world S)\<rparr>)"
| read_fails: "up S \<Longrightarrow> h < length (objs (world S)) \<Longrightarrow> active (conn_at (world S) h) \<Longrightarrow>
    readv (readFd_capacity (inputBuffer (conn_at (world S) h))) = (- 1, data) \<Longrightarrow>
    conn_handleRead readv n quiet quiet quiet (conn_at (world S) h) = Inl f \<Longrightarrow>
    serving_step handle reply startLoop S (S\<lparr>read_fault := Some f\<rparr>)"
| end_of_file: "up S \<Longrightarrow> h < length (objs (world S)) \<Longrightarrow> active (conn_at (world S) h) \<Longrightarrow>
    read_event readv data 0 (conn_at (world S) h) c1 \<Longrightarrow>
    removeConnection (Some Inr) (ioLoop (objs (world S) ! h)) h (put h c1 (world S)) = Inr W' \<Longrightarrow>
    serving_step handle reply startLoop S (S\<lparr>world := W'\<rparr>)"
| writable: "up S \<Longrightarrow> h < length (objs (world S)) \<Longrightarrow> active (conn_at (world S) h) \<Longrightarrow>
    write_ok w (readableBytes (outputBuffer (conn_at (world S) h))) (conn_at (world S) h) \<Longrightarrow>
    serving_step handle reply startLoop S (S\<lparr>world := put h (handleWrite w (conn_at (world S) h)) (world S)\<rparr>)"
| functors: "up S \<Longrightarrow> served (world S) h \<Longrightarrow> conn_state (conn_at (world S) h) \<noteq> kConnecting \<Longrightarrow>
    serving_step handle reply startLoop S (S\<lparr>world := put h (run_queued (conn_at (world S) h)) (world S)\<rparr>)"

inductive serving_reachable ::
  "(TimeStamp \<Rightarrow> int \<Rightarrow> TcpConnection \<Rightarrow> (fault + TcpConnection) option) \<Rightarrow> (TcpConnection \<Rightarrow> bytes) \<Rightarrow> (nat \<Rightarrow> nat) \<Rightarrow>
   Serving \<Rightarrow> bool" for handle reply startLoop where
  init: "setThreadNum n (new_TcpServer l (new_Accepter p f) nm) = Inr s \<Longrightarrow>
    serving_reachable handle reply startLoop
      \<lparr>world = init_World s, answers = (\<lambda>_. []), failed = None, stuck = False, read_fault = None\<rparr>"
| step: "serving_reachable handle reply startLoop S \<Longrightarrow> serving_step handle reply startLoop S T \<Longrightarrow>
    serving_reachable handle reply startLoop T"

subsection \<open>The pollers of the loops\<close>

text \<open>
  The entries in the kernel lists are those of channels that are alive, in the list of their own loop; the
  acceptor's is in the list of the server's loop.
\<close>

definition poller_inv :: "World \<Rightarrow> bool" where
  "poller_inv W \<longleftrightarrow>
     (\<forall>l. \<exists>K. interest (pollers W l) = Some K \<and>
        (\<forall>f. K f \<noteq> None \<longrightarrow> (\<exists>h. served W h \<and> ioLoop (objs W ! h) = l \<and> conn_fd W h = f) \<or>
           l = srv_loop (server W) \<and> f = accept_fd W)) \<and>
     (\<forall>h. served W h \<longrightarrow> conn_fd W h \<noteq> accept_fd W \<and> conn_poll (conn_at W h) \<and> this (channel (tcp (objs W ! h))) = h) \<and>
     (\<forall>h k. served W h \<and> served W k \<and> conn_fd W h = conn_fd W k \<longrightarrow> h = k) \<and>
     poll_inv (acceptChannel (accepter (server W))) (pollers W (srv_loop (server W)))"

lemma poller_invD:
  assumes "poller_inv W"
  shows "served W h \<Longrightarrow> conn_fd W h \<noteq> accept_fd W" "served W h \<Longrightarrow> conn_poll (conn_at W h)"
    "served W h \<Longrightarrow> this (channel (tcp (objs W ! h))) = h"
    "served W h \<Longrightarrow> served W k \<Longrightarrow> conn_fd W h = conn_fd W k \<Longrightarrow> h = k"
    "poll_inv (acceptChannel (accepter (server W))) (pollers W (srv_loop (server W)))"
    "\<exists>K. interest (pollers W l) = Some K"
    "interest (pollers W l) = Some K \<Longrightarrow> K f \<noteq> None \<Longrightarrow>
       (\<exists>h. served W h \<and> ioLoop (objs W ! h) = l \<and> conn_fd W h = f) \<or> l = srv_loop (server W) \<and> f = accept_fd W"
proof -
  note inv = assms [unfolded poller_inv_def]
  show "served W h \<Longrightarrow> conn_fd W h \<noteq> accept_fd W" "served W h \<Longrightarrow> conn_poll (conn_at W h)"
    "served W h \<Longrightarrow> this (channel (tcp (objs W ! h))) = h"
    "served W h \<Longrightarrow> served W k \<Longrightarrow> conn_fd W h = conn_fd W k \<Longrightarrow> h = k"
    "poll_inv (acceptChannel (accepter (server W))) (pollers W (srv_loop (server W)))"
    "\<exists>K. interest (pollers W l) = Some K"
    using inv by blast+
  obtain K' where "interest (pollers W l) = Some K'" and "\<forall>f. K' f \<noteq> None \<longrightarrow>
      (\<exists>h. served W h \<and> ioLoop (objs W ! h) = l \<and> conn_fd W h = f) \<or> l = srv_loop (server W) \<and> f = accept_fd W"
    using inv by blast
  then show "interest (pollers W l) = Some K \<Longrightarrow> K f \<noteq> None \<Longrightarrow>
      (\<exists>h. served W h \<and> ioLoop (objs W ! h) = l \<and> conn_fd W h = f) \<or> l = srv_loop (server W) \<and> f = accept_fd W"
    by simp
qed

lemma conn_at_fields [simp]:
  "conn_name (conn_at W h) = conn_name (tcp (objs W ! h))" "conn_state (conn_at W h) = conn_state (tcp (objs W ! h))"
  "channel (conn_at W h) = channel (tcp (objs W ! h))" "http_content (conn_at W h) = http_content (tcp (objs W ! h))"
  "socket (conn_at W h) = socket (tcp (objs W ! h))" "outputBuffer (conn_at W h) = outputBuffer (tcp (objs W ! h))"
  "inputBuffer (conn_at W h) = inputBuffer (tcp (objs W ! h))" "loop_queue (conn_at W h) = loop_queue (tcp (objs W ! h))"
  "poller_of (conn_at W h) = pollers W (ioLoop (objs W ! h))"
  by (simp_all add: conn_at_def)

lemma put_obj:
  "objs (put h c W) ! k = (if k = h \<and> h < length (objs W) then (objs W ! h)\<lparr>tcp := c\<rparr> else objs W ! k)"
  by (cases "h < length (objs W)") (simp_all add: put_def nth_list_update list_update_beyond)

lemma put_fields [simp]:
  "server (put h c W) = server W" "evloops (put h c W) = evloops W" "length (objs (put h c W)) = length (objs W)"
  "accept_fd (put h c W) = accept_fd W" "ioLoop (objs (put h c W) ! k) = ioLoop (objs W ! k)"
  "released (objs (put h c W) ! k) = released (objs W ! k)"
  by (simp_all add: put_obj) (simp_all add: put_def accept_fd_def)

lemma put_served [simp]: "served (put h c W) k = served W k"
  by (simp add: served_def)

lemma put_tcp:
  "h < length (objs W) \<Longrightarrow> tcp (objs (put h c W) ! k) = (if k = h then c else tcp (objs W ! k))"
  "pollers (put h c W) (ioLoop (objs W ! h)) = poller_of c"
  "l \<noteq> ioLoop (objs W ! h) \<Longrightarrow> pollers (put h c W) l = pollers W l"
  by (simp_all add: put_obj) (simp_all add: put_def)

lemma put_conn_at: "h < length (objs W) \<Longrightarrow> conn_at (put h c W) h = c"
  by (simp add: conn_at_def put_tcp)

text \<open>What a step leaves of a connection that it is not about: the object, and the kernel's entry for its descriptor.\<close>

definition untouched :: "World \<Rightarrow> World \<Rightarrow> nat \<Rightarrow> bool" where
  "untouched W W' k \<longleftrightarrow> objs W' ! k = objs W ! k \<and>
     (served W k \<longrightarrow> agree (conn_fd W k) (pollers W (ioLoop (objs W ! k))) (pollers W' (ioLoop (objs W ! k))))"

lemma untouched_refl: "poller_inv W \<Longrightarrow> objs W' ! k = objs W ! k \<Longrightarrow> pollers W' = pollers W \<Longrightarrow> untouched W W' k"
  using poller_invD(6) [of W] agree_refl by (auto simp: untouched_def)

lemma untouched_trans:
  "untouched W W1 k \<Longrightarrow> untouched W1 W2 k \<Longrightarrow> served W1 k = served W k \<Longrightarrow> untouched W W2 k"
  unfolding untouched_def conn_fd_def by (auto intro: agree_trans)

lemma put_agree:
  assumes "poller_inv W" and "served W h" and "local_op (conn_at W h) c" and "f \<noteq> conn_fd W h"
  shows "agree f (pollers W l) (pollers (put h c W) l)"
proof (cases "l = ioLoop (objs W ! h)")
  case True
  have "h < length (objs W)" using assms(2) by (simp add: served_def)
  then show ?thesis
    using local_opD(5) [OF assms(3) poller_invD(2) [OF assms(1,2)], of f] assms(4) True by (simp add: put_tcp conn_fd_def)
next
  case False
  obtain K where "interest (pollers W l) = Some K" using poller_invD(6) [OF assms(1)] by blast
  then show ?thesis using False by (simp add: put_tcp agree_def)
qed

lemma put_untouched:
  assumes "poller_inv W" and "served W h" and "local_op (conn_at W h) c" and "k \<noteq> h"
  shows "untouched W (put h c W) k"
proof -
  have "objs (put h c W) ! k = objs W ! k" using assms(4) by (simp add: put_def)
  moreover have "agree (conn_fd W k) (pollers W l) (pollers (put h c W) l)" if "served W k" for l
    using put_agree [OF assms(1-3)] poller_invD(4) [OF assms(1) that assms(2)] assms(4) by blast
  ultimately show ?thesis by (simp add: untouched_def)
qed

lemma put_conn_fd: "h < length (objs W) \<Longrightarrow> local_op (conn_at W h) c \<Longrightarrow> conn_fd (put h c W) k = conn_fd W k"
  using local_opD(2) [of "conn_at W h" c] by (simp add: conn_fd_def put_tcp)

lemma untouched_poll:
  assumes "untouched W W' k" and "served W k" and "conn_poll (conn_at W k)"
  shows "conn_poll (conn_at W' k)"
proof -
  have "agree (fd (channel (tcp (objs W ! k)))) (pollers W (ioLoop (objs W ! k))) (pollers W' (ioLoop (objs W ! k)))"
    and "objs W' ! k = objs W ! k"
    using assms(1,2) by (simp_all add: untouched_def conn_fd_def)
  then show ?thesis using agree_poll_inv assms(3) by (auto simp: conn_poll_def)
qed

lemma poller_inv_put:
  assumes inv: "poller_inv W" and h: "served W h" and op: "local_op (conn_at W h) c"
  shows "poller_inv (put h c W)"
proof -
  let ?W = "put h c W"
  have hl: "h < length (objs W)" using h by (simp add: served_def)
  note fds = put_conn_fd [OF hl op]
  have "\<exists>K'. interest (pollers ?W l) = Some K' \<and> (\<forall>f. K' f \<noteq> None \<longrightarrow>
      (\<exists>k. served ?W k \<and> ioLoop (objs ?W ! k) = l \<and> conn_fd ?W k = f) \<or> l = srv_loop (server ?W) \<and> f = accept_fd ?W)" for l
  proof -
    obtain K where K: "interest (pollers W l) = Some K" using poller_invD(6) [OF inv] by blast
    have "\<exists>K'. interest (pollers ?W l) = Some K'"
      using put_agree [OF inv h op, of "conn_fd W h + 1" l] by (auto simp: agree_def)
    then obtain K' where K': "interest (pollers ?W l) = Some K'" by blast
    have "K' f = K f" if "f \<noteq> conn_fd W h \<or> l \<noteq> ioLoop (objs W ! h)" for f
      using put_agree [OF inv h op, of f l] that K K' by (cases "l = ioLoop (objs W ! h)") (auto simp: agree_def put_tcp)
    then show ?thesis using K' poller_invD(7) [OF inv K] h fds by auto metis+
  qed
  moreover have "conn_fd ?W k \<noteq> accept_fd ?W \<and> conn_poll (conn_at ?W k) \<and> this (channel (tcp (objs ?W ! k))) = k"
    if k: "served ?W k" for k
  proof -
    have sk: "served W k" using k by simp
    have "conn_poll (conn_at ?W k)"
    proof (cases "k = h")
      case True
      then show ?thesis using local_opD(4) [OF op poller_invD(2) [OF inv h]] hl by (simp add: put_conn_at)
    next
      case False
      then show ?thesis using untouched_poll [OF put_untouched [OF inv h op False] sk poller_invD(2) [OF inv sk]] by simp
    qed
    then show ?thesis using poller_invD(1,3) [OF inv sk] fds local_opD(3) [OF op] hl by (auto simp: put_tcp)
  qed
  moreover have "poll_inv (acceptChannel (accepter (server ?W))) (pollers ?W (srv_loop (server ?W)))"
    using agree_poll_inv [OF put_agree [OF inv h op] poller_invD(5) [OF inv]] poller_invD(1) [OF inv h]
    by (simp add: accept_fd_def)
  moreover have "\<forall>j k. served ?W j \<and> served ?W k \<and> conn_fd ?W j = conn_fd ?W k \<longrightarrow> j = k"
    using poller_invD(4) [OF inv] fds by simp
  ultimately show ?thesis unfolding poller_inv_def by blast
qed

subsection \<open>The other steps of the threads\<close>

lemma poller_inv_frame:
  assumes "poller_inv W" and "objs W' = objs W" and "pollers W' = pollers W"
    and "srv_loop (server W') = srv_loop (server W)" and "accepter (server W') = accepter (server W)"
  shows "poller_inv W'"
proof -
  have "served W' = served W" "conn_fd W' = conn_fd W" "conn_at W' = conn_at W" "accept_fd W' = accept_fd W"
    using assms(2,3,5) by (simp_all add: fun_eq_iff served_def conn_fd_def conn_at_def accept_fd_def)
  then show ?thesis using assms unfolding poller_inv_def by simp
qed

lemma release_obj: "objs (release h W) ! k = (if k = h \<and> h < length (objs W) then (objs W ! h)\<lparr>released := True\<rparr> else objs W ! k)"
  by (cases "h < length (objs W)") (simp_all add: release_def nth_list_update list_update_beyond)

lemma release_fields [simp]:
  "tcp (objs (release h W) ! k) = tcp (objs W ! k)" "ioLoop (objs (release h W) ! k) = ioLoop (objs W ! k)"
  "pollers (release h W) = pollers W" "server (release h W) = server W" "length (objs (release h W)) = length (objs W)"
  "conn_at (release h W) k = conn_at W k" "conn_fd (release h W) k = conn_fd W k" "accept_fd (release h W) = accept_fd W"
  by (simp_all add: release_obj conn_at_def conn_fd_def) (simp_all add: release_def accept_fd_def)

lemma served_release: "served (release h W) k \<longleftrightarrow> served W k \<and> k \<noteq> h"
  by (auto simp: served_def release_obj)

lemma poller_inv_release:
  assumes inv: "poller_inv W" and h: "served W h" and out: "entry (channel (tcp (objs W ! h))) = None"
  shows "poller_inv (release h W)"
proof -
  have none: "K (conn_fd W h) = None" if "interest (pollers W (ioLoop (objs W ! h))) = Some K" for K
    using poller_invD(2) [OF inv h] out that by (auto simp: conn_poll_def poll_inv_def conn_fd_def)
  have "\<exists>K. interest (pollers W l) = Some K \<and> (\<forall>f. K f \<noteq> None \<longrightarrow>
      (\<exists>k. served (release h W) k \<and> ioLoop (objs W ! k) = l \<and> conn_fd W k = f) \<or> l = srv_loop (server W) \<and> f = accept_fd W)" for l
  proof -
    obtain K where K: "interest (pollers W l) = Some K" using poller_invD(6) [OF inv] by blast
    have "\<exists>k. served W k \<and> k \<noteq> h \<and> ioLoop (objs W ! k) = l \<and> conn_fd W k = f"
      if "K f \<noteq> None" and "\<not> (l = srv_loop (server W) \<and> f = accept_fd W)" for f
      using poller_invD(7) [OF inv K that(1)] that none K by auto
    then show ?thesis using K by (auto simp: served_release)
  qed
  then show ?thesis using inv unfolding poller_inv_def by (simp add: served_release)
qed

lemma listen_fields [simp]:
  "conn_fd (listen_in_loop W) = conn_fd W" "served (listen_in_loop W) = served W"
  by (simp_all add: fun_eq_iff conn_fd_def served_def)

lemma listen_agree:
  assumes "poller_inv W"
  shows "f \<noteq> accept_fd W \<Longrightarrow> agree f (pollers W l) (pollers (listen_in_loop W) l)"
    and "accept_fd (listen_in_loop W) = accept_fd W"
    and "poll_inv (acceptChannel (accepter (server (listen_in_loop W)))) (pollers (listen_in_loop W) (srv_loop (server W)))"
proof -
  let ?b = "srv_loop (server W)" and ?ch = "acceptChannel (accepter (server W))"
  obtain ch ep where s: "channel_step EnableReading ?ch (pollers W ?b) = (ch, ep)" by fastforce
  have new: "pollers (listen_in_loop W) = (pollers W)(?b := ep)" "acceptChannel (accepter (server (listen_in_loop W))) = ch"
    using s by (simp_all add: listen_in_loop_def accepter_listen_def channel_step_def Let_def split: prod.splits)
  note pi = poller_invD(5) [OF assms]
  obtain K where "interest (pollers W l) = Some K" using poller_invD(6) [OF assms] by blast
  then show "agree f (pollers W l) (pollers (listen_in_loop W) l)" if "f \<noteq> accept_fd W"
    using channel_step_agree [OF pi s, of f] that new(1) by (cases "l = ?b") (simp_all add: accept_fd_def agree_def)
  show "accept_fd (listen_in_loop W) = accept_fd W"
    using poll_inv_step(2) [OF pi s] by (simp add: accept_fd_def new(2))
  show "poll_inv (acceptChannel (accepter (server (listen_in_loop W)))) (pollers (listen_in_loop W) ?b)"
    using poll_inv_step(1) [OF pi s] by (simp add: new)
qed

lemma listen_untouched:
  assumes "poller_inv W"
  shows "untouched W (listen_in_loop W) k"
  using listen_agree(1) [OF assms] poller_invD(1) [OF assms] by (simp add: untouched_def)

lemma poller_inv_listen: "poller_inv W \<Longrightarrow> poller_inv (listen_in_loop W)"
proof -
  assume inv: "poller_inv W"
  let ?W = "listen_in_loop W"
  note L = listen_agree [OF inv]
  have "\<exists>K'. interest (pollers ?W l) = Some K' \<and> (\<forall>f. K' f \<noteq> None \<longrightarrow>
      (\<exists>k. served W k \<and> ioLoop (objs W ! k) = l \<and> conn_fd W k = f) \<or> l = srv_loop (server W) \<and> f = accept_fd W)" for l
  proof -
    obtain K where K: "interest (pollers W l) = Some K" using poller_invD(6) [OF inv] by blast
    obtain K' where K': "interest (pollers ?W l) = Some K'"
      using L(1) [of "accept_fd W + 1" l] by (auto simp: agree_def)
    have "K' f = K f" if "f \<noteq> accept_fd W \<or> l \<noteq> srv_loop (server W)" for f
      using L(1) [of f l] that K K' 
      by (cases "l = srv_loop (server W)") (auto simp: agree_def listen_in_loop_def Let_def split: prod.splits)
    then show ?thesis using K' poller_invD(7) [OF inv K] by auto metis+
  qed
  moreover have "conn_poll (conn_at ?W k)" if "served W k" for k
    using untouched_poll [OF listen_untouched [OF inv] that poller_invD(2) [OF inv that]] .
  ultimately show ?thesis using inv L unfolding poller_inv_def by simp
qed

text \<open>A new object: nothing in the list of its loop has its descriptor.\<close>

lemma poller_inv_append:
  assumes inv: "poller_inv W" and objs: "objs W' = objs W @ [obj]" and "pollers W' = pollers W"
    and "srv_loop (server W') = srv_loop (server W)" and "accepter (server W') = accepter (server W)"
    and obj: "obj = fresh_conn (length (objs W)) l t nm f ep"
    and new: "f \<noteq> accept_fd W" "\<forall>h. served W h \<longrightarrow> f \<noteq> conn_fd W h"
  shows "poller_inv W'" and "fresh_inv (conn_at W' (length (objs W)))" and "served W' (length (objs W))"
    and "k < length (objs W) \<Longrightarrow> untouched W W' k"
proof -
  let ?n = "length (objs W)"
  have old: "conn_fd W' h = conn_fd W h" "conn_at W' h = conn_at W h" "objs W' ! h = objs W ! h" if "h < ?n" for h
    using that objs assms(3) by (simp_all add: conn_fd_def conn_at_def nth_append)
  have n: "conn_fd W' ?n = f" "conn_at W' ?n = new_TcpConnection ?n (pollers W l) new_EventLoop t nm f"
    "this (channel (tcp (objs W' ! ?n))) = ?n"
    using objs assms(3)
    by (simp_all add: conn_fd_def conn_at_def obj fresh_conn_def new_TcpConnection_def new_Channel_def
        setCloseCallBack_def setErrorCallBack_def setWriteCallBack_def setReadCallBack_def)
  have served: "served W' h \<longleftrightarrow> served W h \<or> h = ?n" for h
    by (cases "h < ?n") (auto simp: served_def objs nth_append obj)
  then show "served W' ?n" by simp
  have lt: "h < ?n" if "served W h" for h using that by (simp add: served_def)
  have afd: "accept_fd W' = accept_fd W" using assms(5) by (simp add: accept_fd_def)
  obtain K where K: "interest (pollers W l) = Some K" using poller_invD(6) [OF inv] by blast
  have "K f = None" using poller_invD(7) [OF inv K] new by blast
  then have "conn_poll (conn_at W' ?n)"
    using K poll_inv_new unfolding conn_poll_def n(2) by (simp add: new_TcpConnection_def)
  then show fresh: "fresh_inv (conn_at W' ?n)"
    unfolding fresh_inv_def n(2)
    by (simp add: new_TcpConnection_def new_Socket_def new_EventLoop_def new_Channel_def isWriting_def
        setCloseCallBack_def setErrorCallBack_def setWriteCallBack_def setReadCallBack_def
        content_new)
  then have poll: "conn_poll (conn_at W' h)" if "served W' h" for h
    using that served poller_invD(2) [OF inv] old lt by (auto simp: fresh_inv_def)
  have "\<exists>K. interest (pollers W' l) = Some K \<and> (\<forall>f. K f \<noteq> None \<longrightarrow>
      (\<exists>h. served W' h \<and> ioLoop (objs W' ! h) = l \<and> conn_fd W' h = f) \<or> l = srv_loop (server W') \<and> f = accept_fd W')" for l
  proof -
    obtain K where K: "interest (pollers W l) = Some K" using poller_invD(6) [OF inv] by blast
    show ?thesis using K poller_invD(7) [OF inv K] served old lt assms(3,4) afd by simp metis
  qed
  then show "poller_inv W'"
    using poll poller_invD [OF inv] served old lt n new afd assms(3-5) unfolding poller_inv_def by simp metis
  show "k < ?n \<Longrightarrow> untouched W W' k"
    using old assms(3) poller_invD(6) [OF inv, of "ioLoop (objs W ! k)"] by (auto simp: untouched_def agree_def)
qed

subsection \<open>What the threads do to the connections\<close>

text \<open>The operations that the server itself calls on a connection.\<close>

definition server_op :: "TcpConnection \<Rightarrow> TcpConnection \<Rightarrow> bool" where
  "server_op c c' \<longleftrightarrow>
     conn_state c = kConnecting \<and> connectEstablished quiet c = Inr c' \<or>
     active c \<and> handleClose quiet quiet c = Inr c' \<or>
     conn_state c = kdisConnected \<and> c' = on_channel Remove c \<or>
     (\<exists>t. c' = Net_TcpConnection.shutdown t c)"

definition brand_new :: "TcpConnection \<Rightarrow> bool" where
  "brand_new c \<longleftrightarrow> fresh_inv c \<and> stream_inv c [] \<and> conn_state c = kConnecting \<and> http_content c = new_HttpContent"

definition others_untouched :: "World \<Rightarrow> World \<Rightarrow> nat \<Rightarrow> bool" where
  "others_untouched W W' g \<longleftrightarrow> length (objs W) \<le> length (objs W') \<and> (\<forall>k < length (objs W). k \<noteq> g \<longrightarrow> untouched W W' k)"

text \<open>One step: at most one connection \<open>g\<close>, an old or a new one.\<close>

definition control_effect :: "World \<Rightarrow> World \<Rightarrow> bool" where
  "control_effect W W' \<longleftrightarrow> poller_inv W' \<and> (\<exists>g. others_untouched W W' g \<and>
     (length (objs W') = length (objs W) \<and> g = length (objs W) \<or>
      length (objs W') = length (objs W) \<and> g < length (objs W) \<and> server_op (conn_at W g) (conn_at W' g) \<or>
      length (objs W') = Suc (length (objs W)) \<and> g = length (objs W) \<and>
        (\<exists>c. brand_new c \<and> (conn_at W' g = c \<or> connectEstablished quiet c = Inr (conn_at W' g)))))"

lemma effect_none:
  assumes "poller_inv W'" and "length (objs W') = length (objs W)" and "\<And>k. untouched W W' k"
  shows "control_effect W W'"
  using assms unfolding control_effect_def others_untouched_def by auto

lemma effect_frame:
  assumes "poller_inv W" and "objs W' = objs W" and "pollers W' = pollers W"
    and "srv_loop (server W') = srv_loop (server W)" and "accepter (server W') = accepter (server W)"
  shows "control_effect W W'"
  using poller_inv_frame [OF assms] untouched_refl [OF assms(1) _ assms(3)] assms(2) by (intro effect_none) simp_all

lemma effect_put:
  assumes "poller_inv W" and "served W h" and "server_op (conn_at W h) c" and "local_op (conn_at W h) c"
  shows "control_effect W (put h c W)"
proof -
  have "h < length (objs W)" using assms(2) by (simp add: served_def)
  then show ?thesis
    using poller_inv_put [OF assms(1,2,4)] put_untouched [OF assms(1,2,4)] assms(3)
    by (auto simp: control_effect_def others_untouched_def put_conn_at intro!: exI [of _ h])
qed

text \<open>Afterwards the map, the queues and the marks may change.\<close>

lemma effect_then_frame:
  assumes "control_effect W W1" and "objs W2 = objs W1" and "pollers W2 = pollers W1"
    and "srv_loop (server W2) = srv_loop (server W1)" and "accepter (server W2) = accepter (server W1)"
  shows "control_effect W W2"
proof -
  have "poller_inv W2" using poller_inv_frame [OF _ assms(2-5)] assms(1) by (simp add: control_effect_def)
  moreover have "conn_at W2 = conn_at W1" using assms(2,3) by (simp add: fun_eq_iff conn_at_def)
  moreover have "others_untouched W W2 g = others_untouched W W1 g" for g
    using assms(2,3) by (simp add: others_untouched_def untouched_def)
  ultimately show ?thesis using assms(1,2) unfolding control_effect_def by simp
qed

lemma effect_before_frame:
  assumes "control_effect W1 W2" and "objs W1 = objs W" and "pollers W1 = pollers W"
  shows "control_effect W W2"
proof -
  have "conn_at W1 = conn_at W" using assms(2,3) by (simp add: fun_eq_iff conn_at_def)
  moreover have "others_untouched W W2 g = others_untouched W1 W2 g" for g
    using assms(2,3) by (simp add: others_untouched_def untouched_def served_def conn_fd_def)
  ultimately show ?thesis using assms(1,2) unfolding control_effect_def by simp
qed

lemma effect_release:
  assumes "control_effect W W1" and "served W1 h" and "entry (channel (tcp (objs W1 ! h))) = None" and "h < length (objs W)"
    and "\<And>k. k < length (objs W) \<Longrightarrow> k \<noteq> h \<Longrightarrow> untouched W W1 k" and "length (objs W1) = length (objs W)"
    and "server_op (conn_at W h) (conn_at W1 h)"
  shows "control_effect W (release h W1)"
proof -
  have "poller_inv (release h W1)" using poller_inv_release [OF _ assms(2,3)] assms(1) by (simp add: control_effect_def)
  moreover have "others_untouched W (release h W1) h"
    using assms(5,6) by (auto simp: others_untouched_def untouched_def release_obj)
  ultimately show ?thesis using assms(4,6,7) unfolding control_effect_def by auto
qed

lemma poller_inv_put_same:
  assumes "poller_inv W" and "h < length (objs W)" and "channel c = channel (conn_at W h)" and "poller_of c = poller_of (conn_at W h)"
  shows "poller_inv (put h c W)" and "k \<noteq> h \<Longrightarrow> untouched W (put h c W) k"
proof -
  have eq: "pollers (put h c W) = pollers W" using assms(4) by (simp add: put_def fun_upd_idem)
  have ch: "channel (tcp (objs (put h c W) ! k)) = channel (tcp (objs W ! k))" for k
    using assms(2,3) by (simp add: put_tcp)
  have "conn_fd (put h c W) k = conn_fd W k" "conn_poll (conn_at (put h c W) k) = conn_poll (conn_at W k)" for k
    by (simp_all add: conn_fd_def conn_poll_def ch eq)
  then show "poller_inv (put h c W)" using assms(1) unfolding poller_inv_def by (simp add: eq ch)
  show "k \<noteq> h \<Longrightarrow> untouched W (put h c W) k"
    using untouched_refl [OF assms(1) _ eq] by (simp add: put_obj)
qed

lemma effect_shutdown:
  assumes "poller_inv W" and "h < length (objs W)"
  shows "control_effect W (put h (Net_TcpConnection.shutdown t (conn_at W h)) W)"
proof -
  let ?c = "Net_TcpConnection.shutdown t (conn_at W h)"
  have "channel ?c = channel (conn_at W h)" "poller_of ?c = poller_of (conn_at W h)"
    by (simp_all add: Net_TcpConnection.shutdown_def shutdownInloop_def Let_def)
  note same = poller_inv_put_same [OF assms this]
  have "server_op (conn_at W h) ?c" by (auto simp: server_op_def)
  then show ?thesis using same assms(2)
    by (auto simp: control_effect_def others_untouched_def put_conn_at intro!: exI [of _ h])
qed

lemma effect_listen: "poller_inv W \<Longrightarrow> control_effect W (listen_in_loop W)"
  using poller_inv_listen listen_untouched by (intro effect_none) simp_all

lemma effect_remove:
  assumes "control_effect W W1" and "removeConnection (Some Inr) l h W1 = Inr W2"
  shows "control_effect W W2"
proof -
  have "objs W2 = objs W1 \<and> pollers W2 = pollers W1 \<and> srv_loop (server W2) = srv_loop (server W1) \<and>
      accepter (server W2) = accepter (server W1)"
    using assms(2)
    by (auto simp: removeConnection_def run_in_loop_def removeConnectionInLoop_def queue_on_def Let_def split: if_splits)
  then show ?thesis using effect_then_frame [OF assms(1)] by blast
qed

lemma effect_server_start:
  assumes "poller_inv W" and "server_start (Some Inr) startLoop me W = Inr W'"
  shows "control_effect W W'"
proof -
  define s1 where "s1 = (if \<not> srv_started (server W)
    then (server W)\<lparr>srv_started := True, threadPool := pool_start startLoop (threadPool (server W))\<rparr> else server W)"
  let ?W1 = "W\<lparr>server := s1\<rparr>"
  have s1: "srv_loop s1 = srv_loop (server W)" "accepter s1 = accepter (server W)" by (simp_all add: s1_def)
  have frame: "control_effect W ?W1" by (rule effect_frame [OF assms(1)]) (simp_all add: s1)
  have inv: "poller_inv ?W1" by (rule poller_inv_frame [OF assms(1)]) (simp_all add: s1)
  have "W' = ?W1 \<or> W' = listen_in_loop ?W1 \<or> W' = queue_on me (srv_loop s1) ListenFn ?W1"
    using assms(2) by (auto simp: server_start_def Let_def s1_def [symmetric] run_in_loop_def split: if_splits)
  moreover have "control_effect W (listen_in_loop ?W1)"
    by (rule effect_before_frame [OF effect_listen [OF inv]]) simp_all
  moreover have "control_effect W (queue_on me (srv_loop s1) ListenFn ?W1)"
    by (rule effect_then_frame [OF frame]) (simp_all add: queue_on_def)
  ultimately show ?thesis using frame by blast
qed

lemma brand_new_conn: "brand_new c"
  if "fresh_inv c" and "c = new_TcpConnection p ep new_EventLoop t nm f"
  using that by (simp add: brand_new_def new_TcpConnection_def stream_inv_def new_Socket_def buf_inv_new)

text \<open>A new connection is put into the map as an object \<open>obj\<close>, then established at once or queued for it.\<close>

lemma newConnection_shape:
  assumes "newConnection (Some Inr) t f addr W = Inr W'"
  obtains W1 obj l nm where "objs W1 = objs W @ [obj]" "pollers W1 = pollers W"
    "srv_loop (server W1) = srv_loop (server W)" "accepter (server W1) = accepter (server W)"
    "obj = fresh_conn (length (objs W)) l t nm f (pollers W l)"
    "conn_at W1 (length (objs W)) = new_TcpConnection (length (objs W)) (pollers W l) new_EventLoop t nm f"
    "W' = put (length (objs W)) (on_channel EnableReading ((conn_at W1 (length (objs W)))\<lparr>conn_state := kConnected\<rparr>)) W1 \<or>
     W' = queue_on (srv_loop (server W)) l (ConnectEstablishedFn (length (objs W))) W1"
    "conn_fd W' (length (objs W)) = f"
proof -
  let ?n = "length (objs W)" and ?s = "server W"
  obtain l pool where pool: "getNextLoop (threadPool ?s) = Inr (l, pool)"
    using assms by (auto simp: newConnection_def split: sum.splits)
  let ?nm = "conn_name_of (?s\<lparr>threadPool := pool\<rparr>)"
  define obj where "obj = fresh_conn ?n l t ?nm f (pollers W l)"
  define W1 where "W1 = W\<lparr>server := ?s\<lparr>threadPool := pool, nextConnId := c_int (nextConnId ?s + 1),
      connections := (connections ?s)(?nm \<mapsto> ?n)\<rparr>, objs := objs W @ [obj]\<rparr>"
  have r: "run_in_loop (Some Inr) (srv_loop ?s) l (ConnectEstablishedFn ?n) W1 = Inr W'"
    using assms pool by (simp add: newConnection_def Let_def W1_def obj_def fresh_conn_def)
  have W1: "objs W1 = objs W @ [obj]" "pollers W1 = pollers W" "srv_loop (server W1) = srv_loop ?s"
    "accepter (server W1) = accepter ?s" "conn_at W1 ?n = new_TcpConnection ?n (pollers W l) new_EventLoop t ?nm f"
    by (simp_all add: W1_def conn_at_def obj_def fresh_conn_def new_TcpConnection_def)
  let ?c = "on_channel EnableReading ((conn_at W1 ?n)\<lparr>conn_state := kConnected\<rparr>)"
  have W': "W' = put ?n ?c W1 \<or> W' = queue_on (srv_loop ?s) l (ConnectEstablishedFn ?n) W1"
    using r by (auto simp: run_in_loop_def on_conn_put quiet_calls split: if_splits)
  have "local_op (conn_at W1 ?n) ?c" by (rule local_establish [OF quiet_calls(1)])
  moreover have "fd (channel (tcp obj)) = f"
    by (simp add: obj_def fresh_conn_def new_TcpConnection_def new_Channel_def
        setCloseCallBack_def setErrorCallBack_def setWriteCallBack_def setReadCallBack_def)
  ultimately have "conn_fd W' ?n = f"
    using W' put_conn_fd [of ?n W1 ?c ?n] by (auto simp: conn_fd_def W1(1))
  then show thesis using that [OF W1(1-4) obj_def W1(5) W'] by blast
qed

lemma effect_newConnection:
  assumes inv: "poller_inv W" and run: "newConnection (Some Inr) t f addr W = Inr W'" and fresh: "fresh_fds W W'"
  shows "control_effect W W'"
proof -
  let ?n = "length (objs W)"
  obtain W1 obj l nm where W1: "objs W1 = objs W @ [obj]" "pollers W1 = pollers W"
    "srv_loop (server W1) = srv_loop (server W)" "accepter (server W1) = accepter (server W)"
    and obj: "obj = fresh_conn ?n l t nm f (pollers W l)"
    and at: "conn_at W1 ?n = new_TcpConnection ?n (pollers W l) new_EventLoop t nm f"
    and W': "W' = put ?n (on_channel EnableReading ((conn_at W1 ?n)\<lparr>conn_state := kConnected\<rparr>)) W1 \<or>
      W' = queue_on (srv_loop (server W)) l (ConnectEstablishedFn ?n) W1"
    and fd_new: "conn_fd W' ?n = f"
    by (rule newConnection_shape [OF run])
  let ?c = "on_channel EnableReading ((conn_at W1 ?n)\<lparr>conn_state := kConnected\<rparr>)"
  have est: "connectEstablished quiet (conn_at W1 ?n) = Inr ?c" by (rule quiet_calls)
  note op = local_establish [OF est]
  have "?n < length (objs W')" using W' by (auto simp: W1(1))
  then have new: "f \<noteq> accept_fd W" "\<forall>h. served W h \<longrightarrow> f \<noteq> conn_fd W h"
    using fresh fd_new by (auto simp: fresh_fds_def)
  note app = poller_inv_append [OF inv W1 obj new]
  have bn: "brand_new (conn_at W1 ?n)" using brand_new_conn [OF app(2) at] .
  have eff1: "control_effect W W1"
    using app(1,4) bn by (auto simp: control_effect_def others_untouched_def W1(1))
  from W' show ?thesis
  proof
    assume W': "W' = put ?n ?c W1"
    have "untouched W W' k" if "k < ?n" for k
      using untouched_trans [OF app(4) [OF that] put_untouched [OF app(1,3) op, of k]] that
      by (auto simp: W' served_def W1(1) nth_append)
    then have "others_untouched W W' ?n" by (simp add: others_untouched_def W' W1(1))
    moreover have "conn_at W' ?n = ?c" unfolding W' by (rule put_conn_at) (simp add: W1(1))
    moreover have "poller_inv W'" unfolding W' by (rule poller_inv_put [OF app(1,3) op])
    ultimately show ?thesis using bn est by (auto simp: control_effect_def W' W1(1))
  next
    assume "W' = queue_on (srv_loop (server W)) l (ConnectEstablishedFn ?n) W1"
    then show ?thesis using effect_then_frame [OF eff1, of W'] by (simp add: queue_on_def)
  qed
qed

lemma effect_accept:
  assumes "poller_inv W" and "accept_event (Some Inr) t r W = Inr W'" and "fresh_fds W W'"
  shows "control_effect W W'"
proof (cases "fst r \<ge> 0")
  case True
  then have "newConnection (Some Inr) t (fst r) (snd r) W = Inr W'"
    using assms(2) by (simp add: accept_event_def NewConnection_def socket_accept_def split: prod.splits)
  then show ?thesis using effect_newConnection [OF assms(1) _ assms(3)] by blast
next
  case False
  then have "W' = W" using assms(2) by (simp add: accept_event_def NewConnection_def socket_accept_def split: prod.splits)
  then show ?thesis using effect_frame [OF assms(1), of W] by simp
qed

lemma effect_runs:
  assumes inv: "poller_inv W" and srv: "server_inv W" and "runs W W'"
  shows "control_effect W W'"
proof -
  obtain l f fs where q: "pendingFunctors (evloops W l) = f # fs"
    and W': "run_server_functor (Some Inr) f (popped l fs W) = Inr W'"
    using assms(3) unfolding runs_def by blast
  let ?P = "popped l fs W"
  have P: "poller_inv ?P" by (rule poller_inv_frame [OF inv]) simp_all
  have at: "conn_at ?P h = conn_at W h" "served ?P h = served W h" for h by (simp_all add: conn_at_def served_def)
  have pn: "pending W l f \<noteq> 0" using q by (simp add: pending_def)
  have "control_effect ?P W'"
  proof (cases f)
    case ListenFn
    then show ?thesis using W' effect_listen [OF P] by simp
  next
    case (ConnectEstablishedFn h)
    have "due (srv_loop (server W)) (ioLoop (objs W ! h)) (stage_of W h) h = Some (l, f)" "h < length (objs W)"
      using queued_once [OF srv _ pn, of h] ConnectEstablishedFn by simp_all
    then have "stage_of W h = Establishing" using ConnectEstablishedFn by (cases "stage_of W h") auto
    then have h: "served ?P h" "conn_state (conn_at ?P h) = kConnecting"
      using stage_cases(1) [of W h] \<open>h < length (objs W)\<close> by (simp_all add: served_def)
    obtain c where c: "connectEstablished quiet (conn_at ?P h) = Inr c" "W' = put h c ?P"
      using W' ConnectEstablishedFn by (auto simp: on_conn_put split: sum.splits)
    then show ?thesis using effect_put [OF P h(1) _ local_establish [OF c(1)]] h(2) by (simp add: server_op_def)
  next
    case (RemoveConnectionFn h)
    then have "W' = removeConnectionInLoop h ?P" using W' by simp
    then show ?thesis using effect_frame [OF P, of W'] by (simp add: removeConnectionInLoop_def queue_on_def Let_def)
  next
    case (ConnectDestoryedFn h)
    have "due (srv_loop (server W)) (ioLoop (objs W ! h)) (stage_of W h) h = Some (l, f)" "h < length (objs W)"
      using queued_once [OF srv _ pn, of h] ConnectDestoryedFn by simp_all
    then have "stage_of W h = Removed" using ConnectDestoryedFn by (cases "stage_of W h") auto
    then have h: "served ?P h" "conn_state (conn_at ?P h) = kdisConnected" "h < length (objs ?P)"
      using stage_cases(3) [of W h] \<open>h < length (objs W)\<close> by (simp_all add: served_def)
    let ?c = "on_channel Remove (conn_at ?P h)"
    have W'': "W' = release h (put h ?c ?P)"
      using W' ConnectDestoryedFn quiet_calls(3) [OF h(2)] by (simp add: on_conn_put)
    have op: "server_op (conn_at ?P h) ?c" using h(2) by (simp add: server_op_def)
    show ?thesis unfolding W''
    proof (rule effect_release [OF effect_put [OF P h(1) op local_on_channel]])
      show "entry (channel (tcp (objs (put h ?c ?P) ! h))) = None"
        using removed_entry [OF poller_invD(2) [OF P h(1)]] h(3) by (simp add: put_tcp)
      show "k \<noteq> h \<Longrightarrow> untouched ?P (put h ?c ?P) k" for k
        by (rule put_untouched [OF P h(1) local_on_channel])
    qed (use h op in \<open>simp_all add: put_conn_at\<close>)
  qed
  then show ?thesis by (rule effect_before_frame) simp_all
qed

lemma effect_close:
  assumes "poller_inv W" and "served W h" and "active (conn_at W h)" and "close_conn (Some Inr) h W = Inr W'"
  shows "control_effect W W'"
proof -
  let ?c = "on_channel DisableAll ((conn_at W h)\<lparr>conn_state := kdisConnected\<rparr>)"
  have cl: "handleClose quiet quiet (conn_at W h) = Inr ?c" by (rule quiet_calls)
  have "removeConnection (Some Inr) (ioLoop (objs W ! h)) h (put h ?c W) = Inr W'"
    using assms(4) by (simp add: close_conn_def on_conn_put quiet_calls)
  moreover have "server_op (conn_at W h) ?c" using assms(3) cl by (simp add: server_op_def)
  ultimately show ?thesis using effect_remove [OF effect_put [OF assms(1,2) _ local_close [OF cl]]] by blast
qed

lemma opened_served:
  assumes "server_inv W" and "h < length (objs W)" and "active (conn_at W h)"
  shows "served W h" and "stage_of W h = Opened"
proof -
  have a: "conn_state (tcp (objs W ! h)) \<in> {kConnected, kDisConnecting}" using assms(3) by (auto simp: active_def)
  have "stage_of W h \<noteq> Released" using assms(1,2) a unfolding server_inv_def by auto
  then have "\<not> released (objs W ! h)" by (auto simp: stage_of_def obj_stage_def)
  then show "served W h" "stage_of W h = Opened" using assms(2) a by (simp_all add: served_def stage_cases(2))
qed

lemma server_step_effect:
  assumes "poller_inv W" and srv: "server_inv W" and "server_step startLoop W W'" and "fresh_fds W W'"
  shows "control_effect W W'"
  using assms(3)
proof cases
  case (start me)
  then show ?thesis using effect_server_start [OF assms(1)] by blast
next
  case (accept t r)
  then show ?thesis using effect_accept [OF assms(1) _ assms(4)] by blast
next
  case run
  then show ?thesis using effect_runs [OF assms(1) srv] by blast
next
  case (close h)
  have "active (conn_at W h)" using close(2) by (auto simp: active_def)
  then show ?thesis using effect_close [OF assms(1) opened_served(1) [OF srv close(1)] _ close(3)] by blast
next
  case (shutdown h t)
  then show ?thesis using effect_shutdown [OF assms(1) shutdown(1), of t] by (auto simp: on_conn_put)
qed

end
