(* ===== verification/Net_Served.thy ===== *)
theory Net_Served
  imports Net_Serving
begin

text \<open>
  Every connection of a server at work (\<open>Net_Serving\<close>) keeps what it keeps when it is alone (\<open>Net_Handler\<close>), for any
  message callback that fulfils the contract \<open>local_handler\<close>.
\<close>

subsection \<open>The server's bookkeeping under the events of connections\<close>

lemma put_server_inv:
  assumes "server_inv W" and "h < length (objs W)" and "conn_name c = conn_name (tcp (objs W ! h))"
    and "conn_state c = conn_state (conn_at W h) \<or> active (conn_at W h) \<and> active c"
  shows "server_inv (put h c W)"
proof -
  have st: "obj_stage (connections (server W)) h ((objs W ! h)\<lparr>tcp := c\<rparr>) = stage_of W h"
    using assms(3,4) by (auto simp: stage_of_def obj_stage_def active_def split: ConnState.split)
  have "conn_state c = kdisConnected" if "stage_of W h = Released"
    using assms(1,2,4) that by (auto simp: server_inv_def active_def)
  then have "move h (stage_of W h) W (put h c W)"
    using assms st by (intro move_same) (simp_all add: put_def)
  then show ?thesis by (rule move_inv [OF _ assms(1,2)])
qed

lemma put_put: "put h c1 (put h c0 W) = put h c1 W"
  by (cases "h < length (objs W)") (simp_all add: put_def list_update_beyond)

lemma end_of_file_closes:
  assumes "h < length (objs W)" and "read_event readv data 0 (conn_at W h) c1"
    and "removeConnection (Some Inr) (ioLoop (objs W ! h)) h (put h c1 W) = Inr W'"
  obtains b where "close_conn (Some Inr) h (put h ((conn_at W h)\<lparr>inputBuffer := b\<rparr>) W) = Inr W'"
proof -
  obtain b where b: "handleClose quiet quiet ((conn_at W h)\<lparr>inputBuffer := b\<rparr>) = Inr c1"
    using assms(2) by (auto simp: read_event_def conn_handleRead_def Let_def split: sum.splits)
  then have "close_conn (Some Inr) h (put h ((conn_at W h)\<lparr>inputBuffer := b\<rparr>) W) = Inr W'"
    using assms(1,3) by (simp add: close_conn_def on_conn_put put_conn_at put_put)
  then show thesis by (rule that)
qed

text \<open>A read event faults in one way only, and does so whenever \<open>readv\<close> fails.\<close>

lemma handleRead_fault: "conn_handleRead readv n quiet quiet quiet c = Inl f \<Longrightarrow> f = OutOfBounds"
  by (auto simp: conn_handleRead_def readFd_def Let_def quiet_calls call_def handleError_def
      split: sum.splits prod.splits if_splits)

lemma handleRead_fails:
  assumes "length (buffer (inputBuffer c)) < 2 ^ 63" and "readv (readFd_capacity (inputBuffer c)) = (- 1, data)"
  shows "conn_handleRead readv n quiet quiet quiet c = Inl OutOfBounds"
  using readFd_error [where b = "inputBuffer c" and readv = readv and data = data] assms by (simp add: conn_handleRead_def)

lemma read_event_fields:
  assumes "read_event readv data n c c1"
  shows "local_op c c1" "conn_name c1 = conn_name c" "http_content c1 = http_content c"
proof -
  have r: "conn_handleRead readv n quiet quiet quiet c = Inr c1" using assms by (simp add: read_event_def)
  show "local_op c c1" by (rule local_handleRead [OF r])
  then show "conn_name c1 = conn_name c" by (rule local_opD(1))
  show "http_content c1 = http_content c"
    using r by (auto simp: conn_handleRead_def Let_def call_def handleError_def handleClose_quiet split: sum.splits if_splits)
qed

subsection \<open>Connections under the contract\<close>

lemma stream_inv_poller: "stream_inv (c\<lparr>poller_of := ep\<rparr>) a = stream_inv c a"
  by (simp add: stream_inv_def)

lemma fresh_inv_poller: "conn_poll (c\<lparr>poller_of := ep\<rparr>) \<Longrightarrow> fresh_inv c \<Longrightarrow> fresh_inv (c\<lparr>poller_of := ep\<rparr>)"
  by (simp add: fresh_inv_def)

lemma open_inv_poller:
  assumes "conn_poll (c\<lparr>poller_of := ep\<rparr>)" and "open_inv c"
  shows "open_inv (c\<lparr>poller_of := ep\<rparr>)"
proof (rule open_invI)
  show "registered (content (outputBuffer (c\<lparr>poller_of := ep\<rparr>)) \<noteq> []) (c\<lparr>poller_of := ep\<rparr>)"
    using assms(1) open_invD(1) [OF assms(2)] by (simp add: registered_def)
qed (use open_invD(2-4) [OF assms(2)] in simp_all)

lemma shutdown_inactive: "\<not> active c \<Longrightarrow> Net_TcpConnection.shutdown t c = c"
  by (simp add: active_def Net_TcpConnection.shutdown_def)

context local_handler
begin

definition conn_ok :: "TcpConnection \<Rightarrow> bytes \<Rightarrow> bool" where
  "conn_ok c a \<longleftrightarrow> stream_inv c a \<and> good (http_content c) \<and> (conn_state c = kConnecting \<longrightarrow> fresh_inv c) \<and>
     (active c \<longrightarrow> open_inv c)"

lemma conn_ok_closed: "stream_inv c a \<Longrightarrow> good (http_content c) \<Longrightarrow> conn_state c = kdisConnected \<Longrightarrow> conn_ok c a"
  by (simp add: conn_ok_def active_def)

lemma conn_ok_open: "stream_inv c a \<Longrightarrow> good (http_content c) \<Longrightarrow> active c \<Longrightarrow> open_inv c \<Longrightarrow> conn_ok c a"
  by (auto simp: conn_ok_def active_def)

lemma server_op_ok:
  assumes "server_op c c'" and ok: "conn_ok c a"
  shows "conn_ok c' a"
proof -
  note I = ok [unfolded conn_ok_def]
  from assms(1) consider (est) "conn_state c = kConnecting" "connectEstablished quiet c = Inr c'"
    | (close) "handleClose quiet quiet c = Inr c'" | (remove) "conn_state c = kdisConnected" "c' = on_channel Remove c"
    | (shut) t where "c' = Net_TcpConnection.shutdown t c"
    unfolding server_op_def by blast
  then show ?thesis
  proof cases
    case est
    obtain c2 where "connectEstablished quiet c = Inr c2" "stream_inv c2 a" "open_inv c2" "conn_state c2 = kConnected"
      using establish_ok [of c a] I est(1) by blast
    moreover have "http_content c' = http_content c" using est(2) by (auto simp: quiet_calls)
    ultimately show ?thesis using est(2) I by (intro conn_ok_open) (auto simp: active_def)
  next
    case close
    then show ?thesis using I by (intro conn_ok_closed) (auto simp: quiet_calls)
  next
    case remove
    then show ?thesis using I by (intro conn_ok_closed) auto
  next
    case shut
    show ?thesis
    proof (cases "active c")
      case True
      then have "conn_state c = kConnected \<or> conn_state c = kDisConnecting" by (simp add: active_def)
      from shutdown_ok [OF _ _ this, of a t] show ?thesis
        using I True parser_frame(2) [of t c] unfolding shut by (intro conn_ok_open) (auto simp: active_def)
    next
      case False
      then show ?thesis using ok shutdown_inactive by (simp add: shut)
    qed
  qed
qed

lemma brand_new_ok: "brand_new c \<Longrightarrow> conn_ok c []"
  using good_new by (simp add: brand_new_def conn_ok_def active_def)

lemma untouched_ok:
  assumes "poller_inv W" and "server_inv W" and "k < length (objs W)" and "untouched W W' k" and ok: "conn_ok (conn_at W k) a"
  shows "conn_ok (conn_at W' k) a"
proof -
  have o: "objs W' ! k = objs W ! k" using assms(4) by (simp add: untouched_def)
  let ?ep = "pollers W' (ioLoop (objs W ! k))"
  have at: "conn_at W' k = (conn_at W k)\<lparr>poller_of := ?ep\<rparr>" by (simp add: conn_at_def o)
  show ?thesis
  proof (cases "served W k")
    case True
    have "conn_poll (conn_at W' k)"
      by (rule untouched_poll [OF assms(4) True poller_invD(2) [OF assms(1) True]])
    then show ?thesis
      using ok fresh_inv_poller [where c = "conn_at W k" and ep = ?ep] open_inv_poller [where c = "conn_at W k" and ep = ?ep]
      unfolding at conn_ok_def by (simp add: stream_inv_poller active_def)
  next
    case False
    then have "stage_of W k = Released" using assms(3) by (simp add: served_def stage_of_def obj_stage_def)
    then have "conn_state (conn_at W k) = kdisConnected" using assms(2,3) by (simp add: server_inv_def)
    then show ?thesis using ok unfolding at by (intro conn_ok_closed) (simp_all add: conn_ok_def stream_inv_poller)
  qed
qed

definition serving_inv :: "Serving \<Rightarrow> bool" where
  "serving_inv S \<longleftrightarrow> server_inv (world S) \<and> poller_inv (world S) \<and>
     (\<forall>h < length (objs (world S)). conn_ok (conn_at (world S) h) (answers S h)) \<and>
     (\<forall>h. length (objs (world S)) \<le> h \<longrightarrow> answers S h = []) \<and> \<not> stuck S \<and> (\<forall>f. failed S = Some f \<longrightarrow> f \<in> thrown) \<and>
     (\<forall>f. read_fault S = Some f \<longrightarrow> f = OutOfBounds)"

lemma control_ok:
  assumes "control_effect (world S) W'" and "server_inv W'" and inv: "serving_inv S"
  shows "serving_inv (S\<lparr>world := W'\<rparr>)"
proof -
  let ?W = "world S"
  note I = inv [unfolded serving_inv_def]
  from assms(1) obtain g where g: "others_untouched ?W W' g" "poller_inv W'"
    and c: "length (objs W') = length (objs ?W) \<and> g = length (objs ?W) \<or>
      length (objs W') = length (objs ?W) \<and> g < length (objs ?W) \<and> server_op (conn_at ?W g) (conn_at W' g) \<or>
      length (objs W') = Suc (length (objs ?W)) \<and> g = length (objs ?W) \<and>
        (\<exists>c. brand_new c \<and> (conn_at W' g = c \<or> connectEstablished quiet c = Inr (conn_at W' g)))"
    unfolding control_effect_def by blast
  have old: "conn_ok (conn_at W' k) (answers S k)" if "k < length (objs ?W)" "k \<noteq> g" for k
    using untouched_ok [of ?W k W'] I that g(1) by (simp add: others_untouched_def)
  have new: "conn_ok (conn_at W' g) (answers S g)" if l: "g < length (objs W')"
    using c
  proof (elim disjE conjE exE)
    fix c assume n: "g = length (objs ?W)" "brand_new c" and e: "connectEstablished quiet c = Inr (conn_at W' g)"
    then have "server_op c (conn_at W' g)" by (simp add: server_op_def brand_new_def)
    then show ?thesis using server_op_ok brand_new_ok n I by fastforce
  qed (use l I server_op_ok brand_new_ok in auto)
  have "conn_ok (conn_at W' k) (answers S k)" if "k < length (objs W')" for k
    using old new that c by (cases "k = g") auto
  then show ?thesis using I c assms(2) g(2) by (auto simp: serving_inv_def)
qed

lemma put_ok:
  assumes inv: "serving_inv S" and h: "h < length (objs (world S))" and act: "active (conn_at (world S) h)"
    and op: "local_op (conn_at (world S) h) c" and "active c"
    and "stream_inv c (answers S h @ m)" and "good (http_content c)" and "open_inv c"
  shows "serving_inv (S\<lparr>world := put h c (world S), answers := (answers S)(h := answers S h @ m)\<rparr>)"
proof -
  let ?W = "world S"
  note I = inv [unfolded serving_inv_def]
  have served: "served ?W h" using opened_served(1) [OF _ h act] I by blast
  have "server_inv (put h c ?W)"
    using put_server_inv [of ?W h c] I h act assms(5) local_opD(1) [OF op] by simp
  moreover have "poller_inv (put h c ?W)" using poller_inv_put [OF _ served op] I by blast
  moreover have "conn_ok (conn_at (put h c ?W) h) (answers S h @ m)"
    using assms(5-8) h by (simp add: put_conn_at conn_ok_open)
  moreover have "conn_ok (conn_at (put h c ?W) k) (answers S k)" if "k < length (objs ?W)" "k \<noteq> h" for k
    using untouched_ok [of ?W k "put h c ?W"] put_untouched [OF _ served op that(2)] I that by blast
  ultimately show ?thesis using I h by (simp add: serving_inv_def)
qed

lemma read_ok:
  assumes inv: "serving_inv S" and "h < length (objs (world S))" and "active (conn_at (world S) h)"
    and "read_event readv data n (conn_at (world S) h) c1"
  shows "stream_inv c1 (answers S h)" "good (http_content c1)" "local_op (conn_at (world S) h) c1"
    "n \<noteq> 0 \<Longrightarrow> open_inv c1 \<and> active c1"
proof -
  let ?c = "conn_at (world S) h"
  have ok: "conn_ok ?c (answers S h)" using inv assms(2) by (simp add: serving_inv_def)
  have st: "stream_inv ?c (answers S h)" and op: "open_inv ?c" and gd: "good (http_content ?c)"
    using ok assms(3) by (simp_all add: conn_ok_def)
  have rv: "readv (readFd_capacity (inputBuffer ?c)) = (int (length data), data)"
    "length data \<le> readFd_capacity (inputBuffer ?c)" "length data < 2 ^ 64"
    "conn_handleRead readv n quiet quiet quiet ?c = Inr c1"
    using assms(4) unfolding read_event_def by blast+
  from conn_handleRead_ok [where readv = readv and n = n, OF st op rv(1-3)] rv(4) assms(3)
  show "stream_inv c1 (answers S h)" "n \<noteq> 0 \<Longrightarrow> open_inv c1 \<and> active c1" by (auto simp: active_def)
  show "good (http_content c1)" "local_op ?c c1" using gd read_event_fields [OF assms(4)] by simp_all
qed

lemma put_ok_quiet:
  assumes "serving_inv S" and "h < length (objs (world S))" and "active (conn_at (world S) h)"
    and "local_op (conn_at (world S) h) c" and "active c"
    and "stream_inv c (answers S h)" and "good (http_content c)" and "open_inv c"
  shows "serving_inv (S\<lparr>world := put h c (world S)\<rparr>)"
  using put_ok [OF assms(1-5), of "[]"] assms(6-8) by simp

lemma closed_ok:
  assumes inv: "serving_inv S" and h: "h < length (objs (world S))" "active (conn_at (world S) h)"
    and cl: "close_conn (Some Inr) h (world S) = Inr W'"
  shows "serving_inv (S\<lparr>world := W'\<rparr>)"
proof -
  have I: "server_inv (world S)" "poller_inv (world S)" using inv by (simp_all add: serving_inv_def)
  note o = opened_served [OF I(1) h]
  have "server_inv W'" using close_conn_move [OF I(1) h(1) o(2)] cl move_inv I(1) h(1) by auto
  then show ?thesis using control_ok effect_close [OF I(2) o(1) h(2) cl] inv by blast
qed

lemma end_of_file_ok:
  assumes inv: "serving_inv S" and h: "h < length (objs (world S))" "active (conn_at (world S) h)"
    and r: "read_event readv data 0 (conn_at (world S) h) c1"
    and rm: "removeConnection (Some Inr) (ioLoop (objs (world S) ! h)) h (put h c1 (world S)) = Inr W'"
  shows "serving_inv (S\<lparr>world := W'\<rparr>)"
proof -
  let ?c = "conn_at (world S) h"
  obtain b where b: "readFd readv (inputBuffer ?c) = Inr b" and c1: "handleClose quiet quiet (?c\<lparr>inputBuffer := b\<rparr>) = Inr c1"
    using r by (auto simp: read_event_def conn_handleRead_def Let_def split: sum.splits)
  let ?S = "S\<lparr>world := put h (?c\<lparr>inputBuffer := b\<rparr>) (world S)\<rparr>"
  have ok: "conn_ok ?c (answers S h)" using inv h(1) by (simp add: serving_inv_def)
  have op: "open_inv ?c" using ok h(2) by (simp add: conn_ok_def)
  have "stream_inv c1 (answers S h)" by (rule read_ok(1) [OF inv h r])
  then have "stream_inv (?c\<lparr>inputBuffer := b\<rparr>) (answers S h)" using c1 by (auto simp: quiet_calls)
  then have S: "serving_inv ?S"
    using ok h(2) op by (intro put_ok_quiet [OF inv h]) (simp_all add: conn_ok_def open_inv_input active_def)
  have "close_conn (Some Inr) h (world ?S) = Inr W'"
    using h(1) rm c1 by (simp add: close_conn_def on_conn_put put_conn_at put_put)
  then have "serving_inv (?S\<lparr>world := W'\<rparr>)"
    using h by (intro closed_ok [OF S]) (simp_all add: put_tcp active_def)
  then show ?thesis by simp
qed

lemma serving_step_inv:
  assumes step: "serving_step handle reply startLoop S T" and inv: "serving_inv S"
  shows "serving_inv T"
proof -
  let ?W = "world S"
  have I: "server_inv ?W" "poller_inv ?W" using inv by (simp_all add: serving_inv_def)
  have ok: "conn_ok (conn_at ?W h) (answers S h)" if "h < length (objs ?W)" for h
    using inv that by (simp add: serving_inv_def)
  have handled: "(\<exists>f \<in> thrown. handle t w c1 = Some (Inl f)) \<or>
      (\<exists>c'. handle t w c1 = Some (Inr c') \<and> stream_inv c' (answers S h @ kept w c1 (reply c1)) \<and> open_inv c' \<and> active c' \<and>
         good (http_content c'))"
    if "h < length (objs ?W)" "active (conn_at ?W h)" "read_event readv data n (conn_at ?W h) c1" "0 < n"
      "write_ok w (length (reply c1)) c1" for readv data n c1 w t h
    using handle_ok [of c1 "answers S h" w t] read_ok [OF inv that(1-3)] that(3-5) by (simp add: read_event_def)
  from step show ?thesis
  proof cases
    case (control W')
    then show ?thesis
      using control_ok [OF server_step_effect [OF I(2,1) control(3,4)] server_step_inv [OF control(3) I(1)] inv] by simp
  next
    case (message h readv data n c1 w t c2)
    from handled [OF message(3-7), of t] message(8) have c2: "stream_inv c2 (answers S h @ kept w c1 (reply c1))"
      "open_inv c2" "active c2" "good (http_content c2)" by auto
    have "local_op (conn_at ?W h) c2"
      using local_trans [OF read_ok(3) [OF inv message(3-5)] handle_local [OF message(8)]] .
    then show ?thesis using put_ok [OF inv message(3,4)] c2 unfolding message(1) by blast
  next
    case (throws h readv data n c1 w t f)
    then show ?thesis using handled [OF throws(3-7), of t] inv by (auto simp: serving_inv_def)
  next
    case (hangs h readv data n c1 w t)
    then show ?thesis using handled [OF hangs(3-7), of t] by auto
  next
    case (read_error h readv data n c1)
    then show ?thesis
      using put_ok_quiet [OF inv read_error(3,4)] read_ok [OF inv read_error(3-5)] unfolding read_error(1) by simp
  next
    case (read_fails h readv data n f)
    then show ?thesis using handleRead_fault [OF read_fails(6)] inv by (simp add: serving_inv_def)
  next
    case (end_of_file h readv data c1 W')
    then show ?thesis using end_of_file_ok [OF inv end_of_file(3-6)] by simp
  next
    case (writable h w)
    let ?c = "conn_at ?W h"
    note o = ok [OF writable(3), unfolded conn_ok_def]
    have "stream_inv ?c (answers S h)" "open_inv ?c" using o writable(4) by simp_all
    from handleWrite_ok [OF this writable(5)] show ?thesis
      using o writable(4) parser_frame(1) [of w ?c] unfolding writable(1)
      by (intro put_ok_quiet [OF inv writable(3,4) local_handleWrite]) (simp_all add: active_def)
  next
    case (functors h)
    let ?c = "conn_at ?W h"
    have h: "h < length (objs ?W)" using functors(3) by (simp add: served_def)
    note o = ok [OF h, unfolded conn_ok_def]
    have q: "stream_inv (run_queued ?c) (answers S h)" "conn_state (run_queued ?c) = conn_state ?c"
      "active ?c \<Longrightarrow> open_inv (run_queued ?c)" "good (http_content (run_queued ?c))"
      using run_queued_ok [of ?c "answers S h"] o parser_frame_queued [of ?c] by simp_all
    have "conn_ok (run_queued ?c) (answers S h)"
      using q functors(4) by (simp add: conn_ok_def active_def)
    then have "conn_ok (conn_at (put h (run_queued ?c) ?W) h) (answers S h)" using h by (simp add: put_conn_at)
    moreover have "conn_ok (conn_at (put h (run_queued ?c) ?W) k) (answers S k)" if "k < length (objs ?W)" "k \<noteq> h" for k
      using untouched_ok [OF I(2,1) that(1) put_untouched [OF I(2) functors(3) local_run_queued that(2)] ok [OF that(1)]] .
    moreover have "server_inv (put h (run_queued ?c) ?W)"
      using put_server_inv [OF I(1) h, of "run_queued ?c"] q(2) local_opD(1) [OF local_run_queued [of ?c]] by simp
    moreover have "poller_inv (put h (run_queued ?c) ?W)" by (rule poller_inv_put [OF I(2) functors(3) local_run_queued])
    ultimately show ?thesis using inv unfolding functors(1) by (simp add: serving_inv_def) metis
  qed
qed

lemma serving_safe: "serving_reachable handle reply startLoop S \<Longrightarrow> serving_inv S"
proof (induction rule: serving_reachable.induct)
  case (init n l p f nm s)
  have "server_inv (init_World s)" by (rule reachable_server_inv [OF server_reachable.init [OF init]])
  moreover have "poller_inv (init_World s)"
    using init
    by (auto simp: poller_inv_def init_World_def served_def interest_def new_Epoller_def setThreadNum_def new_TcpServer_def
        poll_inv_def registered_as_def entry_def valid_index_def new_Accepter_def Init_def new_Channel_def setReadCallBack_def
        kNew_def kAdded_def kDeleted_def split: if_splits)
  ultimately show ?case by (simp add: serving_inv_def init_World_def)
next
  case (step S T)
  then show ?case using serving_step_inv by blast
qed

lemma serving_output:
  assumes "serving_reachable handle reply startLoop S"
  shows "\<not> stuck S" "failed S = Some f \<Longrightarrow> f \<in> thrown"
    "h < length (objs (world S)) \<Longrightarrow>
       wire (socket (tcp (objs (world S) ! h))) @ content (outputBuffer (tcp (objs (world S) ! h))) = answers S h"
  using serving_safe [OF assms] by (simp_all add: serving_inv_def conn_ok_def stream_inv_def)

text \<open>A step is about one connection: the others keep their object, their answers and their entry in the kernel's list.\<close>

lemma step_isolated:
  assumes step: "serving_step handle reply startLoop S T" and inv: "serving_inv S"
  shows "\<exists>g. length (objs (world S)) \<le> length (objs (world T)) \<and>
    (\<forall>h < length (objs (world S)). h \<noteq> g \<longrightarrow> untouched (world S) (world T) h \<and> answers T h = answers S h)"
proof -
  let ?W = "world S"
  have I: "server_inv ?W" "poller_inv ?W" using inv by (simp_all add: serving_inv_def)
  have puts: "\<exists>g. length (objs ?W) \<le> length (objs (put h c ?W)) \<and>
      (\<forall>k < length (objs ?W). k \<noteq> g \<longrightarrow> untouched ?W (put h c ?W) k \<and> a k = answers S k)"
    if "served ?W h" "local_op (conn_at ?W h) c" "\<And>k. k \<noteq> h \<Longrightarrow> a k = answers S k" for h c a
    using put_untouched [OF I(2) that(1,2)] that(3) by (intro exI [of _ h]) simp
  have controls: "\<exists>g. length (objs ?W) \<le> length (objs W') \<and> (\<forall>k < length (objs ?W). k \<noteq> g \<longrightarrow> untouched ?W W' k)"
    if "control_effect ?W W'" for W'
    using that unfolding control_effect_def others_untouched_def by blast
  note open_served = opened_served(1) [OF I(1)]
  from step show ?thesis
  proof cases
    case (control W')
    then show ?thesis using controls [OF server_step_effect [OF I(2,1) control(3,4)]] by simp
  next
    case (message h readv data n c1 w t c2)
    have "local_op (conn_at ?W h) c2"
      using local_trans [OF read_ok(3) [OF inv message(3-5)] handle_local [OF message(8)]] .
    from puts [OF open_served [OF message(3,4)] this, of "answers T"] show ?thesis using message(1) by simp
  next
    case (read_error h readv data n c1)
    from puts [OF open_served [OF read_error(3,4)] read_ok(3) [OF inv read_error(3-5)], of "answers T"]
    show ?thesis using read_error(1) by simp
  next
    case (end_of_file h readv data c1 W')
    obtain b where b: "close_conn (Some Inr) h (put h ((conn_at ?W h)\<lparr>inputBuffer := b\<rparr>) ?W) = Inr W'"
      using end_of_file_closes [OF end_of_file(3,5,6)] by blast
    let ?V = "put h ((conn_at ?W h)\<lparr>inputBuffer := b\<rparr>) ?W"
    note s = open_served [OF end_of_file(3,4)]
    have V: "poller_inv ?V" by (rule poller_inv_put [OF I(2) s local_updates(2)])
    have act: "active (conn_at ?V h)" using end_of_file(3,4) by (simp add: active_def put_tcp)
    have "untouched ?W W' k" if "k \<noteq> h" for k
    proof -
      let ?c = "on_channel DisableAll ((conn_at ?V h)\<lparr>conn_state := kdisConnected\<rparr>)"
      have "removeConnection (Some Inr) (ioLoop (objs ?V ! h)) h (put h ?c ?V) = Inr W'"
        using b by (simp add: close_conn_def on_conn_put quiet_calls)
      then have W': "objs W' = objs (put h ?c ?V)" "pollers W' = pollers (put h ?c ?V)"
        by (auto simp: removeConnection_def run_in_loop_def removeConnectionInLoop_def queue_on_def Let_def split: if_splits)
      have "untouched ?W (put h ?c ?V) k"
        using untouched_trans [OF put_untouched [OF I(2) s local_updates(2) that] put_untouched [OF V _ local_then_channel [OF local_updates(1)] that]] s
        by simp
      then show ?thesis by (simp add: untouched_def W')
    qed
    moreover have "length (objs W') = length (objs ?W)"
      using b by (auto simp: close_conn_def on_conn_put quiet_calls removeConnection_def run_in_loop_def
          removeConnectionInLoop_def queue_on_def Let_def split: if_splits)
    ultimately show ?thesis using end_of_file(1) by (intro exI [of _ h]) simp
  next
    case (writable h w)
    from puts [OF open_served [OF writable(3,4)] local_handleWrite, of "answers T"] show ?thesis using writable(1) by simp
  next
    case (functors h)
    from puts [OF functors(3) local_run_queued, of "answers T"] show ?thesis using functors(1) by simp
  qed (use untouched_refl [OF I(2)] in \<open>auto\<close>)
qed

end

text \<open>What a connection has answered is a sequence of whole replies.\<close>

lemma serving_replies:
  "serving_reachable handle reply startLoop S \<Longrightarrow> \<exists>cs. answers S h = concat (map reply cs)"
proof (induction arbitrary: h rule: serving_reachable.induct)
  case (init n l p f nm s h)
  show ?case by (rule exI [of _ "[]"]) simp
next
  case (step S T h)
  have more: "\<exists>ds. a @ kept w c (reply c) = concat (map reply ds)" if pre: "\<exists>cs. a = concat (map reply cs)" for a w c
  proof -
    obtain cs where "a = concat (map reply cs)" using pre by blast
    then show ?thesis by (intro exI [of _ "if direct_write c \<and> w < 0 then cs else cs @ [c]"]) (simp add: kept_def)
  qed
  from step.hyps(2) show ?case
  proof cases
    case (message g readv data n c1 w t c2)
    then show ?thesis using step.IH more [OF step.IH] by simp
  qed (use step.IH in simp_all)
qed

end
