(* ===== verification/Http_Serving.thy ===== *)
theory Http_Serving
  imports Http_Robust Net_Served Main_Program
begin

text \<open>
  The HTTP server of \<^verbatim>\<open>Main.cc\<close> at work: all its connections, on all its loops, with the callbacks of
  \<^verbatim>\<open>Http/httpServer.cc\<close>. \<open>Http_Robust\<close> looks at one connection that is alone with its poller; here they share the
  pollers, and accepting, queued functors and closings go on meanwhile.
\<close>

subsection \<open>The message callback keeps to its connection\<close>

lemma local_refuse: "refuse w c = Inr c' \<Longrightarrow> local_op c c'"
  using local_trans [OF local_send local_shutdown] by (auto simp: refuse_def split: sum.splits)

lemma local_dealWithRequest: "dealWithRequest cb w req c = Inr c' \<Longrightarrow> local_op c c'"
proof -
  assume d: "dealWithRequest cb w req c = Inr c'"
  have s: "send_buffer w b c = Inr (c1, b1) \<Longrightarrow> local_op c c1" for b c1 b1
    using local_send by (auto simp: send_buffer_def split: sum.splits if_splits)
  show "local_op c c'"
    using d local_trans [OF s local_shutdown] s by (auto simp: dealWithRequest_def split: sum.splits if_splits)
qed

lemma local_parsed: "local_op c ((if b then updateTimeStamp t c else c)\<lparr>http_content := hc, inputBuffer := ib\<rparr>)"
  by (rule local_same) (simp_all add: updateTimeStamp_def)

lemma http_handle_local:
  assumes "http_handle auto_close t w c = Some (Inr c')"
  shows "local_op c c'"
proof -
  let ?c1 = "if auto_close then updateTimeStamp t c else c"
  have mc: "MessageCallback HttpResponseCallBack auto_close t w w c = Some (Inr c')"
    using assms by (simp add: http_handle_def)
  show ?thesis
  proof (cases "IsShutdown ?c1")
    case True
    then have "c' = ?c1" using mc by (simp add: MessageCallback_def Let_def)
    then show ?thesis by (simp add: updateTimeStamp_def)
  next
    case False
    then obtain ok hc b c3 where p: "(if ok then Inr (?c1\<lparr>http_content := hc, inputBuffer := b\<rparr>)
        else refuse w (?c1\<lparr>http_content := hc, inputBuffer := b\<rparr>)) = Inr c3"
      and rest: "(if GetCompleteRequest (http_content c3) then
          (case dealWithRequest HttpResponseCallBack w (request (http_content c3)) c3 of Inl f \<Rightarrow> Some (Inl f)
           | Inr c4 \<Rightarrow> Some (Inr (c4\<lparr>http_content := ResetContentState (http_content c4)\<rparr>)))
        else Some (Inr c3)) = Some (Inr c')"
      using mc unfolding MessageCallback_def Let_def by (auto split: option.splits sum.splits)
    have "local_op c c3"
      using p local_parsed [where c = c and b = auto_close and t = t and hc = hc and ib = b] local_trans [OF local_parsed local_refuse] by (cases ok) auto
    moreover have "local_op c3 c'"
      using rest local_trans [OF local_dealWithRequest local_updates(5)] by (auto split: sum.splits if_splits)
    ultimately show ?thesis by (rule local_trans)
  qed
qed

interpretation served: local_handler "http_handle auto_close" http_reply
    "\<lambda>hc. request_set (parse_state hc) (request hc)" "{LengthError}" for auto_close
  by unfold_locales (rule http_handle_local)

subsection \<open>Properties\<close>

text \<open>What the kernel's list of loop \<open>l\<close> holds for a descriptor.\<close>

definition kernel_entry :: "World \<Rightarrow> nat \<Rightarrow> int \<Rightarrow> (32 word \<times> nat) option" where
  "kernel_entry W l f = (case interest (pollers W l) of None \<Rightarrow> None | Some K \<Rightarrow> K f)"

lemma opened_entry:
  assumes "poller_inv W" and "served W h" and "open_inv (conn_at W h)"
  shows "\<exists>m. kernel_entry W (ioLoop (objs W ! h)) (conn_fd W h) = Some (m, h) \<and> (bit m 0 \<or> bit m 1) \<and>
    (bit m 2 \<longleftrightarrow> content (outputBuffer (tcp (objs W ! h))) \<noteq> [])"
proof -
  let ?ch = "channel (tcp (objs W ! h))"
  have reg: "registered (content (outputBuffer (conn_at W h)) \<noteq> []) (conn_at W h)" by (rule open_invD(1) [OF assms(3)])
  then obtain K where "interest (pollers W (ioLoop (objs W ! h))) = Some K" "K (fd ?ch) = entry ?ch"
    by (auto simp: registered_def conn_poll_def poll_inv_def)
  moreover have "entry ?ch = Some (events ?ch, h)"
    using reg poller_invD(3) [OF assms(1,2)] by (simp add: registered_def entry_def)
  ultimately show ?thesis
    using reg by (simp add: kernel_entry_def conn_fd_def registered_def isReading_bit isWriting_bit)
qed

lemma entry_owner:
  assumes "poller_inv W" and "kernel_entry W l f = Some (m, p)"
  shows "(served W p \<and> ioLoop (objs W ! p) = l \<and> conn_fd W p = f) \<or> l = srv_loop (server W) \<and> f = accept_fd W"
proof -
  obtain K where K: "interest (pollers W l) = Some K" "K f = Some (m, p)"
    using assms(2) by (auto simp: kernel_entry_def split: option.splits)
  then consider (conn) h where "served W h" "ioLoop (objs W ! h) = l" "conn_fd W h = f"
    | (acc) "l = srv_loop (server W)" "f = accept_fd W"
    using poller_invD(7) [OF assms(1), of l K f] by auto
  then show ?thesis
  proof cases
    case conn
    have "K f = entry (channel (tcp (objs W ! h)))"
      using poller_invD(2) [OF assms(1) conn(1)] K(1) conn(2,3) by (auto simp: conn_poll_def poll_inv_def conn_fd_def)
    then have "h = p" using K(2) poller_invD(3) [OF assms(1) conn(1)] by (auto simp: entry_def split: if_splits)
    then show ?thesis using conn by blast
  qed blast
qed


text \<open>
  C2: Connections do not disturb each other: every step of the running server, whichever thread makes it, leaves all
  connections but one exactly as they were: their buffers, parser, state and loop, what they have answered, and,
  while they exist, the kernel's entry for their descriptor.
\<close>

theorem connections_are_isolated:
  assumes "serving_reachable (http_handle auto_close) http_reply startLoop S"
    and "serving_step (http_handle auto_close) http_reply startLoop S T"
  shows "\<exists>g. length (objs (world S)) \<le> length (objs (world T)) \<and>
    (\<forall>h < length (objs (world S)). h \<noteq> g \<longrightarrow>
       objs (world T) ! h = objs (world S) ! h \<and> answers T h = answers S h \<and>
       (stage_of (world S) h \<noteq> Released \<longrightarrow>
          kernel_entry (world T) (ioLoop (objs (world S) ! h)) (conn_fd (world S) h) =
          kernel_entry (world S) (ioLoop (objs (world S) ! h)) (conn_fd (world S) h)))"
proof -
  have "served (world S) h" if "h < length (objs (world S))" "stage_of (world S) h \<noteq> Released" for h
    using that by (auto simp: served_def stage_of_def obj_stage_def)
  moreover have "objs (world T) ! h = objs (world S) ! h \<and> (served (world S) h \<longrightarrow>
      kernel_entry (world T) (ioLoop (objs (world S) ! h)) (conn_fd (world S) h) =
      kernel_entry (world S) (ioLoop (objs (world S) ! h)) (conn_fd (world S) h))" if "untouched (world S) (world T) h" for h
    using that by (auto simp: untouched_def agree_def kernel_entry_def)
  moreover obtain g where "length (objs (world S)) \<le> length (objs (world T))"
    and "\<forall>h < length (objs (world S)). h \<noteq> g \<longrightarrow> untouched (world S) (world T) h \<and> answers T h = answers S h"
    using served.step_isolated [OF assms(2) served.serving_safe [OF assms(1)]] by blast
  ultimately show ?thesis by (intro exI [of _ g]) blast
qed

text \<open>The loops run what is queued, as steps of the running server.\<close>

lemma serving_runs:
  assumes "runs\<^sup>*\<^sup>* (world S) W'" and "serving_reachable (http_handle auto_close) http_reply startLoop S" and "up S"
  shows "serving_reachable (http_handle auto_close) http_reply startLoop (S\<lparr>world := W'\<rparr>)"
  using assms(1)
proof (induction rule: rtranclp_induct)
  case base
  show ?case using assms(2) by simp
next
  case (step W W')
  let ?S = "S\<lparr>world := W\<rparr>"
  have srv: "server_inv W" using served.serving_safe [OF step.IH] by (simp add: served.serving_inv_def)
  have "length (objs W') = length (objs W)" using runs_work [OF step(2) srv] by blast
  then have "fresh_fds (world ?S) W'" by (simp add: fresh_fds_def)
  moreover have "server_step startLoop (world ?S) W'" using server_step.run [OF step(2)] by simp
  moreover have "up ?S" using assms(3) by (simp add: up_def)
  ultimately have "serving_step (http_handle auto_close) http_reply startLoop ?S (?S\<lparr>world := W'\<rparr>)"
    by (intro serving_step.control)
  from serving_reachable.step [OF step.IH this] show ?case by simp
qed


subsection \<open>Witnesses\<close>

lemma demo_serving:
  "\<exists>S. serving_reachable handle reply demo_threads S \<and> up S \<and> length (objs (world S)) = 1 \<and>
     stage_of (world S) 0 = Establishing \<and> ioLoop (objs (world S) ! 0) = 7 \<and> conn_fd (world S) 0 = 5"
proof -
  let ?mk = "\<lambda>W. \<lparr>world = W, answers = (\<lambda>_. []), failed = None, stuck = False, read_fault = None\<rparr>"
  have upS: "up (?mk W)" for W by (simp add: up_def)
  have "setThreadNum 1 (new_TcpServer 0 (new_Accepter 3 3) ''web'') = Inr demo_server"
    by (simp add: setThreadNum_def demo_server_def new_TcpServer_def)
  then have r0: "serving_reachable handle reply demo_threads (?mk (init_World demo_server))"
    and q0: "server_reachable demo_threads (init_World demo_server)"
    by (rule serving_reachable.init, rule server_reachable.init)
  let ?s1 = "demo_server\<lparr>srv_started := True, threadPool := pool_start demo_threads (threadPool demo_server)\<rparr>"
  let ?W1 = "listen_in_loop (init_World ?s1)"
  have s: "srv_loop demo_server = 0" "\<not> srv_started demo_server" "nextConnId demo_server = 1"
    "\<not> listening (accepter demo_server)" "loops (threadPool ?s1) = [7]" "next_loop (threadPool ?s1) = 0"
    by (simp_all add: demo_server_def new_TcpServer_def new_Accepter_def setThreaadNum_def
        new_EventLoopThreadPool_def demo_threads_def)
  have "server_start (Some Inr) demo_threads 0 (init_World demo_server) = Inr ?W1"
    using s by (simp add: server_start_def init_World_def Let_def run_in_loop_def)
  then have st1: "server_step demo_threads (init_World demo_server) ?W1" by (rule server_step.start)
  have q1: "server_reachable demo_threads ?W1" by (rule server_reachable.step [OF q0 st1])
  have "fresh_fds (init_World demo_server) ?W1" by (simp add: fresh_fds_def init_World_def)
  then have "serving_step handle reply demo_threads (?mk (init_World demo_server)) (?mk ?W1)"
    using serving_step.control [OF upS, of demo_threads "init_World demo_server" ?W1 handle reply] st1 by simp
  then have r1: "serving_reachable handle reply demo_threads (?mk ?W1)" by (rule serving_reachable.step [OF r0])
  have f: "nextConnId (server ?W1) = 1" "objs ?W1 = []" "robin (threadPool (server ?W1)) 0 = 7" "srv_loop (server ?W1) = 0"
    using s by (simp_all add: init_World_def robin_def)
  have l: "listening (accepter (server ?W1))"
    by (simp add: listen_in_loop_def accepter_listen_def Let_def split: prod.split)
  let ?addr = "\<lparr>sin_port = 0, s_addr = 0\<rparr>"
  obtain W2 where W2: "newConnection (Some Inr) (TimeStamp 0) 5 ?addr ?W1 = Inr W2"
    "length (objs W2) = 1" "ioLoop (objs W2 ! 0) = 7" "stage_of W2 0 = Establishing"
    using newConnection_ok [OF reachable_server_inv [OF q1], of "TimeStamp 0" 5 ?addr] f by auto
  have fd5: "conn_fd W2 0 = 5" using newConnection_shape [OF W2(1)] f(2) by (metis list.size(3))
  have "accept_event (Some Inr) (TimeStamp 0) (5, ?addr) ?W1 = Inr W2"
    using W2(1) by (simp add: accept_event_def NewConnection_def socket_accept_def)
  then have st2: "server_step demo_threads ?W1 W2" using l f(1) by (intro server_step.accept) simp_all
  have "accept_fd ?W1 = 3"
    by (simp add: accept_fd_def listen_in_loop_def accepter_listen_def enableReading_def updateChannel_def init_World_def
        demo_server_def new_TcpServer_def new_Accepter_def Init_def setReadCallBack_def Let_def split: prod.splits)
  then have "fresh_fds ?W1 W2" using W2(2) fd5 f(2) by (simp add: fresh_fds_def served_def)
  then have "serving_step handle reply demo_threads (?mk ?W1) (?mk W2)"
    using serving_step.control [OF upS, of demo_threads ?W1 W2 handle reply] st2 by simp
  then have "serving_reachable handle reply demo_threads (?mk W2)" by (rule serving_reachable.step [OF r1])
  then show ?thesis using W2(2-4) fd5 upS by (intro exI [of _ "?mk W2"]) simp
qed

lemma demo_open_server:
  "\<exists>S. serving_reachable (http_handle True) http_reply demo_threads S \<and> length (objs (world S)) = 1 \<and>
     stage_of (world S) 0 = Opened"
proof -
  obtain S where S: "serving_reachable (http_handle True) http_reply demo_threads S" "up S" "length (objs (world S)) = 1"
    "stage_of (world S) 0 = Establishing" using demo_serving by blast
  have srv: "server_inv (world S)" using served.serving_safe [OF S(1)] by (simp add: served.serving_inv_def)
  obtain W' where W': "runs\<^sup>*\<^sup>* (world S) W'" "server_inv W'" "\<forall>l. pendingFunctors (evloops W' l) = []"
    "length (objs W') = length (objs (world S))" "\<forall>h < length (objs (world S)). settled (stage_of W' h) = settled (stage_of (world S) h)"
    using all_settle [OF srv] by blast
  have "stage_of W' 0 = Opened" using idle_settled [OF W'(2,3), of 0] W'(4,5) S(3,4) by (simp add: settled_def)
  then show ?thesis using serving_runs [OF W'(1) S(1,2)] W'(4) S(3) by (intro exI [of _ "S\<lparr>world := W'\<rparr>"]) simp
qed


lemma connections_are_isolated_witness:
  "\<exists>S T g. serving_step (http_handle True) http_reply demo_threads S T \<and> length (objs (world S)) = 1 \<and>
     (\<forall>h < length (objs (world S)). h \<noteq> g \<longrightarrow> objs (world T) ! h = objs (world S) ! h \<and> answers T h = answers S h)"
proof -
  obtain S where S: "serving_reachable (http_handle True) http_reply demo_threads S" "up S" "length (objs (world S)) = 1"
    using demo_serving by blast
  let ?W' = "put 0 (Net_TcpConnection.shutdown True (conn_at (world S) 0)) (world S)"
  have "server_step demo_threads (world S) ?W'"
    using S(3) by (intro server_step.shutdown [of 0]) (simp_all add: on_conn_put)
  then have "serving_step (http_handle True) http_reply demo_threads S (S\<lparr>world := ?W'\<rparr>)"
    using S(2) by (intro serving_step.control) (simp_all add: fresh_fds_def)
  from connections_are_isolated [OF S(1) this] this S(3) show ?thesis by blast
qed


end
