(* ===== verification/Test_Serving.thy ===== *)
theory Test_Serving
  imports Test_Servers Net_Served
begin

text \<open>
  The servers of \<^verbatim>\<open>Test/testServer.cc\<close>, \<^verbatim>\<open>Test/testChat.cc\<close> and \<^verbatim>\<open>Test/testSimAll.cc\<close> with all their connections at
  once: their message callbacks fulfil \<open>local_handler\<close>.
\<close>

lemma text_handle_local: "text_handle answer t w c = Some (Inr c') \<Longrightarrow> local_op c c'"
  using local_trans [OF local_updates(2) local_send] by (auto simp: text_handle_def split: sum.splits)

sublocale text_handler \<subseteq> local_handler "text_handle answer" "\<lambda>c. answer (content (inputBuffer c))" "\<lambda>_. True" "{}"
  by unfold_locales (rule text_handle_local)

interpretation sim_served: local_handler "\<lambda>t w c. Some (sim_onMessage c)" "\<lambda>c. []" "\<lambda>_. True" "{}"
  by unfold_locales (auto simp: sim_onMessage_def)

text \<open>Their callbacks never fault and always return; what each client has received and will receive are its own answers, in order.\<close>

theorem test_servers_serve:
  assumes "serving_reachable (\<lambda>t w c. Some (test_onMessage w c)) (\<lambda>c. server_says @ content (inputBuffer c)) startLoop S1"
    and "serving_reachable (\<lambda>t w c. Some (chat_onMessage (sint (tid :: 32 word)) w c))
      (\<lambda>c. content (inputBuffer c) @ fmt_int (sint tid)) startLoop S2"
    and "serving_reachable (\<lambda>t w c. Some (sim_onMessage c)) (\<lambda>c. []) startLoop S3"
  shows "\<forall>S \<in> {S1, S2, S3}. \<not> stuck S \<and> failed S = None \<and>
    (\<forall>h < length (objs (world S)). let c = tcp (objs (world S) ! h) in wire (socket c) @ content (outputBuffer c) = answers S h)"
proof -
  note R = echo.serving_output [OF assms(1) [unfolded onMessage_handlers]]
    chat.serving_output [OF assms(2) [unfolded onMessage_handlers]] sim_served.serving_output [OF assms(3)]
  have "failed S1 = None" by (rule ccontr) (use R(2) in auto)
  moreover have "failed S2 = None" by (rule ccontr) (use R(5) in auto)
  moreover have "failed S3 = None" by (rule ccontr) (use R(8) in auto)
  ultimately show ?thesis using R(1,3,4,6,7,9) by (simp add: Let_def)
qed

end
