(* ===== verification/Net_ConnObject.thy ===== *)
theory Net_ConnObject
  imports Test_Serving Main_Program
begin

text \<open>
  What a program hands to the library and where it ends up: the function types of \<^verbatim>\<open>Net/Callback.h\<close>, the setters
  of \<^verbatim>\<open>Net/TcpServer.h\<close> and \<^verbatim>\<open>Net/TcpConnection.h\<close>, the members of a connection beside those of
  Net_TcpConnection (its loop, name, addresses and callbacks), and the part of \<open>TcpServer::newConnection\<close> that fills
  them in. At the end the main functions of the servers in \<^verbatim>\<open>Test/\<close>.

  A \<open>std::function\<close> is an option, \<open>None\<close> the empty one; \<open>'k\<close> names the functions of the program, and
  \<open>conn_call\<close> gives the names their meaning, which is how the stored callbacks become the arguments that the
  operations of Net_TcpConnection call.
\<close>

subsection \<open>The callbacks of a server\<close>

record 'k ServerCallbacks =
  srv_connectioncb :: "'k option"
  srv_messagecb :: "'k option"
  srv_writecompletecb :: "'k option"

definition no_callbacks :: "'k ServerCallbacks" where
  "no_callbacks = \<lparr>srv_connectioncb = None, srv_messagecb = None, srv_writecompletecb = None\<rparr>"

definition setMessageCallback :: "'k \<Rightarrow> 'k ServerCallbacks \<Rightarrow> 'k ServerCallbacks" where
  "setMessageCallback cb s = s\<lparr>srv_messagecb := Some cb\<rparr>"

definition setConnectionCallback :: "'k \<Rightarrow> 'k ServerCallbacks \<Rightarrow> 'k ServerCallbacks" where
  "setConnectionCallback cb s = s\<lparr>srv_connectioncb := Some cb\<rparr>"

definition setWriteComCallback :: "'k \<Rightarrow> 'k ServerCallbacks \<Rightarrow> 'k ServerCallbacks" where
  "setWriteComCallback cb s = s\<lparr>srv_writecompletecb := Some cb\<rparr>"

subsection \<open>The members of a connection\<close>

text \<open>A function of the program, or \<open>TcpServer::removeConnection\<close> bound to the server.\<close>

datatype 'k bound_cb = UserCb 'k | RemoveConnectionCb

record 'k ConnObject =
  loop_of :: nat
  name_of :: string
  localaddr :: InetAddress
  peeraddr :: InetAddress
  connectioncb :: "'k bound_cb option"
  messagecb :: "'k bound_cb option"
  closecb :: "'k bound_cb option"
  writecompeletecb :: "'k bound_cb option"
  highWaterMarkcb :: "'k bound_cb option"
  high_water_mark :: nat

definition new_ConnObject :: "nat \<Rightarrow> string \<Rightarrow> InetAddress \<Rightarrow> InetAddress \<Rightarrow> 'k ConnObject" where
  "new_ConnObject l nameArg localAddr peerAddr =
     \<lparr>loop_of = l, name_of = nameArg, localaddr = localAddr, peeraddr = peerAddr, connectioncb = None,
      messagecb = None, closecb = None, writecompeletecb = None, highWaterMarkcb = None,
      high_water_mark = 64 * 1024 * 1024\<rparr>"

definition setConnectionCallBack :: "'k bound_cb option \<Rightarrow> 'k ConnObject \<Rightarrow> 'k ConnObject" where
  "setConnectionCallBack cb c = c\<lparr>connectioncb := cb\<rparr>"

definition setMessageCallBack :: "'k bound_cb option \<Rightarrow> 'k ConnObject \<Rightarrow> 'k ConnObject" where
  "setMessageCallBack cb c = c\<lparr>messagecb := cb\<rparr>"

definition conn_setCloseCallBack :: "'k bound_cb option \<Rightarrow> 'k ConnObject \<Rightarrow> 'k ConnObject" where
  "conn_setCloseCallBack cb c = c\<lparr>closecb := cb\<rparr>"

definition setWriteCompeleteCallBack :: "'k bound_cb option \<Rightarrow> 'k ConnObject \<Rightarrow> 'k ConnObject" where
  "setWriteCompeleteCallBack cb c = c\<lparr>writecompeletecb := cb\<rparr>"

definition setHighWaterMarkCallBack :: "'k bound_cb option \<Rightarrow> nat \<Rightarrow> 'k ConnObject \<Rightarrow> 'k ConnObject" where
  "setHighWaterMarkCallBack cb mark c = c\<lparr>highWaterMarkcb := cb, high_water_mark := mark\<rparr>"

subsection \<open>What \<open>newConnection\<close> fills in\<close>

text \<open>\<open>getsockname\<close> is an argument; when it fails, the zeroed address stays.\<close>

definition local_address :: "InetAddress option \<Rightarrow> InetAddress" where
  "local_address r = (case r of Some a \<Rightarrow> a | None \<Rightarrow> \<lparr>sin_port = 0, s_addr = 0\<rparr>)"

definition bind_callbacks :: "'k ServerCallbacks \<Rightarrow> 'k ConnObject \<Rightarrow> 'k ConnObject" where
  "bind_callbacks k c =
     (let c1 = setConnectionCallBack (map_option UserCb (srv_connectioncb k)) c;
          c2 = setMessageCallBack (map_option UserCb (srv_messagecb k)) c1;
          c3 = setWriteCompeleteCallBack (map_option UserCb (srv_writecompletecb k)) c2
      in conn_setCloseCallBack (Some RemoveConnectionCb) c3)"

definition connection_object ::
  "'k ServerCallbacks \<Rightarrow> InetAddress option \<Rightarrow> InetAddress \<Rightarrow> TcpServer \<Rightarrow> fault + 'k ConnObject" where
  "connection_object k getsockname peerAddr s =
     (case getNextLoop (threadPool s) of
        Inl e \<Rightarrow> Inl e
      | Inr (l, pool) \<Rightarrow>
          Inr (bind_callbacks k (new_ConnObject l (conn_name_of s) (local_address getsockname) peerAddr)))"

text \<open>\<open>removeConnection\<close> changes the server, not the connection.\<close>

fun bound_call :: "('k \<Rightarrow> TcpConnection \<Rightarrow> fault + TcpConnection) \<Rightarrow> 'k bound_cb \<Rightarrow> TcpConnection \<Rightarrow> fault + TcpConnection" where
  "bound_call run (UserCb k) c = run k c"
| "bound_call run RemoveConnectionCb c = Inr c"

definition conn_call :: "('k \<Rightarrow> TcpConnection \<Rightarrow> fault + TcpConnection) \<Rightarrow> 'k bound_cb option \<Rightarrow> conn_cb" where
  "conn_call run cb = map_option (bound_call run) cb"

subsection \<open>Facts\<close>

lemmas setter_defs = setConnectionCallBack_def setMessageCallBack_def conn_setCloseCallBack_def
  setWriteCompeleteCallBack_def setHighWaterMarkCallBack_def bind_callbacks_def new_ConnObject_def

text \<open>The two optional callbacks that nothing calls apart, a connection is determined by its server.\<close>

lemma connection_object_members:
  assumes "connection_object k g peerAddr s = Inr ob"
  shows "connectioncb ob = map_option UserCb (srv_connectioncb k)"
    and "messagecb ob = map_option UserCb (srv_messagecb k)"
    and "writecompeletecb ob = map_option UserCb (srv_writecompletecb k)"
    and "closecb ob = Some RemoveConnectionCb"
    and "highWaterMarkcb ob = None" and "high_water_mark ob = 64 * 1024 * 1024"
    and "peeraddr ob = peerAddr" and "localaddr ob = local_address g" and "name_of ob = conn_name_of s"
  using assms by (auto simp: connection_object_def setter_defs Let_def split: sum.splits)

text \<open>The connection that \<open>newConnection\<close> puts into the world is the same object.\<close>

lemma conn_name_of_pool [simp]: "conn_name_of (s\<lparr>threadPool := pool\<rparr>) = conn_name_of s"
  by (simp add: conn_name_of_def)

lemma run_in_loop_appended:
  assumes "run_in_loop (Some Inr) me l (ConnectEstablishedFn h) W = Inr W'" and "h < length (objs W)"
  shows "conn_name (tcp (objs W' ! h)) = conn_name (tcp (objs W ! h)) \<and> ioLoop (objs W' ! h) = ioLoop (objs W ! h) \<and>
    length (objs W') = length (objs W) \<and> server W' = server W"
  using assms
  by (auto simp: run_in_loop_def on_conn_def queue_on_def connectEstablished_def call_def on_channel_def Let_def
      split: if_splits prod.splits)

theorem connection_object_in_world:
  assumes "newConnection (Some Inr) t f peerAddr W = Inr W'"
  shows "\<exists>ob. connection_object k g peerAddr (server W) = Inr ob \<and> length (objs W') = Suc (length (objs W)) \<and>
    name_of ob = conn_name (tcp (objs W' ! length (objs W))) \<and> loop_of ob = ioLoop (objs W' ! length (objs W)) \<and>
    connections (server W') (name_of ob) = Some (length (objs W))"
proof -
  obtain l pool where pool: "getNextLoop (threadPool (server W)) = Inr (l, pool)"
    using assms by (auto simp: newConnection_def split: sum.splits)
  let ?h = "length (objs W)"
  define W1 where "W1 = W\<lparr>server := (server W)\<lparr>threadPool := pool, nextConnId := c_int (nextConnId (server W) + 1),
      connections := (connections (server W))(conn_name_of (server W) \<mapsto> ?h)\<rparr>,
    objs := objs W @ [\<lparr>tcp = new_TcpConnection ?h (pollers W l) new_EventLoop t (conn_name_of (server W)) f,
      ioLoop = l, released = False\<rparr>]\<rparr>"
  have r: "run_in_loop (Some Inr) (srv_loop (server W)) l (ConnectEstablishedFn ?h) W1 = Inr W'"
    using assms pool by (simp add: newConnection_def Let_def W1_def)
  from run_in_loop_appended [OF r]
  have "conn_name (tcp (objs W' ! ?h)) = conn_name_of (server W)" "ioLoop (objs W' ! ?h) = l"
    "length (objs W') = Suc ?h" "connections (server W') (conn_name_of (server W)) = Some ?h"
    by (simp_all add: W1_def new_TcpConnection_def)
  then show ?thesis using pool by (simp add: connection_object_def setter_defs Let_def)
qed

subsection \<open>Programs that forget a callback\<close>

lemma conn_call_simps [simp]:
  "call (conn_call run None) c = Inl BadFunctionCall"
  "call (conn_call run (Some b)) c = bound_call run b c"
  by (simp_all add: conn_call_def call_def)

text \<open>
  A server without a connection callback cannot take a connection: establishing it throws
  \<open>std::bad_function_call\<close>. Without a message callback the first bytes of a client have that effect.
\<close>

theorem forgotten_callback_throws:
  assumes "connection_object k g peerAddr s = Inr ob"
  shows "srv_connectioncb k = None \<Longrightarrow>
      connectEstablished (conn_call run (connectioncb ob)) c = Inl BadFunctionCall \<and>
      handleClose (conn_call run (connectioncb ob)) (conn_call run (closecb ob)) c = Inl BadFunctionCall"
    and "srv_messagecb k = None \<Longrightarrow> readFd readv (inputBuffer c) = Inr b \<Longrightarrow> 0 < n \<Longrightarrow>
      conn_handleRead readv n (conn_call run (messagecb ob)) (conn_call run (connectioncb ob))
        (conn_call run (closecb ob)) c = Inl BadFunctionCall"
  using connection_object_members [OF assms]
  by (simp_all add: connectEstablished_def handleClose_def conn_handleRead_def Let_def)

text \<open>
  With both set, the library itself never calls an empty function: whatever the operations of a connection
  end in comes from the program's functions or from the buffer.
\<close>

theorem callbacks_are_called:
  assumes "connection_object k g peerAddr s = Inr ob"
    and "srv_connectioncb k = Some f" and "srv_messagecb k = Some m"
    and "\<And>x c. run x c \<noteq> Inl BadFunctionCall"
  shows "connectEstablished (conn_call run (connectioncb ob)) c \<noteq> Inl BadFunctionCall"
    and "connectDestoryed (conn_call run (connectioncb ob)) c \<noteq> Inl BadFunctionCall"
    and "handleClose (conn_call run (connectioncb ob)) (conn_call run (closecb ob)) c \<noteq> Inl BadFunctionCall"
    and "readFd readv (inputBuffer c) = Inr b \<Longrightarrow>
      conn_handleRead readv n (conn_call run (messagecb ob)) (conn_call run (connectioncb ob))
        (conn_call run (closecb ob)) c \<noteq> Inl BadFunctionCall"
proof -
  note cbs = connection_object_members(1,2,4) [OF assms(1)]
  show close: "handleClose (conn_call run (connectioncb ob)) (conn_call run (closecb ob)) c \<noteq> Inl BadFunctionCall" for c
    using cbs assms(2,4) by (auto simp: handleClose_def Let_def split: sum.splits)
  show "connectEstablished (conn_call run (connectioncb ob)) c \<noteq> Inl BadFunctionCall"
    using cbs assms(2,4) by (simp add: connectEstablished_def)
  show "connectDestoryed (conn_call run (connectioncb ob)) c \<noteq> Inl BadFunctionCall"
    using cbs assms(2,4) by (auto simp: connectDestoryed_def split: sum.splits)
  show "conn_handleRead readv n (conn_call run (messagecb ob)) (conn_call run (connectioncb ob))
      (conn_call run (closecb ob)) c \<noteq> Inl BadFunctionCall" if "readFd readv (inputBuffer c) = Inr b"
    using that cbs assms(3,4) close by (simp add: conn_handleRead_def Let_def)
qed

end
