(* ===== verification/Test_Mains.thy ===== *)
theory Test_Mains
  imports Net_ConnObject
begin

text \<open>
  The main functions of \<^verbatim>\<open>Test/testServer.cc\<close>, \<^verbatim>\<open>Test/testChat.cc\<close> and \<^verbatim>\<open>Test/testSimAll.cc\<close> up to their loops:
  which address they bind, which callbacks they set, and the world in which their loop starts. What they share
  with \<^verbatim>\<open>Main.cc\<close> is that they start a server; the lemma \<open>run_server_starts\<close> says what that gives.
\<close>

subsection \<open>The programs\<close>

datatype test_cb = OnConnection | OnMessage | OnWriteComplete

text \<open>\<open>server.start()\<close> on a configured server, on the loop \<open>l\<close> of the main thread.\<close>

definition run_server :: "(nat \<Rightarrow> nat) \<Rightarrow> nat \<Rightarrow> InetAddress \<Rightarrow> 'k ServerCallbacks \<Rightarrow> fault + TcpServer \<Rightarrow>
    fault + (InetAddress \<times> 'k ServerCallbacks \<times> World)" where
  "run_server startLoop l addr k r =
     and_then r (\<lambda>s. and_then (server_start (Some Inr) startLoop l (init_World s)) (\<lambda>W. Inr (addr, k, W)))"

definition test_server_main ::
  "(string \<Rightarrow> 32 word option) \<Rightarrow> (nat \<Rightarrow> nat) \<Rightarrow> nat \<Rightarrow> Accepter \<Rightarrow> string list \<Rightarrow>
   fault + (InetAddress \<times> test_cb ServerCallbacks \<times> World)" where
  "test_server_main inet_pton startLoop l acc argv =
     (let listenAddr = new_InetAddress inet_pton 9981 ''127.0.0.1'';
          s = new_TcpServer l acc ''TestServer'';
          k = setMessageCallback OnMessage (setConnectionCallback OnConnection no_callbacks)
      in run_server startLoop l listenAddr k
           (if length argv > 1 then setThreadNum (atoi (argv ! 1)) s else Inr s))"

definition new_ChatServer :: "nat \<Rightarrow> Accepter \<Rightarrow> string \<Rightarrow> test_cb ServerCallbacks \<times> (fault + TcpServer)" where
  "new_ChatServer l acc nameArg =
     (setMessageCallback OnMessage (setConnectionCallback OnConnection no_callbacks),
      setThreadNum 4 (new_TcpServer l acc nameArg))"

definition chat_main ::
  "(string \<Rightarrow> 32 word option) \<Rightarrow> (nat \<Rightarrow> nat) \<Rightarrow> nat \<Rightarrow> Accepter \<Rightarrow>
   fault + (InetAddress \<times> test_cb ServerCallbacks \<times> World)" where
  "chat_main inet_pton startLoop l acc =
     (let addr = new_InetAddress inet_pton 2002 ''127.0.0.1'';
          (k, s) = new_ChatServer l acc ''ChatServer''
      in run_server startLoop l addr k s)"

text \<open>The message is built first; its construction cannot throw (\<open>sim_message_ok\<close>).\<close>

definition sim_main ::
  "(string \<Rightarrow> 32 word option) \<Rightarrow> (nat \<Rightarrow> nat) \<Rightarrow> nat \<Rightarrow> Accepter \<Rightarrow>
   fault + (string \<times> InetAddress \<times> test_cb ServerCallbacks \<times> World)" where
  "sim_main inet_pton startLoop l acc =
     and_then sim_message (\<lambda>message.
       let localAddr = new_InetAddress inet_pton 9981 ''127.0.0.1'';
           k = setWriteComCallback OnWriteComplete
             (setMessageCallback OnMessage (setConnectionCallback OnConnection no_callbacks))
       in and_then (run_server startLoop l localAddr k (Inr (new_TcpServer l acc ''Server10'')))
            (\<lambda>r. Inr (message, r)))"

subsection \<open>Facts\<close>

text \<open>A started server is reachable and listens, and its pool has the loops that the threads report.\<close>

lemma server_starts:
  assumes "setThreadNum n (new_TcpServer l acc nm) = Inr s" and "\<not> listening acc"
  shows "\<exists>W. server_start (Some Inr) startLoop l (init_World s) = Inr W \<and> server_reachable startLoop W \<and>
    listening (accepter (server W)) \<and> loops (threadPool (server W)) = map startLoop [0..<nat n] \<and>
    srv_name (server W) = nm"
proof -
  have s: "s = (new_TcpServer l acc nm)\<lparr>threadPool := setThreaadNum n (new_EventLoopThreadPool l)\<rparr>"
    using assms(1) by (auto simp: setThreadNum_def new_TcpServer_def split: if_splits)
  obtain W where W: "server_start (Some Inr) startLoop l (init_World s) = Inr W" "listening (accepter (server W))"
    "loops (threadPool (server W)) = map startLoop [0..<nat n]" "srv_name (server W) = nm"
    using assms(2)
    by (auto simp: s server_start_def run_in_loop_def init_World_def new_TcpServer_def listen_in_loop_def Let_def
        accepter_listen_def setThreaadNum_def new_EventLoopThreadPool_def split: prod.splits)
  have "server_reachable startLoop W"
    using server_reachable.step [OF server_reachable.init [OF assms(1)] server_step.start [OF W(1)]] .
  with W show ?thesis by blast
qed

lemma setThreadNum_0: "setThreadNum 0 (new_TcpServer l acc nm) = Inr (new_TcpServer l acc nm)"
  by (simp add: setThreadNum_def new_TcpServer_def setThreaadNum_def new_EventLoopThreadPool_def)

lemma run_server_starts:
  assumes "r = setThreadNum n (new_TcpServer l acc nm)" and "0 \<le> n" and "\<not> listening acc"
  shows "\<exists>W. run_server startLoop l addr k r = Inr (addr, k, W) \<and> server_reachable startLoop W \<and>
    listening (accepter (server W)) \<and> loops (threadPool (server W)) = map startLoop [0..<nat n] \<and>
    srv_name (server W) = nm"
proof -
  obtain s where s: "setThreadNum n (new_TcpServer l acc nm) = Inr s" using assms(2) by (simp add: setThreadNum_def)
  obtain W where "server_start (Some Inr) startLoop l (init_World s) = Inr W" "server_reachable startLoop W"
    "listening (accepter (server W))" "loops (threadPool (server W)) = map startLoop [0..<nat n]"
    "srv_name (server W) = nm"
    using server_starts [OF s assms(3), of startLoop] by blast
  then show ?thesis using assms(1) s by (simp add: run_server_def)
qed

text \<open>Both callbacks that connections call are set, so \<open>callbacks_are_called\<close> applies to their connections.\<close>

definition serves :: "(nat \<Rightarrow> nat) \<Rightarrow> nat \<Rightarrow> string \<Rightarrow> test_cb ServerCallbacks \<Rightarrow> World \<Rightarrow> bool" where
  "serves startLoop n nm k W \<longleftrightarrow>
     srv_connectioncb k = Some OnConnection \<and> srv_messagecb k = Some OnMessage \<and>
     server_reachable startLoop W \<and> listening (accepter (server W)) \<and>
     loops (threadPool (server W)) = map startLoop [0..<n] \<and> srv_name (server W) = nm"

lemmas program_defs = no_callbacks_def setMessageCallback_def setConnectionCallback_def setWriteComCallback_def
  serves_def Let_def

text \<open>\<open>testServer.cc\<close> with a number of threads; a negative one is an assertion, none is no thread.\<close>

theorem test_server_main_serves:
  assumes "\<not> listening acc" and "length argv \<le> 1 \<and> n = 0 \<or> 1 < length argv \<and> atoi (argv ! 1) = int n"
  shows "\<exists>addr k W. test_server_main inet_pton startLoop l acc argv = Inr (addr, k, W) \<and> port addr = 9981 \<and>
    serves startLoop n ''TestServer'' k W"
proof -
  let ?s = "new_TcpServer l acc ''TestServer''"
  have "(if length argv > 1 then setThreadNum (atoi (argv ! 1)) ?s else Inr ?s) = setThreadNum (int n) ?s"
    using assms(2) by (auto simp: setThreadNum_0)
  from run_server_starts [OF this _ assms(1), of startLoop] show ?thesis
    by (fastforce simp: test_server_main_def program_defs)
qed

theorem test_server_main_asserts:
  "1 < length argv \<Longrightarrow> atoi (argv ! 1) < 0 \<Longrightarrow>
     test_server_main inet_pton startLoop l acc argv = Inl AssertFailed"
  by (simp add: test_server_main_def run_server_def setThreadNum_def Let_def)

theorem chat_main_serves:
  assumes "\<not> listening acc"
  shows "\<exists>addr k W. chat_main inet_pton startLoop l acc = Inr (addr, k, W) \<and> port addr = 2002 \<and>
    serves startLoop 4 ''ChatServer'' k W"
  using run_server_starts [OF refl _ assms, of 4 startLoop]
  by (fastforce simp: chat_main_def new_ChatServer_def program_defs)

theorem sim_main_serves:
  assumes "\<not> listening acc"
  shows "\<exists>m addr k W. sim_main inet_pton startLoop l acc = Inr (m, addr, k, W) \<and> length m = 6862 \<and>
    port addr = 9981 \<and> srv_writecompletecb k = Some OnWriteComplete \<and> serves startLoop 0 ''Server10'' k W"
proof -
  obtain m where m: "sim_message = Inr m" "length m = 6862" using sim_message_ok by blast
  let ?k = "setWriteComCallback OnWriteComplete
    (setMessageCallback OnMessage (setConnectionCallback OnConnection no_callbacks))"
  have "\<exists>W. run_server startLoop l addr ?k (Inr (new_TcpServer l acc ''Server10'')) = Inr (addr, ?k, W) \<and>
      serves startLoop 0 ''Server10'' ?k W" for addr
    using run_server_starts [OF setThreadNum_0 [symmetric] _ assms, where startLoop = startLoop and k = ?k] by (simp add: program_defs)
  then obtain W where "run_server startLoop l (new_InetAddress inet_pton 9981 ''127.0.0.1'') ?k
      (Inr (new_TcpServer l acc ''Server10'')) = Inr (new_InetAddress inet_pton 9981 ''127.0.0.1'', ?k, W)"
    "serves startLoop 0 ''Server10'' ?k W" by blast
  moreover from this(1) have "sim_main inet_pton startLoop l acc =
      Inr (m, new_InetAddress inet_pton 9981 ''127.0.0.1'', ?k, W)"
    unfolding sim_main_def m(1) by (simp add: Let_def)
  moreover have "srv_writecompletecb ?k = Some OnWriteComplete" by (simp add: setWriteComCallback_def)
  ultimately show ?thesis using m(2) port_new by blast
qed

end
